(* ===== verification/Prelude.thy ===== *)
theory Prelude
  imports Main "HOL-Library.Word" "HOL-Library.Monad_Syntax"
begin

text \<open>
  Shared vocabulary of the TCPunch development: the machine integers and strings of the
  Rust sources, the two ways a Rust computation can fail, checked access to byte buffers,
  and the list lemmas that every component uses.

  A Rust computation that may \<^emph>\<open>panic\<close> returns \<^typ>\<open>'a option\<close>, with \<^term>\<open>None\<close> for the
  panic. A computation that returns \<open>Result<T, E>\<close> returns \<^typ>\<open>'e + 'a\<close>, with \<^term>\<open>Inl\<close> for
  \<open>Err\<close> and \<^term>\<open>Inr\<close> for \<open>Ok\<close>. \<open>usize\<close> is taken at 64 bits.
\<close>

type_synonym byte = "8 word"
type_synonym u16 = "16 word"
type_synonym u64 = "64 word"
type_synonym usize = "64 word"

text \<open>
  A Rust \<open>String\<close> is a vector of bytes that is well-formed UTF-8; \<open>len\<close>, \<open>is_empty\<close>,
  \<open>as_bytes\<close> and \<open>==\<close> work on the bytes, so the model keeps the bytes.
\<close>

type_synonym rust_string = "byte list"

text \<open>Durations and instants of \<open>std::time\<close>, counted in nanoseconds.\<close>

type_synonym duration = nat
type_synonym instant = nat

named_theorems lookup_laws \<comment> \<open>what a lookup returns after an update\<close>
named_theorems phase_defs \<comment> \<open>the phases of a connection handler\<close>

subsection \<open>String literals\<close>

definition str :: "string \<Rightarrow> rust_string" where
  "str s = map of_char s"

lemma length_str [simp]: "length (str s) = length s"
  by (simp add: str_def)

lemma str_append [simp]: "str (s @ t) = str s @ str t"
  by (simp add: str_def)

subsection \<open>Checked access to buffers\<close>

text \<open>\<open>data[i]\<close>: out of range it panics.\<close>

definition index :: "'a list \<Rightarrow> nat \<Rightarrow> 'a option" where
  "index data i = (if i < length data then Some (data ! i) else None)"

text \<open>\<open>buf[i] = v\<close>: out of range it panics.\<close>

definition index_set :: "'a list \<Rightarrow> nat \<Rightarrow> 'a \<Rightarrow> 'a list option" where
  "index_set buf i v = (if i < length buf then Some (buf[i := v]) else None)"

text \<open>\<open>&data[a..b]\<close>: panics unless \<open>a <= b <= data.len()\<close>.\<close>

definition slice :: "'a list \<Rightarrow> nat \<Rightarrow> nat \<Rightarrow> 'a list option" where
  "slice data a b = (if a \<le> b \<and> b \<le> length data then Some (take (b - a) (drop a data)) else None)"

text \<open>
  \<open>buf[a..b].copy_from_slice(src)\<close>: panics when the range is not inside the buffer or when
  the two lengths differ.
\<close>

definition copy_from_slice :: "'a list \<Rightarrow> nat \<Rightarrow> nat \<Rightarrow> 'a list \<Rightarrow> 'a list option" where
  "copy_from_slice buf a b src =
     (if a \<le> b \<and> b \<le> length buf \<and> length src = b - a
      then Some (take a buf @ src @ drop b buf) else None)"

lemma copy_from_slice_length [simp]:
  "copy_from_slice buf a b src = Some buf' \<Longrightarrow> length buf' = length buf"
  by (auto simp: copy_from_slice_def split: if_splits)

text \<open>The access pattern of both encoders: fill the next field of a zeroed buffer.\<close>

lemma copy_next_field:
  assumes "length src = w" and "w \<le> n" and "a = length pre" and "b = a + w"
  shows "copy_from_slice (pre @ replicate n z) a b src = Some (pre @ src @ replicate (n - w) z)"
  unfolding copy_from_slice_def assms(3,4) using assms(1,2) by simp

lemma set_first_field: "0 < n \<Longrightarrow> index_set (replicate n z) 0 v = Some ([v] @ replicate (n - 1) z)"
  by (cases n) (simp_all add: index_set_def)

text \<open>The access pattern of both decoders: take a field that has a known prefix.\<close>

lemma slice_field:
  assumes "length pre = a" and "length f = w" and "b = a + w"
  shows "slice (pre @ f @ rest) a b = Some f"
  unfolding slice_def assms(3) using assms(1,2) by auto

lemma index_field: "length pre = i \<Longrightarrow> index (pre @ x # rest) i = Some x"
  by (auto simp: index_def nth_append)

lemma index_in_range: "i < length data \<Longrightarrow> index data i = Some (data ! i)"
  by (simp add: index_def)

lemma slice_in_range:
  "a \<le> b \<Longrightarrow> b \<le> length data \<Longrightarrow> slice data a b = Some (take (b - a) (drop a data))"
  by (simp add: slice_def)

subsection \<open>Lists and maps\<close>

lemma takeWhile_replicate_suffix:
  "\<forall>x\<in>set xs. P x \<Longrightarrow> \<not> P z \<Longrightarrow> takeWhile P (xs @ replicate n z) = xs"
  by (cases n) (simp_all add: takeWhile_append)

lemma set_takeWhile_sub: "set (takeWhile P xs) \<subseteq> set xs"
  by (auto dest: set_takeWhileD)

lemma option_bind_Some_iff: "(Option.bind x f = Some y) \<longleftrightarrow> (\<exists>z. x = Some z \<and> f z = Some y)"
  by (cases x) auto

lemma fst_image_iff: "k \<in> fst ` S \<longleftrightarrow> (\<exists>v. (k, v) \<in> S)"
  by force

lemma distinct_keys_card: "distinct (map fst xs) \<Longrightarrow> fst ` set xs = A \<Longrightarrow> length xs = card A"
  using distinct_card [of "map fst xs"] by simp

lemma dom_map_of_filter_distinct:
  "distinct (map fst es) \<Longrightarrow>
   map_of (filter P es) k = (case map_of es k of Some v \<Rightarrow> if P (k, v) then Some v else None | None \<Rightarrow> None)"
proof (induction es)
  case (Cons e es)
  then show ?case
    by (cases e) (auto split: option.splits simp: map_of_eq_None_iff dest!: map_of_SomeD intro!: map_of_eq_None_iff [THEN iffD2] rev_image_eqI)
qed simp

subsection \<open>Durations\<close>

text \<open>\<open>Duration::from_secs\<close> and \<open>Duration::as_secs\<close>.\<close>

definition nanos_per_sec :: nat where
  "nanos_per_sec = 1000000000"

definition from_secs :: "u64 \<Rightarrow> duration" where
  "from_secs s = unat s * nanos_per_sec"

definition as_secs :: "duration \<Rightarrow> u64" where
  "as_secs d = word_of_nat (d div nanos_per_sec)"

lemma as_secs_from_secs [simp]: "as_secs (from_secs s) = s"
  by (simp add: as_secs_def from_secs_def nanos_per_sec_def)

text \<open>\<open>Instant::duration_since\<close> and \<open>Instant::elapsed\<close> saturate at zero.\<close>

definition duration_since :: "instant \<Rightarrow> instant \<Rightarrow> duration" where
  "duration_since now earlier = now - earlier"

end
