(* ===== verification/Rust_Std.thy ===== *)
theory Rust_Std
  imports Prelude
begin

text \<open>
  The parts of the Rust standard library that the protocol code calls:
  \<open>String::from_utf8\<close>, big-endian \<open>u16\<close> conversion, IPv4 and socket addresses.
  The main lemmas: \<open>from_utf8\<close> accepts every ASCII byte string, and the big-endian conversion is a bijection.
\<close>

unbundle bit_operations_syntax

subsection \<open>UTF-8 validation\<close>

text \<open>
  \<open>String::from_utf8\<close> accepts exactly the well-formed byte sequences of the Unicode
  standard: one to four bytes per character, no overlong forms, no surrogates, nothing
  above \<open>U+10FFFF\<close>.
\<close>

definition utf8_cont :: "byte \<Rightarrow> bool" where
  "utf8_cont b \<longleftrightarrow> 0x80 \<le> b \<and> b \<le> 0xBF"

definition utf8_second3 :: "byte \<Rightarrow> byte \<Rightarrow> bool" where
  "utf8_second3 b0 b1 \<longleftrightarrow>
     (if b0 = 0xE0 then 0xA0 \<le> b1 \<and> b1 \<le> 0xBF
      else if b0 = 0xED then 0x80 \<le> b1 \<and> b1 \<le> 0x9F
      else utf8_cont b1)"

definition utf8_second4 :: "byte \<Rightarrow> byte \<Rightarrow> bool" where
  "utf8_second4 b0 b1 \<longleftrightarrow>
     (if b0 = 0xF0 then 0x90 \<le> b1 \<and> b1 \<le> 0xBF
      else if b0 = 0xF4 then 0x80 \<le> b1 \<and> b1 \<le> 0x8F
      else utf8_cont b1)"

fun utf8_valid :: "byte list \<Rightarrow> bool" where
  "utf8_valid [] \<longleftrightarrow> True"
| "utf8_valid (b0 # rest) \<longleftrightarrow>
     (if b0 < 0x80 then utf8_valid rest
      else if 0xC2 \<le> b0 \<and> b0 \<le> 0xDF then
        (case rest of b1 # r \<Rightarrow> utf8_cont b1 \<and> utf8_valid r | _ \<Rightarrow> False)
      else if 0xE0 \<le> b0 \<and> b0 \<le> 0xEF then
        (case rest of b1 # b2 # r \<Rightarrow> utf8_second3 b0 b1 \<and> utf8_cont b2 \<and> utf8_valid r
         | _ \<Rightarrow> False)
      else if 0xF0 \<le> b0 \<and> b0 \<le> 0xF4 then
        (case rest of b1 # b2 # b3 # r \<Rightarrow>
           utf8_second4 b0 b1 \<and> utf8_cont b2 \<and> utf8_cont b3 \<and> utf8_valid r
         | _ \<Rightarrow> False)
      else False)"

definition from_utf8 :: "byte list \<Rightarrow> rust_string option" where
  "from_utf8 bs = (if utf8_valid bs then Some bs else None)"

definition is_ascii :: "byte list \<Rightarrow> bool" where
  "is_ascii bs \<longleftrightarrow> (\<forall>b\<in>set bs. b < 0x80)"

lemma utf8_valid_ascii: "is_ascii bs \<Longrightarrow> utf8_valid bs"
  unfolding is_ascii_def by (induction bs) auto

lemma from_utf8_ascii: "is_ascii bs \<Longrightarrow> from_utf8 bs = Some bs"
  by (simp add: from_utf8_def utf8_valid_ascii)

lemma from_utf8_Some_iff: "from_utf8 bs = Some s \<longleftrightarrow> utf8_valid bs \<and> s = bs"
  by (auto simp: from_utf8_def)

subsection \<open>Big-endian conversion of \<open>u16\<close>\<close>

definition to_be_bytes :: "u16 \<Rightarrow> byte list" where
  "to_be_bytes p = [ucast (drop_bit 8 p), ucast p]"

definition from_be_bytes :: "byte \<Rightarrow> byte \<Rightarrow> u16" where
  "from_be_bytes hi lo = push_bit 8 (ucast hi) OR ucast lo"

lemma length_to_be_bytes [simp]: "length (to_be_bytes p) = 2"
  by (simp add: to_be_bytes_def)

lemma from_to_be_bytes [simp]: "from_be_bytes (ucast (drop_bit 8 p)) (ucast p) = p"
  unfolding from_be_bytes_def
  by (rule bit_word_eqI) (auto simp: bit_simps)

lemma be_bytes_hi [simp]: "ucast (drop_bit 8 (from_be_bytes hi lo)) = hi"
  unfolding from_be_bytes_def
  by (rule bit_word_eqI) (auto simp: bit_simps dest: bit_imp_le_length)

lemma be_bytes_lo [simp]: "ucast (from_be_bytes hi lo) = lo"
  unfolding from_be_bytes_def
  by (rule bit_word_eqI) (auto simp: bit_simps)

lemma to_from_be_bytes [simp]: "to_be_bytes (from_be_bytes hi lo) = [hi, lo]"
  by (simp add: to_be_bytes_def)

lemma from_be_bytes_0 [simp]: "from_be_bytes 0 0 = 0"
  by (simp add: from_be_bytes_def)

subsection \<open>Network addresses\<close>

text \<open>\<open>Ipv4Addr\<close> holds four octets; \<open>IpAddr::V6\<close> holds a 128-bit address.\<close>

datatype ipv4_addr = Ipv4Addr byte byte byte byte

fun octets :: "ipv4_addr \<Rightarrow> byte list" where
  "octets (Ipv4Addr a b c d) = [a, b, c, d]"

definition UNSPECIFIED :: ipv4_addr where
  "UNSPECIFIED = Ipv4Addr 0 0 0 0"

definition is_unspecified :: "ipv4_addr \<Rightarrow> bool" where
  "is_unspecified a \<longleftrightarrow> a = UNSPECIFIED"

lemma length_octets [simp]: "length (octets a) = 4"
  by (cases a) simp

lemma octets_inject: "octets a = octets b \<longleftrightarrow> a = b"
  by (cases a; cases b) simp

datatype ip_addr = V4 ipv4_addr | V6 "128 word"

record socket_addr =
  sa_ip :: ip_addr
  sa_port :: u16

end
