(* ===== verification/Externals.thy ===== *)
theory Externals
  imports Rust_Std "HOL-Library.DAList"
begin

text \<open>
  Interfaces of the third-party crates the server is built on. Each crate is a record of
  operations, an argument of every definition that calls it; a locale states the documented
  behaviour the server relies on; an interpretation on an executable instance shows that
  the documented behaviour can be met.

  \<^item> \<open>uuid\<close>: printing and parsing of the 128-bit identifiers;
  \<^item> \<open>dashmap\<close>: the concurrent hash map, each method one atomic operation;
  \<^item> \<open>tokio::sync::oneshot\<close>: a channel on which one value is sent, or which is closed
    when its sender is dropped.
\<close>

subsection \<open>The \<open>uuid\<close> crate\<close>

text \<open>A \<open>Uuid\<close> is a 128-bit value and \<open>Uuid::nil()\<close> is all zeros.\<close>

type_synonym uuid = "128 word"

record uuid_ops =
  uuid_to_string :: "uuid \<Rightarrow> rust_string"
  uuid_parse_str :: "rust_string \<Rightarrow> uuid option"

locale uuid_codec =
  fixes U :: uuid_ops
  assumes to_string_length: "length (uuid_to_string U u) = 36"
    and to_string_ascii: "is_ascii (uuid_to_string U u)"
    and to_string_no_nul: "0 \<notin> set (uuid_to_string U u)"
    and parse_to_string: "uuid_parse_str U (uuid_to_string U u) = Some u"
begin

lemma to_string_inject: "uuid_to_string U u = uuid_to_string U v \<longleftrightarrow> u = v"
  using parse_to_string by (metis option.inject)

lemma to_string_nonempty: "uuid_to_string U u \<noteq> []"
  using to_string_length [of u] by auto

end

text \<open>The hyphenated lower-case form \<open>8-4-4-4-12\<close> is an executable instance.\<close>

definition hex_digit :: "nat \<Rightarrow> byte" where
  "hex_digit d = (if d < 10 then word_of_nat (48 + d) else word_of_nat (87 + d))"

definition hex_value :: "byte \<Rightarrow> nat option" where
  "hex_value b =
     (let n = unat b in
      if 48 \<le> n \<and> n \<le> 57 then Some (n - 48)
      else if 97 \<le> n \<and> n \<le> 102 then Some (n - 87)
      else if 65 \<le> n \<and> n \<le> 70 then Some (n - 55) else None)"

fun hex_digits :: "nat \<Rightarrow> nat \<Rightarrow> byte list" where
  "hex_digits 0 n = []"
| "hex_digits (Suc k) n = hex_digits k (n div 16) @ [hex_digit (n mod 16)]"

fun hex_number :: "nat \<Rightarrow> byte list \<Rightarrow> nat option" where
  "hex_number acc [] = Some acc"
| "hex_number acc (b # bs) =
     (case hex_value b of None \<Rightarrow> None | Some d \<Rightarrow> hex_number (16 * acc + d) bs)"

definition hyphenated :: "uuid \<Rightarrow> rust_string" where
  "hyphenated u =
     (let ds = hex_digits 32 (unat u) in
      take 8 ds @ [45] @ take 4 (drop 8 ds) @ [45] @ take 4 (drop 12 ds) @ [45]
      @ take 4 (drop 16 ds) @ [45] @ drop 20 ds)"

definition parse_hyphenated :: "rust_string \<Rightarrow> uuid option" where
  "parse_hyphenated s =
     (if length s = 36 \<and> s ! 8 = 45 \<and> s ! 13 = 45 \<and> s ! 18 = 45 \<and> s ! 23 = 45
      then map_option word_of_nat
             (hex_number 0 (take 8 s @ take 4 (drop 9 s) @ take 4 (drop 14 s)
                            @ take 4 (drop 19 s) @ drop 24 s))
      else None)"

definition hyphenated_ops :: uuid_ops where
  "hyphenated_ops = \<lparr>uuid_to_string = hyphenated, uuid_parse_str = parse_hyphenated\<rparr>"

lemma unat_hex_digit: "d < 16 \<Longrightarrow> unat (hex_digit d) = (if d < 10 then 48 + d else 87 + d)"
  by (auto simp: hex_digit_def unat_of_nat simp del: of_nat_add)

lemma hex_value_digit: "d < 16 \<Longrightarrow> hex_value (hex_digit d) = Some d"
  by (auto simp: hex_value_def unat_hex_digit Let_def)

lemma hex_digit_printable: "d < 16 \<Longrightarrow> hex_digit d < 0x80 \<and> hex_digit d \<noteq> 0"
  using unat_hex_digit [of d] by (auto simp: word_less_nat_alt unat_eq_0 [symmetric] split: if_splits)

lemma length_hex_digits [simp]: "length (hex_digits k n) = k"
  by (induction k n rule: hex_digits.induct) auto

lemma set_hex_digits: "b \<in> set (hex_digits k n) \<Longrightarrow> b < 0x80 \<and> b \<noteq> 0"
  by (induction k n rule: hex_digits.induct) (auto simp: hex_digit_printable)

lemma hex_number_append:
  "hex_number acc (xs @ ys) = Option.bind (hex_number acc xs) (\<lambda>a. hex_number a ys)"
  by (induction acc xs rule: hex_number.induct) (auto split: option.splits)

lemma hex_number_digits: "n < 16 ^ k \<Longrightarrow> hex_number acc (hex_digits k n) = Some (16 ^ k * acc + n)"
proof (induction k n arbitrary: acc rule: hex_digits.induct)
  case (2 k n)
  from "2.prems" have "n div 16 < 16 ^ k"
    by (simp add: less_mult_imp_div_less)
  from "2.IH" [OF this] show ?case
    by (simp add: hex_number_append hex_value_digit)
qed simp

lemma split_32:
  assumes "length ds = 32"
  shows "take 8 ds @ take 4 (drop 8 ds) @ take 4 (drop 12 ds) @ take 4 (drop 16 ds) @ drop 20 ds = ds"
proof -
  have "ds = take 8 ds @ drop 8 ds" by simp
  also have "drop 8 ds = take 4 (drop 8 ds) @ drop 12 ds"
    using append_take_drop_id [of 4 "drop 8 ds"] by simp
  also have "drop 12 ds = take 4 (drop 12 ds) @ drop 16 ds"
    using append_take_drop_id [of 4 "drop 12 ds"] by simp
  also have "drop 16 ds = take 4 (drop 16 ds) @ drop 20 ds"
    using append_take_drop_id [of 4 "drop 16 ds"] by simp
  finally show ?thesis by simp
qed

lemma parse_hyphens:
  assumes "length a = 8" "length b = 4" "length c = 4" "length d = 4" "length e = 12"
  shows "parse_hyphenated (a @ [45] @ b @ [45] @ c @ [45] @ d @ [45] @ e) =
    map_option word_of_nat (hex_number 0 (a @ b @ c @ d @ e))"
  using assms by (simp add: parse_hyphenated_def nth_append)

lemma hyphenated_roundtrip: "parse_hyphenated (hyphenated u) = Some u"
proof -
  have "unat u < 16 ^ 32"
    using unsigned_less [of u] by simp
  then show ?thesis
    unfolding hyphenated_def Let_def
    by (subst parse_hyphens) (simp_all add: split_32 hex_number_digits)
qed

lemma hyphenated_chars: "b \<in> set (hyphenated u) \<Longrightarrow> b < 0x80 \<and> b \<noteq> 0"
  unfolding hyphenated_def Let_def
  by (auto dest!: in_set_takeD in_set_dropD set_hex_digits)

interpretation hyphenated: uuid_codec hyphenated_ops
proof unfold_locales
  fix u
  show "length (uuid_to_string hyphenated_ops u) = 36"
    by (simp add: hyphenated_ops_def hyphenated_def Let_def)
  show "is_ascii (uuid_to_string hyphenated_ops u)"
    using hyphenated_chars by (auto simp: is_ascii_def hyphenated_ops_def)
  show "0 \<notin> set (uuid_to_string hyphenated_ops u)"
    using hyphenated_chars [of 0 u] by (auto simp: hyphenated_ops_def)
  show "uuid_parse_str hyphenated_ops (uuid_to_string hyphenated_ops u) = Some u"
    by (simp add: hyphenated_ops_def hyphenated_roundtrip)
qed

subsection \<open>The \<open>dashmap\<close> crate\<close>

text \<open>
  \<open>get\<close> returns the entry, \<open>get_mut\<close> gives a reference through which the entry is changed
  (\<open>dm_alter\<close>), \<open>remove\<close> returns the removed pair, \<open>iter\<close> lists the entries in some order,
  and \<open>retain\<close> visits every entry once and keeps those for which the closure returns true.
  The closure is an \<open>FnMut\<close>, so it also threads a state of its own.
\<close>

record ('m, 'k, 'v, 's) dashmap_ops =
  dm_new :: 'm
  dm_get :: "'k \<Rightarrow> 'm \<Rightarrow> 'v option"
  dm_insert :: "'k \<Rightarrow> 'v \<Rightarrow> 'm \<Rightarrow> 'm"
  dm_alter :: "'k \<Rightarrow> ('v \<Rightarrow> 'v) \<Rightarrow> 'm \<Rightarrow> 'm"
  dm_remove :: "'k \<Rightarrow> 'm \<Rightarrow> ('k \<times> 'v) option \<times> 'm"
  dm_iter :: "'m \<Rightarrow> ('k \<times> 'v) list"
  dm_len :: "'m \<Rightarrow> nat"
  dm_retain :: "('k \<Rightarrow> 'v \<Rightarrow> 's \<Rightarrow> bool \<times> 's) \<Rightarrow> 'm \<Rightarrow> 's \<Rightarrow> 'm \<times> 's"

text \<open>What \<open>retain\<close> does to the entries, visited in the order of the list.\<close>

fun retain_entries ::
    "('k \<Rightarrow> 'v \<Rightarrow> 's \<Rightarrow> bool \<times> 's) \<Rightarrow> ('k \<times> 'v) list \<Rightarrow> 's \<Rightarrow> ('k \<times> 'v) list \<times> 's" where
  "retain_entries f [] s = ([], s)"
| "retain_entries f ((k, v) # es) s =
     (let (keep, s') = f k v s; (es', s'') = retain_entries f es s'
      in (if keep then (k, v) # es' else es', s''))"

locale dashmap =
  fixes D :: "('m, 'k, 'v, 's) dashmap_ops"
  assumes get_new [lookup_laws]: "dm_get D k (dm_new D) = None"
    and get_insert [lookup_laws]:
      "dm_get D k' (dm_insert D k v m) = (if k' = k then Some v else dm_get D k' m)"
    and get_alter [lookup_laws]:
      "dm_get D k' (dm_alter D k g m) = (if k' = k then map_option g (dm_get D k m) else dm_get D k' m)"
    and fst_remove [lookup_laws]:
      "fst (dm_remove D k m) = map_option (Pair k) (dm_get D k m)"
    and get_remove [lookup_laws]:
      "dm_get D k' (snd (dm_remove D k m)) = (if k' = k then None else dm_get D k' m)"
    and iter_entries: "map_of (dm_iter D m) k = dm_get D k m"
    and iter_distinct: "distinct (map fst (dm_iter D m))"
    and len_iter: "dm_len D m = length (dm_iter D m)"
    and get_retain: "dm_get D k (fst (dm_retain D f m s)) = map_of (fst (retain_entries f (dm_iter D m) s)) k"
    and snd_retain: "snd (dm_retain D f m s) = snd (retain_entries f (dm_iter D m) s)"
begin

lemma iter_iff: "(k, v) \<in> set (dm_iter D m) \<longleftrightarrow> dm_get D k m = Some v"
  using iter_entries iter_distinct by (metis map_of_eq_Some_iff)

lemma iter_all:
  "list_all (\<lambda>(k, v). P k v) (dm_iter D m) \<longleftrightarrow> (\<forall>k v. dm_get D k m = Some v \<longrightarrow> P k v)"
  by (simp add: list_all_iff Ball_def iter_iff)

lemma keys_iter: "fst ` set (dm_iter D m) = {k. dm_get D k m \<noteq> None}"
  using iter_iff by (force simp: image_iff)

lemma finite_keys: "finite {k. dm_get D k m \<noteq> None}"
  using keys_iter [of m] by (metis finite_imageI finite_set)

lemma len_card: "dm_len D m = card {k. dm_get D k m \<noteq> None}"
  using len_iter [of m] distinct_card [OF iter_distinct, of m] keys_iter [of m] by simp

lemma remove_eq:
  "dm_remove D k m = (map_option (Pair k) (dm_get D k m), snd (dm_remove D k m))"
  by (metis fst_remove prod.collapse)

lemma len_insert:
  "dm_get D k m = None \<Longrightarrow> dm_len D (dm_insert D k v m) = Suc (dm_len D m)"
proof -
  assume "dm_get D k m = None"
  then have "{k'. dm_get D k' (dm_insert D k v m) \<noteq> None} = insert k {k'. dm_get D k' m \<noteq> None}"
    and "k \<notin> {k'. dm_get D k' m \<noteq> None}"
    by (auto simp: get_insert)
  then show ?thesis
    unfolding len_card by (metis card_insert_disjoint finite_keys)
qed

lemma len_remove:
  "dm_get D k m = Some v \<Longrightarrow> Suc (dm_len D (snd (dm_remove D k m))) = dm_len D m"
proof -
  assume v: "dm_get D k m = Some v"
  have "{k'. dm_get D k' (snd (dm_remove D k m)) \<noteq> None} = {k'. dm_get D k' m \<noteq> None} - {k}"
    by (auto simp: get_remove)
  moreover have "k \<in> {k'. dm_get D k' m \<noteq> None}"
    using v by simp
  ultimately show ?thesis
    using card_Suc_Diff1 [OF finite_keys] by (metis len_card)
qed

end

text \<open>
  A closure whose verdict does not depend on its state keeps exactly the entries that satisfy
  the verdict, and its state is folded over all entries.
\<close>

lemma retain_entries_pure:
  assumes "\<And>k v s. f k v s = (P k v, g k v s)"
  shows "retain_entries f es s = (filter (\<lambda>(k, v). P k v) es, fold (\<lambda>(k, v). g k v) es s)"
  by (induction es arbitrary: s) (auto simp: assms)

lemma retain_entries_subset: "set (fst (retain_entries f es s)) \<subseteq> set es"
proof (induction es arbitrary: s)
  case (Cons e es)
  obtain k v where e: "e = (k, v)" by (cases e)
  have "set (fst (retain_entries f es (snd (f k v s)))) \<subseteq> set es"
    by (rule Cons.IH)
  then show ?case
    by (auto simp: e split: prod.splits)
qed simp

lemma retain_entries_distinct:
  "distinct (map fst es) \<Longrightarrow> distinct (map fst (fst (retain_entries f es s)))"
proof (induction es arbitrary: s)
  case (Cons e es)
  obtain k v where e: "e = (k, v)" by (cases e)
  have "distinct (map fst (fst (retain_entries f es (snd (f k v s)))))"
    using Cons by simp
  moreover have "k \<notin> fst ` set (fst (retain_entries f es (snd (f k v s))))"
    using Cons.prems retain_entries_subset [of f es "snd (f k v s)"] by (auto simp: e)
  ultimately show ?case
    by (auto simp: e split: prod.splits)
qed simp

text \<open>Association lists with distinct keys are an executable instance.\<close>

lift_definition alist_retain ::
    "('k \<Rightarrow> 'v \<Rightarrow> 's \<Rightarrow> bool \<times> 's) \<Rightarrow> ('k, 'v) alist \<Rightarrow> 's \<Rightarrow> ('k, 'v) alist"
  is "\<lambda>f es s. fst (retain_entries f es s)"
  by (simp add: retain_entries_distinct)

definition alist_ops :: "(('k, 'v) alist, 'k, 'v, 's) dashmap_ops" where
  "alist_ops =
     \<lparr>dm_new = DAList.empty,
      dm_get = (\<lambda>k m. DAList.lookup m k),
      dm_insert = DAList.update,
      dm_alter = (\<lambda>k f m. case DAList.lookup m k of None \<Rightarrow> m | Some v \<Rightarrow> DAList.update k (f v) m),
      dm_remove = (\<lambda>k m. (map_option (Pair k) (DAList.lookup m k), DAList.delete k m)),
      dm_iter = DAList.impl_of,
      dm_len = (\<lambda>m. length (DAList.impl_of m)),
      dm_retain = (\<lambda>f m s. (alist_retain f m s, snd (retain_entries f (DAList.impl_of m) s)))\<rparr>"

interpretation alist: dashmap alist_ops
  by unfold_locales
    (auto simp: alist_ops_def DAList.lookup_def alist_retain.rep_eq update.rep_eq delete.rep_eq empty.rep_eq
       update_conv' delete_conv' split: option.splits)

subsection \<open>The \<open>tokio::sync::oneshot\<close> channel\<close>

text \<open>
  A channel is named by a number; what the registry does to the sending half is an event.
  The receiver observes the first event of its channel: a value, or the closing of the
  channel when the sender was dropped unused; without an event it keeps waiting.
\<close>

type_synonym chan = nat

datatype 'd chan_event = ChanSend chan 'd | ChanDrop chan

datatype 'd recv_outcome = RecvPending | RecvOk 'd | RecvClosed

fun event_chan :: "'d chan_event \<Rightarrow> chan" where
  "event_chan (ChanSend c _) = c"
| "event_chan (ChanDrop c) = c"

locale oneshot =
  fixes recv :: "'d chan_event list \<Rightarrow> chan \<Rightarrow> 'd recv_outcome"
  assumes recv_pending: "\<forall>e\<in>set log. event_chan e \<noteq> c \<Longrightarrow> recv log c = RecvPending"
    and recv_send: "\<forall>e\<in>set pre. event_chan e \<noteq> c \<Longrightarrow> recv (pre @ ChanSend c d # post) c = RecvOk d"
    and recv_drop: "\<forall>e\<in>set pre. event_chan e \<noteq> c \<Longrightarrow> recv (pre @ ChanDrop c # post) c = RecvClosed"
begin

lemma recv_cases: "recv log c = RecvPending \<and> c \<notin> event_chan ` set log
    \<or> (\<exists>d. recv log c = RecvOk d \<and> ChanSend c d \<in> set log)
    \<or> recv log c = RecvClosed \<and> ChanDrop c \<in> set log"
proof (cases "\<exists>e\<in>set log. event_chan e = c")
  case True
  then obtain pre e post where log: "log = pre @ e # post" and e: "event_chan e = c"
    and pre: "\<forall>e\<in>set pre. event_chan e \<noteq> c"
    using split_list_first_prop [of log "\<lambda>e. event_chan e = c"] by blast
  then show ?thesis
    using recv_send [OF pre] recv_drop [OF pre] by (cases e) auto
next
  case False
  then show ?thesis using recv_pending by blast
qed

lemma recv_ok_sent: "recv log c = RecvOk d \<Longrightarrow> ChanSend c d \<in> set log"
  using recv_cases [of log c] by auto

end

fun first_event :: "'d chan_event list \<Rightarrow> chan \<Rightarrow> 'd recv_outcome" where
  "first_event [] c = RecvPending"
| "first_event (ChanSend c' d # es) c = (if c' = c then RecvOk d else first_event es c)"
| "first_event (ChanDrop c' # es) c = (if c' = c then RecvClosed else first_event es c)"

lemma first_event_skip:
  "\<forall>e\<in>set pre. event_chan e \<noteq> c \<Longrightarrow> first_event (pre @ es) c = first_event es c"
  by (induction pre c rule: first_event.induct) auto

interpretation first_event: oneshot first_event
  by unfold_locales (use first_event_skip [where es = "[]"] in \<open>auto simp: first_event_skip\<close>)

end
