(* ===== verification/Protocol.thy ===== *)
theory Protocol
  imports Externals
begin

text \<open>
  The wire protocol (\<open>server/rust/src/protocol.rs\<close>): status codes, peer addresses, the
  client request and the server response with their encoders and decoders. Encoders and
  decoders return \<^typ>\<open>'a option\<close>, \<^term>\<open>None\<close> being a panic of a slice operation; a decoder's
  \<open>Result\<close> is a sum. The lemmas give the byte layout of both messages, show that no
  operation panics, and that decoding inverts encoding exactly where the format allows it.
\<close>

subsection \<open>Constants\<close>

definition MAX_PAIRING_NAME :: nat where
  "MAX_PAIRING_NAME = 100"

definition TOKEN_LENGTH :: nat where
  "TOKEN_LENGTH = 37"

definition CLIENT_REQUEST_SIZE :: nat where
  "CLIENT_REQUEST_SIZE = MAX_PAIRING_NAME + TOKEN_LENGTH + 4"

definition SERVER_RESPONSE_SIZE :: nat where
  "SERVER_RESPONSE_SIZE = 1 + 4 + 2 + 4 + 2 + TOKEN_LENGTH"

lemmas sizes = MAX_PAIRING_NAME_def TOKEN_LENGTH_def CLIENT_REQUEST_SIZE_def SERVER_RESPONSE_SIZE_def

subsection \<open>Data\<close>

datatype pairing_status = Waiting | Paired | Timeout | Error

definition status_from_u8 :: "byte \<Rightarrow> pairing_status" where
  "status_from_u8 v =
     (if v = 0 then Waiting else if v = 1 then Paired else if v = 2 then Timeout else Error)"

fun status_as_u8 :: "pairing_status \<Rightarrow> byte" where
  "status_as_u8 Waiting = 0"
| "status_as_u8 Paired = 1"
| "status_as_u8 Timeout = 2"
| "status_as_u8 Error = 3"

lemma status_roundtrip [simp]: "status_from_u8 (status_as_u8 s) = s"
  by (cases s) (simp_all add: status_from_u8_def)

record peer_connection_data =
  ip :: ipv4_addr
  port :: u16

definition peer_new :: "ipv4_addr \<Rightarrow> u16 \<Rightarrow> peer_connection_data" where
  "peer_new i p = \<lparr>ip = i, port = p\<rparr>"

definition from_socket_addr :: "socket_addr \<Rightarrow> peer_connection_data option" where
  "from_socket_addr addr =
     (case sa_ip addr of
        V4 i \<Rightarrow> Some \<lparr>ip = i, port = sa_port addr\<rparr>
      | V6 _ \<Rightarrow> None)"

definition to_socket_addr :: "peer_connection_data \<Rightarrow> socket_addr" where
  "to_socket_addr d = \<lparr>sa_ip = V4 (ip d), sa_port = port d\<rparr>"

record client_request =
  pairing_name :: rust_string
  request_token :: "uuid option"

record server_response =
  status :: pairing_status
  your_info :: peer_connection_data
  peer_info :: "peer_connection_data option"
  response_token :: uuid

datatype protocol_error =
    InvalidLength (expected: nat) (got: nat)
  | EmptyPairingName
  | InvalidToken
  | InvalidUtf8
  | Io

subsection \<open>Null-terminated strings\<close>

fun position :: "('a \<Rightarrow> bool) \<Rightarrow> 'a list \<Rightarrow> nat option" where
  "position P [] = None"
| "position P (x # xs) = (if P x then Some 0 else map_option Suc (position P xs))"

definition unwrap_or :: "'a option \<Rightarrow> 'a \<Rightarrow> 'a" where
  "unwrap_or x d = (case x of Some v \<Rightarrow> v | None \<Rightarrow> d)"

definition parse_null_terminated_string :: "byte list \<Rightarrow> protocol_error + rust_string" where
  "parse_null_terminated_string data =
     (let end = unwrap_or (position (\<lambda>b. b = 0) data) (length data)
      in case from_utf8 (take end data) of
           Some s \<Rightarrow> Inr s
         | None \<Rightarrow> Inl InvalidUtf8)"

subsection \<open>Client request\<close>

definition client_request_from_bytes ::
    "uuid_ops \<Rightarrow> byte list \<Rightarrow> (protocol_error + client_request) option" where
  "client_request_from_bytes U data =
     (if length data < CLIENT_REQUEST_SIZE
      then Some (Inl (InvalidLength CLIENT_REQUEST_SIZE (length data)))
      else do {
        name_field \<leftarrow> slice data 0 MAX_PAIRING_NAME;
        case parse_null_terminated_string name_field of
          Inl e \<Rightarrow> Some (Inl e)
        | Inr name \<Rightarrow>
            if name = [] then Some (Inl EmptyPairingName)
            else do {
              token_field \<leftarrow> slice data MAX_PAIRING_NAME (MAX_PAIRING_NAME + TOKEN_LENGTH);
              case parse_null_terminated_string token_field of
                Inl e \<Rightarrow> Some (Inl e)
              | Inr token_str \<Rightarrow>
                  if token_str = []
                  then Some (Inr \<lparr>pairing_name = name, request_token = None\<rparr>)
                  else (case uuid_parse_str U token_str of
                          None \<Rightarrow> Some (Inl InvalidToken)
                        | Some t \<Rightarrow> Some (Inr \<lparr>pairing_name = name, request_token = Some t\<rparr>))
            }
      })"

definition client_request_to_bytes :: "uuid_ops \<Rightarrow> client_request \<Rightarrow> byte list option" where
  "client_request_to_bytes U req = do {
     let buf = replicate CLIENT_REQUEST_SIZE 0;
     let name_bytes = pairing_name req;
     let name_len = min (length name_bytes) (MAX_PAIRING_NAME - 1);
     name_src \<leftarrow> slice name_bytes 0 name_len;
     buf \<leftarrow> copy_from_slice buf 0 name_len name_src;
     case request_token req of
       None \<Rightarrow> Some buf
     | Some token \<Rightarrow>
         let token_bytes = uuid_to_string U token in
         copy_from_slice buf MAX_PAIRING_NAME (MAX_PAIRING_NAME + length token_bytes) token_bytes
   }"

subsection \<open>Server response\<close>

definition response_waiting :: "peer_connection_data \<Rightarrow> uuid \<Rightarrow> server_response" where
  "response_waiting you token =
     \<lparr>status = Waiting, your_info = you, peer_info = None, response_token = token\<rparr>"

definition response_paired ::
    "peer_connection_data \<Rightarrow> peer_connection_data \<Rightarrow> uuid \<Rightarrow> server_response" where
  "response_paired you peer token =
     \<lparr>status = Paired, your_info = you, peer_info = Some peer, response_token = token\<rparr>"

definition response_timeout :: "peer_connection_data \<Rightarrow> uuid \<Rightarrow> server_response" where
  "response_timeout you token =
     \<lparr>status = Timeout, your_info = you, peer_info = None, response_token = token\<rparr>"

definition response_error :: server_response where
  "response_error =
     \<lparr>status = Error, your_info = peer_new UNSPECIFIED 0, peer_info = None, response_token = 0\<rparr>"

lemmas response_defs =
  response_waiting_def response_paired_def response_timeout_def response_error_def peer_new_def

definition server_response_to_bytes :: "uuid_ops \<Rightarrow> server_response \<Rightarrow> byte list option" where
  "server_response_to_bytes U r = do {
     let buf = replicate SERVER_RESPONSE_SIZE 0;
     let offset = 0;
     buf \<leftarrow> index_set buf offset (status_as_u8 (status r));
     let offset = offset + 1;
     buf \<leftarrow> copy_from_slice buf offset (offset + 4) (octets (ip (your_info r)));
     let offset = offset + 4;
     buf \<leftarrow> copy_from_slice buf offset (offset + 2) (to_be_bytes (port (your_info r)));
     let offset = offset + 2;
     let peer_ip = unwrap_or (map_option ip (peer_info r)) UNSPECIFIED;
     buf \<leftarrow> copy_from_slice buf offset (offset + 4) (octets peer_ip);
     let offset = offset + 4;
     let peer_port = unwrap_or (map_option port (peer_info r)) 0;
     buf \<leftarrow> copy_from_slice buf offset (offset + 2) (to_be_bytes peer_port);
     let offset = offset + 2;
     let token_str = uuid_to_string U (response_token r);
     copy_from_slice buf offset (offset + length token_str) token_str
   }"

definition server_response_from_bytes ::
    "uuid_ops \<Rightarrow> byte list \<Rightarrow> (protocol_error + server_response) option" where
  "server_response_from_bytes U data =
     (if length data < SERVER_RESPONSE_SIZE
      then Some (Inl (InvalidLength SERVER_RESPONSE_SIZE (length data)))
      else do {
        let offset = 0;
        s \<leftarrow> index data offset;
        let offset = offset + 1;
        a0 \<leftarrow> index data offset; a1 \<leftarrow> index data (offset + 1);
        a2 \<leftarrow> index data (offset + 2); a3 \<leftarrow> index data (offset + 3);
        let offset = offset + 4;
        p0 \<leftarrow> index data offset; p1 \<leftarrow> index data (offset + 1);
        let offset = offset + 2;
        b0 \<leftarrow> index data offset; b1 \<leftarrow> index data (offset + 1);
        b2 \<leftarrow> index data (offset + 2); b3 \<leftarrow> index data (offset + 3);
        let offset = offset + 4;
        q0 \<leftarrow> index data offset; q1 \<leftarrow> index data (offset + 1);
        let offset = offset + 2;
        token_field \<leftarrow> slice data offset (offset + TOKEN_LENGTH);
        case parse_null_terminated_string token_field of
          Inl e \<Rightarrow> Some (Inl e)
        | Inr token_str \<Rightarrow>
            (case (if token_str = [] then Some 0 else uuid_parse_str U token_str) of
               None \<Rightarrow> Some (Inl InvalidToken)
             | Some token \<Rightarrow>
                 let peer_ip = Ipv4Addr b0 b1 b2 b3; peer_port = from_be_bytes q0 q1 in
                 Some (Inr
                   \<lparr>status = status_from_u8 s,
                    your_info = peer_new (Ipv4Addr a0 a1 a2 a3) (from_be_bytes p0 p1),
                    peer_info = (if is_unspecified peer_ip \<and> peer_port = 0 then None
                                 else Some (peer_new peer_ip peer_port)),
                    response_token = token\<rparr>))
      })"

subsection \<open>Lemmas on fields\<close>

lemma take_position:
  "take (unwrap_or (position P xs) (length xs)) xs = takeWhile (\<lambda>x. \<not> P x) xs"
  by (induction xs) (auto simp: unwrap_or_def split: option.splits)

lemma parse_null_terminated_string_eq:
  "parse_null_terminated_string data =
     (let s = takeWhile (\<lambda>b. b \<noteq> 0) data in if utf8_valid s then Inr s else Inl InvalidUtf8)"
  by (simp add: parse_null_terminated_string_def take_position from_utf8_def Let_def)

lemma parse_padded:
  assumes "0 \<notin> set s" and "utf8_valid s"
  shows "parse_null_terminated_string (s @ replicate k 0) = Inr s"
proof -
  have "takeWhile (\<lambda>b. b \<noteq> 0) (s @ replicate k 0) = s"
    using assms(1) by (intro takeWhile_replicate_suffix) auto
  then show ?thesis
    using assms(2) by (simp add: parse_null_terminated_string_eq)
qed

lemma parse_ok_iff:
  "parse_null_terminated_string data = Inr s \<longleftrightarrow>
     s = takeWhile (\<lambda>b. b \<noteq> 0) data \<and> utf8_valid s"
  by (auto simp: parse_null_terminated_string_eq Let_def)

lemma no_nul_takeWhile: "0 \<notin> set (takeWhile (\<lambda>b. b \<noteq> 0) data)"
  by (auto dest: set_takeWhileD)

text \<open>The layout of both messages, as one equation each.\<close>

definition padded :: "nat \<Rightarrow> byte list \<Rightarrow> byte list" where
  "padded n s = s @ replicate (n - length s) 0"

lemma length_padded: "length s \<le> n \<Longrightarrow> length (padded n s) = n"
  by (simp add: padded_def)

definition token_text :: "uuid_ops \<Rightarrow> uuid option \<Rightarrow> rust_string" where
  "token_text U t = (case t of None \<Rightarrow> [] | Some u \<Rightarrow> uuid_to_string U u)"

lemma take_min_length: "take (min (length xs) n) xs = take n xs"
  by (simp add: min_def)

context uuid_codec
begin

lemma token_text_length: "length (token_text U t) \<le> 36"
  by (simp add: token_text_def to_string_length split: option.splits)

lemma token_utf8: "utf8_valid (uuid_to_string U u)"
  by (simp add: utf8_valid_ascii to_string_ascii)

lemma client_request_layout:
  "client_request_to_bytes U req =
     Some (padded MAX_PAIRING_NAME (take (MAX_PAIRING_NAME - 1) (pairing_name req))
           @ padded TOKEN_LENGTH (token_text U (request_token req)) @ replicate 4 0)"
proof -
  define n where "n = take 99 (pairing_name req)"
  have n: "length n = min (length (pairing_name req)) 99" "length n \<le> 99"
    by (simp_all add: n_def)
  have src: "slice (pairing_name req) 0 (min (length (pairing_name req)) 99) = Some n"
    by (simp add: slice_def n_def take_min_length)
  have fill: "copy_from_slice (replicate 141 0) 0 (length n) n = Some (n @ replicate (141 - length n) 0)"
    using copy_next_field [of n "length n" 141 0 "[]" "length n" 0] n by simp
  have pad: "replicate (141 - length n) (0::byte) = replicate (100 - length n) 0 @ replicate 41 0"
    using n by (simp add: replicate_add [symmetric])
  show ?thesis
  proof (cases "request_token req")
    case None
    have "replicate (41::nat) (0::byte) = replicate 37 0 @ replicate 4 0"
      by (simp add: replicate_add [symmetric])
    with None src fill pad show ?thesis
      by (simp add: client_request_to_bytes_def sizes Let_def n(1) [symmetric] padded_def
          token_text_def n_def [symmetric])
  next
    case (Some u)
    have "copy_from_slice ((n @ replicate (100 - length n) 0) @ replicate 41 0) 100 136 (uuid_to_string U u)
        = Some ((n @ replicate (100 - length n) 0) @ uuid_to_string U u @ replicate 5 0)"
      using n copy_next_field [of "uuid_to_string U u" 36 41 100 "n @ replicate (100 - length n) 0" 136]
      by (simp add: to_string_length)
    moreover have "replicate (5::nat) (0::byte) = 0 # replicate 4 0"
      by (simp add: numeral_eq_Suc)
    ultimately show ?thesis
      using Some src fill pad
      by (simp add: client_request_to_bytes_def sizes Let_def n(1) [symmetric] padded_def
          token_text_def n_def [symmetric] to_string_length)
  qed
qed

lemma server_response_layout:
  "server_response_to_bytes U r =
     Some ([status_as_u8 (status r)]
           @ octets (ip (your_info r)) @ to_be_bytes (port (your_info r))
           @ octets (unwrap_or (map_option ip (peer_info r)) UNSPECIFIED)
           @ to_be_bytes (unwrap_or (map_option port (peer_info r)) 0)
           @ padded TOKEN_LENGTH (uuid_to_string U (response_token r)))"
proof -
  let ?s = "status_as_u8 (status r)" and ?A = "octets (ip (your_info r))"
  let ?P = "to_be_bytes (port (your_info r))"
  let ?B = "octets (unwrap_or (map_option ip (peer_info r)) UNSPECIFIED)"
  let ?Q = "to_be_bytes (unwrap_or (map_option port (peer_info r)) 0)"
  let ?T = "uuid_to_string U (response_token r)"
  note next_field = copy_next_field [where z = "0 :: byte"]
  have "index_set (replicate 50 0) 0 ?s = Some (?s # replicate 49 0)"
    using set_first_field [of 50] by simp
  moreover have "copy_from_slice (?s # replicate 49 0) 1 5 ?A = Some (?s # ?A @ replicate 45 0)"
    using next_field [of ?A 4 49 1 "[?s]" 5] by simp
  moreover have "copy_from_slice (?s # ?A @ replicate 45 0) 5 7 ?P = Some (?s # ?A @ ?P @ replicate 43 0)"
    using next_field [of ?P 2 45 5 "?s # ?A" 7] by simp
  moreover have "copy_from_slice (?s # ?A @ ?P @ replicate 43 0) 7 11 ?B
      = Some (?s # ?A @ ?P @ ?B @ replicate 39 0)"
    using next_field [of ?B 4 43 7 "?s # ?A @ ?P" 11] by simp
  moreover have "copy_from_slice (?s # ?A @ ?P @ ?B @ replicate 39 0) 11 13 ?Q
      = Some (?s # ?A @ ?P @ ?B @ ?Q @ replicate 37 0)"
    using next_field [of ?Q 2 39 11 "?s # ?A @ ?P @ ?B" 13] by simp
  moreover have "copy_from_slice (?s # ?A @ ?P @ ?B @ ?Q @ replicate 37 0) 13 49 ?T
      = Some (?s # ?A @ ?P @ ?B @ ?Q @ ?T @ [0])"
    using next_field [of ?T 36 37 13 "?s # ?A @ ?P @ ?B @ ?Q" 49] by (simp add: to_string_length)
  ultimately show ?thesis
    by (simp add: server_response_to_bytes_def sizes padded_def to_string_length)
qed

end

lemma peer_new_eta: "peer_new i p = d \<longleftrightarrow> i = ip d \<and> p = port d"
  by (cases d) (auto simp: peer_new_def)

lemma peer_new_sel [simp]: "ip (peer_new i p) = i" "port (peer_new i p) = p"
  by (simp_all add: peer_new_def)

lemma eq_peer_new: "d = peer_new i p \<longleftrightarrow> ip d = i \<and> port d = p"
  by (cases d) (auto simp: peer_new_def)

lemma peer_info_update:
  "r\<lparr>peer_info := x\<rparr> =
     \<lparr>status = status r, your_info = your_info r, peer_info = x, response_token = response_token r\<rparr>"
  by (cases r) simp

subsection \<open>Decoding by fields\<close>

definition decode_request_fields ::
    "uuid_ops \<Rightarrow> byte list \<Rightarrow> byte list \<Rightarrow> protocol_error + client_request" where
  "decode_request_fields U name_field token_field =
     (case parse_null_terminated_string name_field of
        Inl e \<Rightarrow> Inl e
      | Inr name \<Rightarrow>
          if name = [] then Inl EmptyPairingName
          else (case parse_null_terminated_string token_field of
                  Inl e \<Rightarrow> Inl e
                | Inr s \<Rightarrow>
                    if s = [] then Inr \<lparr>pairing_name = name, request_token = None\<rparr>
                    else (case uuid_parse_str U s of
                            None \<Rightarrow> Inl InvalidToken
                          | Some u \<Rightarrow> Inr \<lparr>pairing_name = name, request_token = Some u\<rparr>)))"

lemma client_request_from_bytes_eq:
  "client_request_from_bytes U data =
     Some (if length data < CLIENT_REQUEST_SIZE then Inl (InvalidLength CLIENT_REQUEST_SIZE (length data))
           else decode_request_fields U (take MAX_PAIRING_NAME data)
                  (take TOKEN_LENGTH (drop MAX_PAIRING_NAME data)))"
  by (auto simp: client_request_from_bytes_def decode_request_fields_def slice_def sizes Let_def
      split: sum.splits option.splits)

lemma decode_request_fields_ok:
  assumes "decode_request_fields U N T = Inr req"
  shows "pairing_name req = takeWhile (\<lambda>b. b \<noteq> 0) N" and "pairing_name req \<noteq> []"
    and "utf8_valid (pairing_name req)"
  using assms
  by (auto simp: decode_request_fields_def parse_ok_iff split: sum.splits if_splits option.splits)

lemma decode_request_fields_length: "decode_request_fields U N T \<noteq> Inl (InvalidLength e g)"
  by (simp add: decode_request_fields_def parse_null_terminated_string_eq Let_def
      split: option.splits)

lemma server_response_from_bytes_fields:
  assumes "length T = TOKEN_LENGTH"
  shows "server_response_from_bytes U
      ([s] @ octets a @ to_be_bytes p @ octets b @ to_be_bytes q @ T @ rest) =
    Some (case parse_null_terminated_string T of
            Inl e \<Rightarrow> Inl e
          | Inr ts \<Rightarrow>
             (case (if ts = [] then Some 0 else uuid_parse_str U ts) of
                None \<Rightarrow> Inl InvalidToken
              | Some token \<Rightarrow>
                  Inr \<lparr>status = status_from_u8 s, your_info = peer_new a p,
                       peer_info = (if is_unspecified b \<and> q = 0 then None else Some (peer_new b q)),
                       response_token = token\<rparr>))"
  using assms
  by (cases a; cases b)
    (simp add: server_response_from_bytes_def sizes index_def slice_def to_be_bytes_def Let_def
      split: sum.splits option.splits)

lemma server_response_from_bytes_total: "\<exists>r. server_response_from_bytes U data = Some r"
  by (auto simp: server_response_from_bytes_def index_def slice_def sizes Let_def
      split: sum.splits option.splits)

context uuid_codec
begin

lemma parse_token_padded:
  "parse_null_terminated_string (padded TOKEN_LENGTH (token_text U t)) = Inr (token_text U t)"
proof (cases t)
  case None
  then show ?thesis
    using parse_padded [of "[]"] by (simp add: token_text_def padded_def)
next
  case (Some u)
  then show ?thesis
    using parse_padded [OF to_string_no_nul token_utf8] by (simp add: token_text_def padded_def)
qed

lemma decode_request_layout:
  assumes "n \<noteq> []" and "0 \<notin> set n" and "utf8_valid n"
  shows "decode_request_fields U (padded MAX_PAIRING_NAME n) (padded TOKEN_LENGTH (token_text U t)) =
    Inr \<lparr>pairing_name = n, request_token = t\<rparr>"
  using assms
  by (simp add: decode_request_fields_def parse_token_padded padded_def [of MAX_PAIRING_NAME] parse_padded)
    (simp add: token_text_def to_string_nonempty parse_to_string split: option.splits)

lemma client_request_decode_encode:
  assumes "pairing_name req \<noteq> []"
    and "0 \<notin> set (take (MAX_PAIRING_NAME - 1) (pairing_name req))"
    and "utf8_valid (take (MAX_PAIRING_NAME - 1) (pairing_name req))"
  shows "Option.bind (client_request_to_bytes U req) (client_request_from_bytes U) =
    Some (Inr (req\<lparr>pairing_name := take (MAX_PAIRING_NAME - 1) (pairing_name req)\<rparr>))"
proof -
  let ?n = "take (MAX_PAIRING_NAME - 1) (pairing_name req)"
  let ?t = "token_text U (request_token req)"
  have N: "length (padded MAX_PAIRING_NAME ?n) = 100" and T: "length (padded TOKEN_LENGTH ?t) = 37"
    using token_text_length [of "request_token req"] by (simp_all add: padded_def sizes)
  have "?n \<noteq> []"
    using assms(1) by (simp add: sizes)
  with assms(2,3) have "decode_request_fields U (padded MAX_PAIRING_NAME ?n) (padded TOKEN_LENGTH ?t) =
      Inr \<lparr>pairing_name = ?n, request_token = request_token req\<rparr>"
    by (intro decode_request_layout)
  with N T show ?thesis
    by (simp add: client_request_layout client_request_from_bytes_eq sizes)
qed

lemma server_response_decode_encode:
  "Option.bind (server_response_to_bytes U r) (server_response_from_bytes U) =
    Some (Inr (r\<lparr>peer_info := (if peer_info r = Some (peer_new UNSPECIFIED 0) then None else peer_info r)\<rparr>))"
proof -
  let ?T = "padded TOKEN_LENGTH (uuid_to_string U (response_token r))"
  have T: "length ?T = TOKEN_LENGTH"
    by (simp add: padded_def to_string_length sizes)
  have P: "parse_null_terminated_string ?T = Inr (uuid_to_string U (response_token r))"
    using parse_token_padded [of "Some (response_token r)"] by (simp add: token_text_def)
  note fields = server_response_from_bytes_fields [OF T, where rest = "[]" and U = U, unfolded P]
  show ?thesis
  proof (cases "peer_info r")
    case None
    then show ?thesis
      by (simp add: server_response_layout fields [simplified] to_string_nonempty parse_to_string
          unwrap_or_def is_unspecified_def peer_new_eta peer_info_update)
  next
    case (Some d)
    then show ?thesis
      by (simp add: server_response_layout fields [simplified] to_string_nonempty parse_to_string
          unwrap_or_def is_unspecified_def peer_new_eta peer_info_update eq_peer_new)
  qed
qed

end

subsection \<open>Properties of the wire protocol\<close>

text \<open>
  Claim C17. A client request whose pairing name is a non-empty UTF-8 string without NUL
  bytes and of at most 99 bytes survives the wire: the encoder does not panic, and the
  decoder returns exactly the request that was encoded, with or without a reconnect token.
\<close>

theorem client_request_roundtrip:
  assumes "uuid_codec U"
    and "pairing_name req \<noteq> []" and "length (pairing_name req) \<le> MAX_PAIRING_NAME - 1"
    and "0 \<notin> set (pairing_name req)" and "utf8_valid (pairing_name req)"
  shows "\<exists>bytes. client_request_to_bytes U req = Some bytes \<and>
    client_request_from_bytes U bytes = Some (Inr req)"
  using uuid_codec.client_request_decode_encode [OF assms(1), of req] assms(2-5)
  by (auto simp: option_bind_Some_iff)

theorem client_request_roundtrip_witness:
  "\<exists>bytes. client_request_to_bytes hyphenated_ops
      \<lparr>pairing_name = str ''my_pairing'', request_token = Some 7\<rparr> = Some bytes \<and>
    client_request_from_bytes hyphenated_ops bytes =
      Some (Inr \<lparr>pairing_name = str ''my_pairing'', request_token = Some 7\<rparr>)"
  by (rule client_request_roundtrip [OF hyphenated.uuid_codec_axioms])
    (simp_all add: str_def sizes)

text \<open>
  A longer pairing name is cut to its first 99 bytes. Two requests with the same
  token whose names agree on the first 99 bytes have the same wire image, and if the cut
  name is still UTF-8 and free of NUL bytes the server registers the cut name.
\<close>

lemma client_request_truncation:
  assumes "uuid_codec U" and "request_token r = request_token r'"
    and "take (MAX_PAIRING_NAME - 1) (pairing_name r) = take (MAX_PAIRING_NAME - 1) (pairing_name r')"
    and "pairing_name r \<noteq> []" and "0 \<notin> set (take (MAX_PAIRING_NAME - 1) (pairing_name r))"
    and "utf8_valid (take (MAX_PAIRING_NAME - 1) (pairing_name r))"
  shows "client_request_to_bytes U r = client_request_to_bytes U r' \<and>
    Option.bind (client_request_to_bytes U r') (client_request_from_bytes U) =
      Some (Inr (r\<lparr>pairing_name := take (MAX_PAIRING_NAME - 1) (pairing_name r)\<rparr>))"
  using uuid_codec.client_request_decode_encode [OF assms(1) assms(4-6)] assms(2,3)
  by (simp add: uuid_codec.client_request_layout [OF assms(1)])

text \<open>
  The cut can fall inside a multi-byte character. The encoder still sends the cut
  bytes, and the server then answers the well-formed request with \<open>InvalidUtf8\<close>.
\<close>

theorem client_request_cut_character:
  assumes "uuid_codec U" and "0 \<notin> set (take (MAX_PAIRING_NAME - 1) (pairing_name req))"
    and "\<not> utf8_valid (take (MAX_PAIRING_NAME - 1) (pairing_name req))"
  shows "Option.bind (client_request_to_bytes U req) (client_request_from_bytes U) = Some (Inl InvalidUtf8)"
proof -
  let ?n = "take (MAX_PAIRING_NAME - 1) (pairing_name req)"
  have "takeWhile (\<lambda>b. b \<noteq> 0) (padded MAX_PAIRING_NAME ?n) = ?n"
    unfolding padded_def using assms(2) by (intro takeWhile_replicate_suffix) auto
  moreover have "length (padded MAX_PAIRING_NAME ?n) = 100"
    and "length (padded TOKEN_LENGTH (token_text U (request_token req))) = 37"
    using uuid_codec.token_text_length [OF assms(1), of "request_token req"] by (simp_all add: padded_def sizes)
  ultimately show ?thesis
    using assms(3)
    by (simp add: uuid_codec.client_request_layout [OF assms(1)] client_request_from_bytes_eq
        decode_request_fields_def parse_null_terminated_string_eq sizes)
qed

theorem client_request_cut_character_witness:
  "utf8_valid (replicate 98 97 @ [0xC3, 0xA9]) \<and>
   Option.bind (client_request_to_bytes hyphenated_ops
       \<lparr>pairing_name = replicate 98 97 @ [0xC3, 0xA9], request_token = None\<rparr>)
     (client_request_from_bytes hyphenated_ops) = Some (Inl InvalidUtf8)"
proof -
  have skip: "utf8_valid (replicate k 97 @ xs) = utf8_valid xs" for k xs
    by (induction k) auto
  have "take 99 (replicate 98 (97 :: byte) @ [0xC3, 0xA9]) = replicate 98 97 @ [0xC3]"
    by simp
  then show ?thesis
    using client_request_cut_character [OF hyphenated.uuid_codec_axioms,
        of "\<lparr>pairing_name = replicate 98 97 @ [0xC3, 0xA9], request_token = None\<rparr>"]
    by (simp add: sizes skip utf8_cont_def)
qed

text \<open>
  Claim C20. The request decoder is total: on every byte string it returns without panicking,
  rejects exactly the inputs shorter than 141 bytes as \<open>InvalidLength\<close>, and otherwise looks
  at the first 137 bytes only, so the reserved flags and any trailing bytes are ignored.
\<close>

theorem client_request_decoder_total:
  "(\<exists>r. client_request_from_bytes U data = Some r \<and>
        ((\<exists>e g. r = Inl (InvalidLength e g)) \<longleftrightarrow> length data < 141)) \<and>
   (141 \<le> length data \<longrightarrow>
      client_request_from_bytes U data = client_request_from_bytes U (take 137 data @ replicate 4 0))"
proof -
  have "take 37 (drop 100 (take 137 data @ replicate 4 0)) = take 37 (drop 100 data)"
    and "take 100 (take 137 data @ replicate 4 0) = take 100 data"
    and "length (take 137 data @ replicate 4 (0 :: byte)) = 141"
    if "141 \<le> length data"
    using that by (simp_all add: drop_take)
  then show ?thesis
    by (simp add: client_request_from_bytes_eq sizes decode_request_fields_length del: append_take_drop_id)
qed

theorem client_request_decoder_total_witness:
  "client_request_from_bytes hyphenated_ops (replicate 137 65 @ replicate 4 1) =
   client_request_from_bytes hyphenated_ops (replicate 137 65 @ replicate 4 0)"
  using client_request_decoder_total [of hyphenated_ops "replicate 137 65 @ replicate 4 1"]
  by simp

lemma decoded_name:
  assumes "client_request_from_bytes U data = Some (Inr req)"
  shows "pairing_name req \<noteq> [] \<and> utf8_valid (pairing_name req) \<and> 0 \<notin> set (pairing_name req)
    \<and> length (pairing_name req) \<le> MAX_PAIRING_NAME"
proof -
  from assms have dec: "decode_request_fields U (take MAX_PAIRING_NAME data)
      (take TOKEN_LENGTH (drop MAX_PAIRING_NAME data)) = Inr req"
    by (auto simp: client_request_from_bytes_eq split: if_splits)
  have "length (takeWhile (\<lambda>b. b \<noteq> 0) (take MAX_PAIRING_NAME data)) \<le> MAX_PAIRING_NAME"
    using length_takeWhile_le [of "\<lambda>b. b \<noteq> 0" "take MAX_PAIRING_NAME data"] by (simp add: min_def split: if_splits)
  then show ?thesis
    using decode_request_fields_ok [OF dec] dec no_nul_takeWhile [of "take MAX_PAIRING_NAME data"]
    by (auto simp: decode_request_fields_def parse_null_terminated_string_eq Let_def
        split: sum.splits if_splits option.splits)
qed

text \<open>
  Claim C21. Whatever arrives from the network, a request the decoder accepts came in at least 141
  bytes; its pairing name is the first field up to its NUL byte, non-empty, UTF-8, free of NUL
  bytes and at most 100 bytes long; its token is absent exactly when the token field starts with
  a NUL byte, and otherwise is what the token field up to its NUL byte parses to.
\<close>

theorem client_request_decoder_sound:
  assumes "client_request_from_bytes U data = Some (Inr req)"
  shows "CLIENT_REQUEST_SIZE \<le> length data
    \<and> pairing_name req = takeWhile (\<lambda>b. b \<noteq> 0) (take MAX_PAIRING_NAME data)
    \<and> pairing_name req \<noteq> [] \<and> utf8_valid (pairing_name req) \<and> 0 \<notin> set (pairing_name req)
    \<and> length (pairing_name req) \<le> MAX_PAIRING_NAME
    \<and> (request_token req = None \<longleftrightarrow> data ! MAX_PAIRING_NAME = 0)
    \<and> (\<forall>u. request_token req = Some u \<longrightarrow>
         uuid_parse_str U (takeWhile (\<lambda>b. b \<noteq> 0) (take TOKEN_LENGTH (drop MAX_PAIRING_NAME data))) = Some u)"
proof -
  from assms have len: "CLIENT_REQUEST_SIZE \<le> length data"
    and dec: "decode_request_fields U (take MAX_PAIRING_NAME data)
      (take TOKEN_LENGTH (drop MAX_PAIRING_NAME data)) = Inr req"
    by (auto simp: client_request_from_bytes_eq split: if_splits)
  let ?t = "takeWhile (\<lambda>b. b \<noteq> 0) (take TOKEN_LENGTH (drop MAX_PAIRING_NAME data))"
  have fields: "pairing_name req = takeWhile (\<lambda>b. b \<noteq> 0) (take MAX_PAIRING_NAME data)"
    "request_token req = None \<longleftrightarrow> ?t = []" "\<And>u. request_token req = Some u \<Longrightarrow> uuid_parse_str U ?t = Some u"
    using dec by (auto simp: decode_request_fields_def parse_null_terminated_string_eq Let_def
        split: sum.splits if_splits option.splits)
  obtain rest where "take TOKEN_LENGTH (drop MAX_PAIRING_NAME data) = data ! MAX_PAIRING_NAME # rest"
    using len by (simp add: sizes Cons_nth_drop_Suc [symmetric])
  then have "?t = [] \<longleftrightarrow> data ! MAX_PAIRING_NAME = 0" by simp
  with fields decoded_name [OF assms] len show ?thesis by blast
qed

theorem client_request_decoder_sound_witness:
  "client_request_from_bytes hyphenated_ops (str ''ab'' @ replicate 139 0) =
     Some (Inr \<lparr>pairing_name = str ''ab'', request_token = None\<rparr>)
   \<and> takeWhile (\<lambda>b. b \<noteq> 0) (take MAX_PAIRING_NAME (str ''ab'' @ replicate 139 0)) = str ''ab''
   \<and> (str ''ab'' @ replicate 139 0) ! MAX_PAIRING_NAME = 0"
proof -
  have "client_request_from_bytes hyphenated_ops (str ''ab'' @ replicate 139 0) =
      Some (Inr \<lparr>pairing_name = str ''ab'', request_token = None\<rparr>)"
    by (simp add: client_request_from_bytes_eq sizes decode_request_fields_def
        parse_null_terminated_string_eq str_def takeWhile_replicate)
  with client_request_decoder_sound [OF this] show ?thesis
    unfolding client_request.simps by metis
qed

text \<open>
  Claim C19. The response encoder never panics and writes exactly 50 bytes: the status byte,
  the client's IPv4 octets and big-endian port, the peer's IPv4 octets and port (all zero
  without a peer), and the 36-character token with its terminating NUL.
\<close>

theorem server_response_wire_layout:
  assumes "uuid_codec U"
  shows "\<exists>bytes. server_response_to_bytes U r = Some bytes \<and> length bytes = 50 \<and>
    bytes = [status_as_u8 (status r)] @ octets (ip (your_info r)) @ to_be_bytes (port (your_info r))
      @ (case peer_info r of None \<Rightarrow> replicate 6 0 | Some p \<Rightarrow> octets (ip p) @ to_be_bytes (port p))
      @ uuid_to_string U (response_token r) @ [0]"
  using uuid_codec.to_string_length [OF assms]
  by (auto simp: uuid_codec.server_response_layout [OF assms] padded_def sizes unwrap_or_def
      UNSPECIFIED_def to_be_bytes_def numeral_eq_Suc split: option.splits)

theorem server_response_wire_layout_witness:
  "\<exists>bytes. server_response_to_bytes hyphenated_ops response_error = Some bytes \<and> length bytes = 50"
  using server_response_wire_layout [OF hyphenated.uuid_codec_axioms, of response_error] by blast

text \<open>
  Claim C18. Decoding inverts encoding for every response except one whose peer is
  \<open>0.0.0.0:0\<close>: that peer has the wire image of no peer and is decoded as none.
\<close>

theorem server_response_roundtrip:
  assumes "uuid_codec U"
  shows "Option.bind (server_response_to_bytes U r) (server_response_from_bytes U) = Some (Inr r)
    \<longleftrightarrow> peer_info r \<noteq> Some (peer_new UNSPECIFIED 0)"
  by (cases r) (auto simp: uuid_codec.server_response_decode_encode [OF assms])

theorem server_response_roundtrip_witness:
  "Option.bind (server_response_to_bytes hyphenated_ops
      (response_paired (peer_new (Ipv4Addr 192 168 1 100) 12345) (peer_new (Ipv4Addr 10 0 0 50) 54321) 9))
      (server_response_from_bytes hyphenated_ops) =
    Some (Inr (response_paired (peer_new (Ipv4Addr 192 168 1 100) 12345) (peer_new (Ipv4Addr 10 0 0 50) 54321) 9))"
  unfolding server_response_roundtrip [OF hyphenated.uuid_codec_axioms]
  by (simp add: response_paired_def peer_new_def)

text \<open>
  An address is accepted exactly when it is an IPv4 address, and the accepted
  address converts back to the socket address it came from.
\<close>

lemma socket_addr_roundtrip:
  "(from_socket_addr a = Some d \<longleftrightarrow> to_socket_addr d = a) \<and>
   (from_socket_addr a = None \<longleftrightarrow> (\<exists>v6. sa_ip a = V6 v6))"
  by (cases a; cases d) (auto simp: from_socket_addr_def to_socket_addr_def split: ip_addr.splits)

end
