(* ===== verification/Registry_Core.thy ===== *)
theory Registry_Core
  imports Protocol
begin

text \<open>
  The data both registry backends share (\<open>server/rust/src/registry.rs\<close>, the top of the
  file), the abstract specification of a pairing registry (a \<^emph>\<open>waiting room\<close> with at most
  one waiting client per name), and the contract between a backend and its clients as a
  locale. The lemmas of the waiting room and of the contract are proved once here; the
  backends interpret the contract.
\<close>

subsection \<open>Data\<close>

record registry_config =
  pairing_timeout :: duration
  cleanup_interval :: duration
  server_id :: rust_string

text \<open>\<open>RegistryConfig::default()\<close>; the argument is the result of \<open>Uuid::new_v4()\<close>.\<close>

definition registry_config_default :: "uuid_ops \<Rightarrow> uuid \<Rightarrow> registry_config" where
  "registry_config_default U new_v4 =
     \<lparr>pairing_timeout = from_secs 60, cleanup_interval = from_secs 30,
      server_id = uuid_to_string U new_v4\<rparr>"

text \<open>\<open>registered_at\<close> counts the nanoseconds of a \<open>chrono::DateTime<Utc>\<close>.\<close>

record waiting_client =
  connection_info :: peer_connection_data
  reconnect_token :: uuid
  client_server_id :: rust_string
  registered_at :: int

text \<open>The sending half of a oneshot channel is the channel's name.\<close>

datatype registration_result =
    RWaiting uuid chan
  | RPaired uuid peer_connection_data
  | RResumed uuid chan

datatype registry_error =
    RegistryInvalidToken
  | SessionExpired
  | RedisError rust_string
  | Internal rust_string

type_synonym reg_event = "peer_connection_data chan_event"

text \<open>
  What the runtime supplies to one call of \<open>register\<close>: the values of \<open>Uuid::new_v4()\<close>,
  \<open>oneshot::channel()\<close>, \<open>chrono::Utc::now()\<close> and \<open>Instant::now()\<close>. Every path through
  \<open>register\<close> calls each of them at most once.
\<close>

record runtime =
  new_v4 :: uuid
  new_chan :: chan
  utc_now :: int
  instant_now :: instant

subsection \<open>The waiting room\<close>

record slot =
  slot_token :: uuid
  slot_info :: peer_connection_data
  slot_chan :: chan

type_synonym room = "rust_string \<rightharpoonup> slot"

definition room_register ::
    "rust_string \<Rightarrow> peer_connection_data \<Rightarrow> uuid option \<Rightarrow> runtime \<Rightarrow> room
     \<Rightarrow> registration_result \<times> room \<times> reg_event list" where
  "room_register name info rtok sp R =
     (case R name of
        None \<Rightarrow>
          (RWaiting (new_v4 sp) (new_chan sp),
           R(name \<mapsto> \<lparr>slot_token = new_v4 sp, slot_info = info, slot_chan = new_chan sp\<rparr>), [])
      | Some s \<Rightarrow>
          if rtok = Some (slot_token s)
          then (RResumed (slot_token s) (new_chan sp),
                R(name \<mapsto> s\<lparr>slot_info := info, slot_chan := new_chan sp\<rparr>), [ChanDrop (slot_chan s)])
          else (RPaired (new_v4 sp) (slot_info s), R(name := None), [ChanSend (slot_chan s) info]))"

definition room_unregister :: "rust_string \<Rightarrow> room \<Rightarrow> room \<times> reg_event list" where
  "room_unregister name R =
     (R(name := None), case R name of None \<Rightarrow> [] | Some s \<Rightarrow> [ChanDrop (slot_chan s)])"

text \<open>Waiting clients that stayed too long are removed, in some order.\<close>

fun room_expire :: "rust_string list \<Rightarrow> room \<Rightarrow> room \<times> reg_event list" where
  "room_expire [] R = (R, [])"
| "room_expire (n # ns) R =
     (let (R', ev) = room_unregister n R; (R'', ev') = room_expire ns R' in (R'', ev @ ev'))"

text \<open>Operations in sequence, with what each returned and which channels it touched.\<close>

datatype reg_op =
    OpRegister rust_string peer_connection_data "uuid option" runtime
  | OpUnregister rust_string uuid
  | OpExpire "rust_string list"

type_synonym reg_step = "reg_op \<times> registration_result option \<times> reg_event list"

fun room_op :: "reg_op \<Rightarrow> room \<Rightarrow> registration_result option \<times> room \<times> reg_event list" where
  "room_op (OpRegister n i t sp) R = (let (r, R', ev) = room_register n i t sp R in (Some r, R', ev))"
| "room_op (OpUnregister n t) R = (let (R', ev) = room_unregister n R in (None, R', ev))"
| "room_op (OpExpire ns) R = (let (R', ev) = room_expire ns R in (None, R', ev))"

fun op_chans :: "reg_op \<Rightarrow> chan list" where
  "op_chans (OpRegister n i t sp) = [new_chan sp]"
| "op_chans (OpUnregister n t) = []"
| "op_chans (OpExpire ns) = []"

inductive room_history :: "reg_step list \<Rightarrow> room \<Rightarrow> bool" where
  empty: "room_history [] Map.empty"
| step: "room_history H R \<Longrightarrow> room_op opn R = (r, R', ev) \<Longrightarrow> room_history (H @ [(opn, r, ev)]) R'"

definition history_events :: "reg_step list \<Rightarrow> reg_event list" where
  "history_events H = concat (map (\<lambda>(_, _, ev). ev) H)"

definition history_chans :: "reg_step list \<Rightarrow> chan list" where
  "history_chans H = concat (map (\<lambda>(opn, _, _). op_chans opn) H)"

lemma history_snoc [simp]:
  "history_events (H @ [(opn, r, ev)]) = history_events H @ ev"
  "history_chans (H @ [(opn, r, ev)]) = history_chans H @ op_chans opn"
  by (simp_all add: history_events_def history_chans_def)

text \<open>Who is waiting: a call that registered or resumed under that name with that address.\<close>

definition waits_in :: "reg_step list \<Rightarrow> rust_string \<Rightarrow> slot \<Rightarrow> bool" where
  "waits_in H n s \<longleftrightarrow>
     (\<exists>t sp r ev. (OpRegister n (slot_info s) t sp, Some r, ev) \<in> set H \<and> new_chan sp = slot_chan s \<and>
        (r = RWaiting (slot_token s) (slot_chan s) \<or> r = RResumed (slot_token s) (slot_chan s)))"

lemma waits_in_mono: "waits_in H n s \<Longrightarrow> waits_in (H @ H') n s"
  unfolding waits_in_def by auto

lemma room_register_provenance:
  assumes "\<And>n s. R n = Some s \<Longrightarrow> waits_in H n s" and "room_register n i t sp R = (r, R', ev)"
    and "R' m = Some s"
  shows "waits_in (H @ [(OpRegister n i t sp, Some r, ev)]) m s"
proof (cases "R' m = R m")
  case True
  with assms(1,3) show ?thesis by (metis waits_in_mono)
next
  case False
  with assms(2,3) have "m = n" and "slot_info s = i" and "slot_chan s = new_chan sp"
    and "r = RWaiting (slot_token s) (slot_chan s) \<or> r = RResumed (slot_token s) (slot_chan s)"
    by (auto simp: room_register_def split: option.splits if_splits)
  then show ?thesis unfolding waits_in_def by auto
qed

lemma room_expire_room: "fst (room_expire ns R) = R |` (- set ns)"
proof (induction ns arbitrary: R)
  case (Cons n ns)
  have "(R(n := None)) |` (- set ns) = R |` (- set (n # ns))"
    by (auto simp: restrict_map_def)
  with Cons.IH show ?case by (simp add: room_unregister_def split_beta)
qed (simp add: restrict_map_def)

lemma room_expire_submap: "room_expire ns R = (R', ev) \<Longrightarrow> R' n = Some s \<Longrightarrow> R n = Some s"
  using room_expire_room [of ns R] by (auto simp: restrict_map_def split: if_splits)

lemma room_history_provenance: "room_history H R \<Longrightarrow> R n = Some s \<Longrightarrow> waits_in H n s"
proof (induction arbitrary: n s rule: room_history.induct)
  case (step H R opn r R' ev)
  show ?case
  proof (cases opn)
    case (OpRegister m i t sp)
    then obtain r' where "room_register m i t sp R = (r', R', ev)" and "r = Some r'"
      using step.hyps(2) by (auto split: prod.splits)
    then show ?thesis
      using room_register_provenance [of R H] step.IH step.prems OpRegister by blast
  next
    case (OpUnregister m t)
    then show ?thesis
      using step by (auto simp: room_unregister_def waits_in_mono split: if_splits)
  next
    case (OpExpire ns)
    then show ?thesis
      using step by (auto dest: room_expire_submap simp: waits_in_mono split: prod.splits)
  qed
qed simp

text \<open>
  Channels are used once: the waiting clients hold distinct channels on which nothing has
  happened yet, and on every other channel at most one thing has happened.
\<close>

definition chans_ok :: "room \<Rightarrow> chan set \<Rightarrow> chan list \<Rightarrow> bool" where
  "chans_ok R used log \<longleftrightarrow>
     (\<forall>n s. R n = Some s \<longrightarrow> slot_chan s \<in> used \<and> slot_chan s \<notin> set log) \<and>
     (\<forall>n m s s'. R n = Some s \<longrightarrow> R m = Some s' \<longrightarrow> slot_chan s = slot_chan s' \<longrightarrow> n = m) \<and>
     distinct log \<and> set log \<subseteq> used"

lemma chans_ok_remove:
  "chans_ok R used log \<Longrightarrow>
   chans_ok (R(n := None)) used (log @ (case R n of None \<Rightarrow> [] | Some s \<Rightarrow> [slot_chan s]))"
  unfolding chans_ok_def by (simp split: option.splits) (metis (full_types))

lemma chans_ok_put:
  "chans_ok R used log \<Longrightarrow> R n = None \<Longrightarrow> slot_chan s \<notin> used \<Longrightarrow>
   chans_ok (R(n \<mapsto> s)) (insert (slot_chan s) used) log"
  unfolding chans_ok_def by (auto simp: subset_iff) metis

lemma chans_ok_weaken: "chans_ok R used log \<Longrightarrow> used \<subseteq> used' \<Longrightarrow> chans_ok R used' log"
  unfolding chans_ok_def by blast

lemma chans_ok_register:
  assumes ok: "chans_ok R used log" and step: "room_register n i t sp R = (r, R', ev)"
    and fresh: "new_chan sp \<notin> used"
  shows "chans_ok R' (insert (new_chan sp) used) (log @ map event_chan ev)"
proof (cases "R n")
  case None
  then show ?thesis
    using step chans_ok_put [OF ok None, of "\<lparr>slot_token = new_v4 sp, slot_info = i, slot_chan = new_chan sp\<rparr>"] fresh
    by (auto simp: room_register_def)
next
  case (Some s)
  have gone: "chans_ok (R(n := None)) used (log @ [slot_chan s])"
    using chans_ok_remove [OF ok, of n] Some by simp
  show ?thesis
  proof (cases "t = Some (slot_token s)")
    case True
    then show ?thesis
      using Some step fresh chans_ok_put [OF gone, of n "s\<lparr>slot_info := i, slot_chan := new_chan sp\<rparr>"]
      by (auto simp: room_register_def)
  next
    case False
    then show ?thesis
      using Some step chans_ok_weaken [OF gone subset_insertI] by (auto simp: room_register_def)
  qed
qed

lemma chans_ok_unregister:
  assumes "chans_ok R used log" and "room_unregister n R = (R', ev)"
  shows "chans_ok R' used (log @ map event_chan ev)"
  using chans_ok_remove [OF assms(1), of n] assms(2)
  by (auto simp: room_unregister_def split: option.splits)

lemma chans_ok_expire:
  "chans_ok R used log \<Longrightarrow> room_expire ns R = (R', ev) \<Longrightarrow> chans_ok R' used (log @ map event_chan ev)"
proof (induction ns arbitrary: R R' ev log)
  case (Cons n ns)
  obtain R1 ev1 where one: "room_unregister n R = (R1, ev1)" by (cases "room_unregister n R")
  obtain R2 ev2 where two: "room_expire ns R1 = (R2, ev2)" by (cases "room_expire ns R1")
  from Cons.prems(2) one two have "R' = R2" and "ev = ev1 @ ev2" by simp_all
  with Cons.IH [OF chans_ok_unregister [OF Cons.prems(1) one] two] show ?case by simp
qed simp

lemma room_history_chans:
  "room_history H R \<Longrightarrow> distinct (history_chans H) \<Longrightarrow>
     chans_ok R (set (history_chans H)) (map event_chan (history_events H))"
proof (induction rule: room_history.induct)
  case empty
  then show ?case by (simp add: chans_ok_def history_events_def history_chans_def)
next
  case (step H R opn r R' ev)
  then have ok: "chans_ok R (set (history_chans H)) (map event_chan (history_events H))" by simp
  show ?case
  proof (cases opn)
    case (OpRegister m i t sp)
    then show ?thesis
      using chans_ok_register [OF ok] step.hyps(2) step.prems by (auto split: prod.splits)
  next
    case (OpUnregister m t)
    then show ?thesis
      using chans_ok_unregister [OF ok] step.hyps(2) by (auto split: prod.splits)
  next
    case (OpExpire ns)
    then show ?thesis
      using chans_ok_expire [OF ok] step.hyps(2) by (auto split: prod.splits)
  qed
qed

lemma room_history_snocE:
  assumes "room_history (H @ [x]) R'"
  obtains R opn r ev where "x = (opn, r, ev)" and "room_history H R" and "room_op opn R = (r, R', ev)"
  using assms by (cases rule: room_history.cases) auto

text \<open>The operations alone decide everything else.\<close>

lemma room_history_unique:
  assumes "room_history H R" and "room_history H' R'" and "map fst H = map fst H'"
  shows "H = H' \<and> R = R'"
  using assms
proof (induction H arbitrary: H' R R' rule: rev_induct)
  case Nil
  then show ?case by (auto elim: room_history.cases)
next
  case (snoc x H)
  then obtain G y where G: "H' = G @ [y]" "map fst H = map fst G" "fst x = fst y"
    by (cases H' rule: rev_cases) auto
  obtain Q opn r ev where x: "x = (opn, r, ev)" "room_history H Q" "room_op opn Q = (r, R, ev)"
    using snoc.prems(1) by (rule room_history_snocE)
  obtain Q' opn' r' ev' where y: "y = (opn', r', ev')" "room_history G Q'" "room_op opn' Q' = (r', R', ev')"
    using snoc.prems(2) unfolding G(1) by (rule room_history_snocE)
  from snoc.IH [OF x(2) y(2) G(2)] x(1,3) y(1,3) G(1,3) show ?case by simp
qed

lemma room_register_paired:
  assumes "room_register n i t sp R = (RPaired tok p, R', ev)"
  shows "\<exists>s. R n = Some s \<and> slot_info s = p \<and> t \<noteq> Some (slot_token s) \<and>
    ev = [ChanSend (slot_chan s) i] \<and> R' = R(n := None) \<and> tok = new_v4 sp"
  using assms by (auto simp: room_register_def split: option.splits if_splits)

subsection \<open>The contract of a backend\<close>

text \<open>
  What a backend promises: on a well-formed state, a successful \<open>register\<close> or
  \<open>unregister\<close> does exactly what the waiting room does and keeps the state well-formed.
  \<open>admits\<close> says that the supplied identifier is fresh, \<open>owns\<close> that the caller unregisters
  its own registration; \<open>expires\<close> is the backend's own sweep, which removes waiting clients.
  A backend may fail instead, and then promises nothing.
\<close>

locale pairing_registry =
  fixes inv :: "'s \<Rightarrow> bool"
    and room_of :: "'s \<Rightarrow> room"
    and admits :: "runtime \<Rightarrow> 's \<Rightarrow> bool"
    and owns :: "rust_string \<Rightarrow> uuid \<Rightarrow> 's \<Rightarrow> bool"
    and expires :: "'s \<Rightarrow> rust_string list \<Rightarrow> 's \<Rightarrow> reg_event list \<Rightarrow> bool"
    and register :: "rust_string \<Rightarrow> peer_connection_data \<Rightarrow> uuid option \<Rightarrow> runtime \<Rightarrow> 's
      \<Rightarrow> (registry_error + registration_result) \<times> 's \<times> reg_event list"
    and unregister :: "rust_string \<Rightarrow> uuid \<Rightarrow> 's \<Rightarrow> (registry_error + unit) \<times> 's \<times> reg_event list"
  assumes register_refines:
      "inv s \<Longrightarrow> admits sp s \<Longrightarrow> register n i t sp s = (Inr r, s', ev) \<Longrightarrow>
       inv s' \<and> room_register n i t sp (room_of s) = (r, room_of s', ev)"
    and unregister_refines:
      "inv s \<Longrightarrow> owns n tok s \<Longrightarrow> unregister n tok s = (Inr (), s', ev) \<Longrightarrow>
       inv s' \<and> room_unregister n (room_of s) = (room_of s', ev)"
    and expires_refines:
      "inv s \<Longrightarrow> expires s ns s' ev \<Longrightarrow> inv s' \<and> room_expire ns (room_of s) = (room_of s', ev)"

inductive backend_history ::
    "(runtime \<Rightarrow> 's \<Rightarrow> bool) \<Rightarrow> (rust_string \<Rightarrow> uuid \<Rightarrow> 's \<Rightarrow> bool)
     \<Rightarrow> ('s \<Rightarrow> rust_string list \<Rightarrow> 's \<Rightarrow> reg_event list \<Rightarrow> bool)
     \<Rightarrow> (rust_string \<Rightarrow> peer_connection_data \<Rightarrow> uuid option \<Rightarrow> runtime \<Rightarrow> 's
          \<Rightarrow> (registry_error + registration_result) \<times> 's \<times> reg_event list)
     \<Rightarrow> (rust_string \<Rightarrow> uuid \<Rightarrow> 's \<Rightarrow> (registry_error + unit) \<times> 's \<times> reg_event list)
     \<Rightarrow> 's \<Rightarrow> reg_step list \<Rightarrow> 's \<Rightarrow> bool"
  for admits owns expires register unregister s0 where
  start: "backend_history admits owns expires register unregister s0 [] s0"
| register: "backend_history admits owns expires register unregister s0 H s \<Longrightarrow> admits sp s \<Longrightarrow>
     register n i t sp s = (Inr r, s', ev) \<Longrightarrow>
     backend_history admits owns expires register unregister s0 (H @ [(OpRegister n i t sp, Some r, ev)]) s'"
| unregister: "backend_history admits owns expires register unregister s0 H s \<Longrightarrow> owns n tok s \<Longrightarrow>
     unregister n tok s = (Inr (), s', ev) \<Longrightarrow>
     backend_history admits owns expires register unregister s0 (H @ [(OpUnregister n tok, None, ev)]) s'"
| expire: "backend_history admits owns expires register unregister s0 H s \<Longrightarrow> expires s ns s' ev \<Longrightarrow>
     backend_history admits owns expires register unregister s0 (H @ [(OpExpire ns, None, ev)]) s'"

context pairing_registry
begin

lemma history_refines:
  assumes "backend_history admits owns expires register unregister s0 H s"
    and "inv s0" and "room_of s0 = Map.empty"
  shows "inv s \<and> room_history H (room_of s)"
  using assms
proof (induction rule: backend_history.induct)
  case start
  then show ?case by (simp add: room_history.empty)
next
  case (register H s sp n i t r s' ev)
  then have ih: "inv s" "room_history H (room_of s)" by simp_all
  have "inv s'" and "room_register n i t sp (room_of s) = (r, room_of s', ev)"
    using register_refines [OF ih(1) register.hyps(2,3)] by simp_all
  then show ?case
    using room_history.step [OF ih(2), of "OpRegister n i t sp" "Some r"] by simp
next
  case (unregister H s n tok s' ev)
  then have ih: "inv s" "room_history H (room_of s)" by simp_all
  have "inv s'" and "room_unregister n (room_of s) = (room_of s', ev)"
    using unregister_refines [OF ih(1) unregister.hyps(2,3)] by simp_all
  then show ?case
    using room_history.step [OF ih(2), of "OpUnregister n tok" None] by simp
next
  case (expire H s ns s' ev)
  then have ih: "inv s" "room_history H (room_of s)" by simp_all
  have "inv s'" and "room_expire ns (room_of s) = (room_of s', ev)"
    using expires_refines [OF ih(1) expire.hyps(2)] by simp_all
  then show ?case
    using room_history.step [OF ih(2), of "OpExpire ns" None] by simp
qed

lemma mutual_introduction:
  assumes "backend_history admits owns expires register unregister s0 H s"
    and "inv s0" and "room_of s0 = Map.empty" and "admits sp s"
    and "register n i t sp s = (Inr (RPaired tok p), s', ev)"
  shows "\<exists>t' sp' r ev' u. (OpRegister n p t' sp', Some r, ev') \<in> set H \<and>
    (r = RWaiting u (new_chan sp') \<or> r = RResumed u (new_chan sp')) \<and> t \<noteq> Some u \<and>
    ev = [ChanSend (new_chan sp') i]"
proof -
  have h: "inv s" "room_history H (room_of s)"
    using history_refines [OF assms(1-3)] by simp_all
  have "room_register n i t sp (room_of s) = (RPaired tok p, room_of s', ev)"
    using register_refines [OF h(1) assms(4,5)] by simp
  then obtain sl where sl: "room_of s n = Some sl" and p: "slot_info sl = p"
    and t: "t \<noteq> Some (slot_token sl)" and ev: "ev = [ChanSend (slot_chan sl) i]"
    using room_register_paired by blast
  from room_history_provenance [OF h(2) sl] obtain t' sp' r ev' where
    "(OpRegister n p t' sp', Some r, ev') \<in> set H" and "new_chan sp' = slot_chan sl"
    and "r = RWaiting (slot_token sl) (slot_chan sl) \<or> r = RResumed (slot_token sl) (slot_chan sl)"
    unfolding waits_in_def p by blast
  with t ev show ?thesis by (intro exI [of _ t'] exI [of _ sp'] exI [of _ r]) auto
qed

lemma single_delivery:
  assumes "backend_history admits owns expires register unregister s0 H s"
    and "inv s0" and "room_of s0 = Map.empty" and "distinct (history_chans H)"
  shows "distinct (map event_chan (history_events H)) \<and>
    (\<forall>n sl. room_of s n = Some sl \<longrightarrow> slot_chan sl \<notin> event_chan ` set (history_events H))"
  using room_history_chans [OF history_refines [OF assms(1-3), THEN conjunct2] assms(4)]
  by (simp add: chans_ok_def)

lemma first_waits:
  assumes "inv s" and "admits sp s" and "room_of s n = None" and "register n i t sp s = (Inr r, s', ev)"
  shows "r = RWaiting (new_v4 sp) (new_chan sp)" and "ev = []"
    and "room_of s' = (room_of s)(n \<mapsto> \<lparr>slot_token = new_v4 sp, slot_info = i, slot_chan = new_chan sp\<rparr>)"
    and "inv s'"
  using register_refines [OF assms(1,2,4)] assms(3) by (auto simp: room_register_def)

lemma second_pairs:
  assumes "inv s" and "admits sp s" and "room_of s n = Some sl" and "t \<noteq> Some (slot_token sl)"
    and "register n i t sp s = (Inr r, s', ev)"
  shows "r = RPaired (new_v4 sp) (slot_info sl)" and "ev = [ChanSend (slot_chan sl) i]"
    and "room_of s' = (room_of s)(n := None)" and "inv s'"
  using register_refines [OF assms(1,2,5)] assms(3,4) by (auto simp: room_register_def)

lemma token_resumes:
  assumes "inv s" and "admits sp s" and "room_of s n = Some sl"
    and "register n i (Some (slot_token sl)) sp s = (Inr r, s', ev)"
  shows "r = RResumed (slot_token sl) (new_chan sp)" and "ev = [ChanDrop (slot_chan sl)]"
    and "room_of s' = (room_of s)(n \<mapsto> sl\<lparr>slot_info := i, slot_chan := new_chan sp\<rparr>)" and "inv s'"
  using register_refines [OF assms(1,2,4)] assms(3) by (auto simp: room_register_def)

lemma rendezvous:
  assumes "inv s" and "room_of s n = None" and "admits spA s" and "admits spB s1"
    and "register n iA tA spA s = (Inr rA, s1, evA)" and "register n iB tB spB s1 = (Inr rB, s2, evB)"
    and "tB \<noteq> Some (new_v4 spA)"
  shows "rA = RWaiting (new_v4 spA) (new_chan spA) \<and> rB = RPaired (new_v4 spB) iA \<and>
    evA = [] \<and> evB = [ChanSend (new_chan spA) iB] \<and> room_of s2 = room_of s"
proof -
  note A = first_waits [OF assms(1,3,2,5)]
  let ?sl = "\<lparr>slot_token = new_v4 spA, slot_info = iA, slot_chan = new_chan spA\<rparr>"
  have "room_of s1 n = Some ?sl" by (simp add: A(3))
  note B = second_pairs [OF A(4) assms(4) this _ assms(6)]
  from assms(2) have "(room_of s)(n := None) = room_of s" by (simp add: fun_upd_idem)
  with A B assms(7) show ?thesis by auto
qed

lemma reconnect_rendezvous:
  assumes "inv s" and "room_of s n = Some sl" and "admits spA s" and "admits spB s1"
    and "register n iA (Some (slot_token sl)) spA s = (Inr rA, s1, evA)"
    and "register n iB tB spB s1 = (Inr rB, s2, evB)" and "tB \<noteq> Some (slot_token sl)"
  shows "rA = RResumed (slot_token sl) (new_chan spA) \<and> rB = RPaired (new_v4 spB) iA \<and>
    evA = [ChanDrop (slot_chan sl)] \<and> evB = [ChanSend (new_chan spA) iB] \<and> room_of s2 n = None"
proof -
  note A = token_resumes [OF assms(1,3,2,5)]
  have "room_of s1 n = Some (sl\<lparr>slot_info := iA, slot_chan := new_chan spA\<rparr>)" by (simp add: A(3))
  note B = second_pairs [OF A(4) assms(4) this _ assms(6)]
  from A B assms(7) show ?thesis by auto
qed

end

end
