(* ===== verification/In_Memory.thy ===== *)
theory In_Memory
  imports Registry_Core
begin

text \<open>
  The in-memory backend (\<open>InMemoryRegistry\<close> in \<open>server/rust/src/registry.rs\<close>): a map from
  pairing names to waiting entries and a map from reconnect tokens to pairing names, both
  \<open>DashMap\<close>s. Each operation is one function of the registry's state; next to its result it
  returns what it did to the sending halves of the notification channels. The lemmas show
  that the entry map and the token map stay coherent, and that the backend implements the
  waiting room of \<open>Registry_Core\<close>.
\<close>

subsection \<open>State and operations\<close>

record pairing_entry =
  waiting_client :: waiting_client
  notify_tx :: "chan option"
  created_at :: instant

text \<open>
  The state of the closure that \<open>cleanup_expired\<close> passes to \<open>retain\<close>: the token map, the
  counter, and the channels of the entries dropped so far.
\<close>

type_synonym 't sweep = "'t \<times> nat \<times> reg_event list"

record ('p, 't) mem_env =
  pairings_map :: "('p, rust_string, pairing_entry, 't sweep) dashmap_ops"
  tokens_map :: "('t, uuid, rust_string, unit) dashmap_ops"

record ('p, 't) in_memory_registry =
  mem_config :: registry_config
  pairings :: 'p
  tokens :: 't

definition mem_new :: "('p, 't) mem_env \<Rightarrow> registry_config \<Rightarrow> ('p, 't) in_memory_registry" where
  "mem_new E config =
     \<lparr>mem_config = config, pairings = dm_new (pairings_map E), tokens = dm_new (tokens_map E)\<rparr>"

text \<open>Dropping an entry drops the sender it holds.\<close>

definition drop_tx :: "chan option \<Rightarrow> reg_event list" where
  "drop_tx tx = (case tx of None \<Rightarrow> [] | Some c \<Rightarrow> [ChanDrop c])"

definition send_tx :: "chan option \<Rightarrow> peer_connection_data \<Rightarrow> reg_event list" where
  "send_tx tx info = (case tx of None \<Rightarrow> [] | Some c \<Rightarrow> [ChanSend c info])"

text \<open>
  The reconnect check of \<open>register\<close>: \<open>Some\<close> of the entry when the token is known, was issued
  for this name, and the name's entry still carries it.
\<close>

definition mem_reconnect_entry ::
    "('p, 't) mem_env \<Rightarrow> ('p, 't) in_memory_registry \<Rightarrow> rust_string \<Rightarrow> uuid option
     \<Rightarrow> (uuid \<times> pairing_entry) option" where
  "mem_reconnect_entry E reg name rtok = do {
     token \<leftarrow> rtok;
     stored_name \<leftarrow> dm_get (tokens_map E) token (tokens reg);
     if stored_name = name then do {
       entry \<leftarrow> dm_get (pairings_map E) name (pairings reg);
       if reconnect_token (waiting_client entry) = token then Some (token, entry) else None
     } else None
   }"

definition mem_register ::
    "('p, 't) mem_env \<Rightarrow> rust_string \<Rightarrow> peer_connection_data \<Rightarrow> uuid option \<Rightarrow> runtime
     \<Rightarrow> ('p, 't) in_memory_registry
     \<Rightarrow> (registry_error + registration_result) \<times> ('p, 't) in_memory_registry \<times> reg_event list" where
  "mem_register E name info rtok sp reg =
     (case mem_reconnect_entry E reg name rtok of
        Some (token, entry) \<Rightarrow>
          (Inr (RResumed token (new_chan sp)),
           reg\<lparr>pairings := dm_alter (pairings_map E) name
                 (\<lambda>e. e\<lparr>waiting_client := (waiting_client e)\<lparr>connection_info := info\<rparr>,
                        notify_tx := Some (new_chan sp)\<rparr>) (pairings reg)\<rparr>,
           drop_tx (notify_tx entry))
      | None \<Rightarrow>
          (case dm_remove (pairings_map E) name (pairings reg) of
             (Some (_, entry), pairings') \<Rightarrow>
               (Inr (RPaired (new_v4 sp) (connection_info (waiting_client entry))),
                reg\<lparr>pairings := pairings',
                    tokens := snd (dm_remove (tokens_map E)
                                     (reconnect_token (waiting_client entry)) (tokens reg))\<rparr>,
                send_tx (notify_tx entry) info)
           | (None, pairings') \<Rightarrow>
               (let token = new_v4 sp;
                    entry = \<lparr>waiting_client =
                               \<lparr>connection_info = info, reconnect_token = token,
                                client_server_id = server_id (mem_config reg),
                                registered_at = utc_now sp\<rparr>,
                             notify_tx = Some (new_chan sp),
                             created_at = instant_now sp\<rparr>
                in (Inr (RWaiting token (new_chan sp)),
                    reg\<lparr>pairings := dm_insert (pairings_map E) name entry pairings',
                        tokens := dm_insert (tokens_map E) token name (tokens reg)\<rparr>,
                    []))))"

definition mem_unregister ::
    "('p, 't) mem_env \<Rightarrow> rust_string \<Rightarrow> uuid \<Rightarrow> ('p, 't) in_memory_registry
     \<Rightarrow> (registry_error + unit) \<times> ('p, 't) in_memory_registry \<times> reg_event list" where
  "mem_unregister E name token reg =
     (case dm_remove (pairings_map E) name (pairings reg) of
        (Some (_, entry), pairings') \<Rightarrow>
          (Inr (),
           reg\<lparr>pairings := pairings',
               tokens := (if reconnect_token (waiting_client entry) = token
                          then snd (dm_remove (tokens_map E) token (tokens reg)) else tokens reg)\<rparr>,
           drop_tx (notify_tx entry))
      | (None, pairings') \<Rightarrow> (Inr (), reg\<lparr>pairings := pairings'\<rparr>, []))"

definition mem_active_count :: "('p, 't) mem_env \<Rightarrow> ('p, 't) in_memory_registry \<Rightarrow> nat" where
  "mem_active_count E reg = dm_len (pairings_map E) (pairings reg)"

text \<open>One visit of the closure given to \<open>retain\<close>: the verdict and the effects.\<close>

definition cleanup_visit ::
    "('p, 't) mem_env \<Rightarrow> duration \<Rightarrow> instant \<Rightarrow> rust_string \<Rightarrow> pairing_entry \<Rightarrow> 't sweep
     \<Rightarrow> bool \<times> 't sweep" where
  "cleanup_visit E timeout now name entry st =
     (case st of (toks, cleaned, dropped) \<Rightarrow>
        if duration_since now (created_at entry) > timeout
        then (False, snd (dm_remove (tokens_map E) (reconnect_token (waiting_client entry)) toks),
              cleaned + 1, dropped @ drop_tx (notify_tx entry))
        else (True, toks, cleaned, dropped))"

definition mem_cleanup_expired ::
    "('p, 't) mem_env \<Rightarrow> instant \<Rightarrow> ('p, 't) in_memory_registry
     \<Rightarrow> nat \<times> ('p, 't) in_memory_registry \<times> reg_event list" where
  "mem_cleanup_expired E now reg =
     (case dm_retain (pairings_map E) (cleanup_visit E (pairing_timeout (mem_config reg)) now)
             (pairings reg) (tokens reg, 0, []) of
        (pairings', tokens', cleaned, dropped) \<Rightarrow>
          (cleaned, reg\<lparr>pairings := pairings', tokens := tokens'\<rparr>, dropped))"

text \<open>
  \<open>start_cleanup_task\<close>: one \<open>cleanup_expired\<close> per tick of the interval timer, at the instants
  the timer fires.
\<close>

fun mem_cleanup_task ::
    "('p, 't) mem_env \<Rightarrow> instant list \<Rightarrow> ('p, 't) in_memory_registry
     \<Rightarrow> nat list \<times> ('p, 't) in_memory_registry \<times> reg_event list" where
  "mem_cleanup_task E [] reg = ([], reg, [])"
| "mem_cleanup_task E (now # ticks) reg =
     (let (cleaned, reg', ev) = mem_cleanup_expired E now reg;
          (cs, reg'', ev') = mem_cleanup_task E ticks reg'
      in (cleaned # cs, reg'', ev @ ev'))"

subsection \<open>Coherence of the two maps\<close>

definition mem_entry ::
    "('p, 't) mem_env \<Rightarrow> ('p, 't) in_memory_registry \<Rightarrow> rust_string \<Rightarrow> pairing_entry option" where
  "mem_entry E reg n = dm_get (pairings_map E) n (pairings reg)"

definition mem_token ::
    "('p, 't) mem_env \<Rightarrow> ('p, 't) in_memory_registry \<Rightarrow> uuid \<Rightarrow> rust_string option" where
  "mem_token E reg t = dm_get (tokens_map E) t (tokens reg)"

abbreviation entry_token :: "pairing_entry \<Rightarrow> uuid" where
  "entry_token e \<equiv> reconnect_token (waiting_client e)"

text \<open>Every entry can be notified and is reachable through its own token.\<close>

definition mem_ok :: "('p, 't) mem_env \<Rightarrow> ('p, 't) in_memory_registry \<Rightarrow> bool" where
  "mem_ok E reg \<longleftrightarrow>
     list_all (\<lambda>(n, e). mem_token E reg (entry_token e) = Some n \<and> notify_tx e \<noteq> None)
       (dm_iter (pairings_map E) (pairings reg))"

text \<open>No token outlives its entry.\<close>

definition mem_tight :: "('p, 't) mem_env \<Rightarrow> ('p, 't) in_memory_registry \<Rightarrow> bool" where
  "mem_tight E reg \<longleftrightarrow>
     list_all (\<lambda>(t, n). case mem_entry E reg n of None \<Rightarrow> False | Some e \<Rightarrow> entry_token e = t)
       (dm_iter (tokens_map E) (tokens reg))"

definition mem_slot :: "pairing_entry \<Rightarrow> slot" where
  "mem_slot e = \<lparr>slot_token = entry_token e, slot_info = connection_info (waiting_client e),
                 slot_chan = unwrap_or (notify_tx e) 0\<rparr>"

definition mem_room :: "('p, 't) mem_env \<Rightarrow> ('p, 't) in_memory_registry \<Rightarrow> room" where
  "mem_room E reg n = map_option mem_slot (mem_entry E reg n)"

definition mem_admits :: "('p, 't) mem_env \<Rightarrow> runtime \<Rightarrow> ('p, 't) in_memory_registry \<Rightarrow> bool" where
  "mem_admits E sp reg \<longleftrightarrow> mem_token E reg (new_v4 sp) = None"

locale mem_backend = p: dashmap "pairings_map E" + t: dashmap "tokens_map E"
  for E :: "('p, 't) mem_env"
begin

lemma mem_ok_iff:
  "mem_ok E reg \<longleftrightarrow>
     (\<forall>n e. mem_entry E reg n = Some e \<longrightarrow> mem_token E reg (entry_token e) = Some n \<and> notify_tx e \<noteq> None)"
  by (simp add: mem_ok_def mem_entry_def p.iter_all)

lemma mem_tight_iff:
  "mem_tight E reg \<longleftrightarrow>
     (\<forall>t n. mem_token E reg t = Some n \<longrightarrow> (\<exists>e. mem_entry E reg n = Some e \<and> entry_token e = t))"
proof -
  have "(case x of None \<Rightarrow> False | Some e \<Rightarrow> entry_token e = t) \<longleftrightarrow> (\<exists>e. x = Some e \<and> entry_token e = t)"
    for x t by (cases x) auto
  then show ?thesis by (simp add: mem_tight_def mem_token_def t.iter_all)
qed

lemma remove_obtain:
  obtains ps where "dm_remove (pairings_map E) n (pairings reg) = (map_option (Pair n) (mem_entry E reg n), ps)"
    and "snd (dm_remove (pairings_map E) n (pairings reg)) = ps"
  unfolding mem_entry_def by (metis p.remove_eq snd_conv)

lemma ok_entry:
  "mem_ok E reg \<Longrightarrow> mem_entry E reg n = Some e \<Longrightarrow>
   mem_token E reg (entry_token e) = Some n \<and> (\<exists>c. notify_tx e = Some c)"
  unfolding mem_ok_iff by blast

lemma ok_token_unique:
  "mem_ok E reg \<Longrightarrow> mem_entry E reg n = Some e \<Longrightarrow> mem_entry E reg m = Some e' \<Longrightarrow>
   entry_token e = entry_token e' \<Longrightarrow> n = m"
  using ok_entry by (metis option.inject)

text \<open>The reconnect check succeeds exactly for the token of the waiting entry.\<close>

lemma reconnect_iff:
  assumes "mem_ok E reg"
  shows "mem_reconnect_entry E reg n rtok =
    (case mem_entry E reg n of
       Some e \<Rightarrow> if rtok = Some (entry_token e) then Some (entry_token e, e) else None
     | None \<Rightarrow> None)"
  using ok_entry [OF assms, of n]
  by (cases rtok)
    (auto simp: mem_reconnect_entry_def mem_entry_def mem_token_def split: option.splits bind_splits)

lemma register_resume:
  assumes "mem_ok E reg" and "mem_entry E reg n = Some e"
  shows "mem_register E n i (Some (entry_token e)) sp reg =
    (Inr (RResumed (entry_token e) (new_chan sp)),
     reg\<lparr>pairings := dm_alter (pairings_map E) n
           (\<lambda>e. e\<lparr>waiting_client := (waiting_client e)\<lparr>connection_info := i\<rparr>,
                  notify_tx := Some (new_chan sp)\<rparr>) (pairings reg)\<rparr>,
     drop_tx (notify_tx e))"
  using assms by (simp add: mem_register_def reconnect_iff)

lemma register_pair:
  assumes "mem_ok E reg" and "mem_entry E reg n = Some e" and "rtok \<noteq> Some (entry_token e)"
  shows "mem_register E n i rtok sp reg =
    (Inr (RPaired (new_v4 sp) (connection_info (waiting_client e))),
     reg\<lparr>pairings := snd (dm_remove (pairings_map E) n (pairings reg)),
         tokens := snd (dm_remove (tokens_map E) (entry_token e) (tokens reg))\<rparr>,
     send_tx (notify_tx e) i)"
  using assms by (cases rule: remove_obtain [of n reg]) (simp add: mem_register_def reconnect_iff)

lemma register_wait:
  assumes "mem_ok E reg" and "mem_entry E reg n = None"
  shows "mem_register E n i rtok sp reg =
    (Inr (RWaiting (new_v4 sp) (new_chan sp)),
     reg\<lparr>pairings := dm_insert (pairings_map E) n
           \<lparr>waiting_client = \<lparr>connection_info = i, reconnect_token = new_v4 sp,
               client_server_id = server_id (mem_config reg), registered_at = utc_now sp\<rparr>,
            notify_tx = Some (new_chan sp), created_at = instant_now sp\<rparr>
           (snd (dm_remove (pairings_map E) n (pairings reg))),
         tokens := dm_insert (tokens_map E) (new_v4 sp) n (tokens reg)\<rparr>, [])"
  using assms by (cases rule: remove_obtain [of n reg]) (simp add: mem_register_def reconnect_iff Let_def)

lemmas map_laws = mem_entry_def mem_token_def lookup_laws

text \<open>\<open>register\<close> case by case: what it does to the maps.\<close>

lemma resume_maps:
  assumes "mem_ok E reg" and "mem_entry E reg n = Some e"
    and "mem_register E n i (Some (entry_token e)) sp reg = (r, reg', ev)"
  shows "mem_entry E reg' m = (if m = n then
      Some (e\<lparr>waiting_client := (waiting_client e)\<lparr>connection_info := i\<rparr>, notify_tx := Some (new_chan sp)\<rparr>)
      else mem_entry E reg m)"
    and "mem_token E reg' t = mem_token E reg t"
    and "r = Inr (RResumed (entry_token e) (new_chan sp))" and "ev = drop_tx (notify_tx e)"
    and "mem_config reg' = mem_config reg"
  using assms register_resume [OF assms(1,2), of i sp] by (auto simp: map_laws)

lemma pair_maps:
  assumes "mem_ok E reg" and "mem_entry E reg n = Some e" and "rtok \<noteq> Some (entry_token e)"
    and "mem_register E n i rtok sp reg = (r, reg', ev)"
  shows "mem_entry E reg' m = (if m = n then None else mem_entry E reg m)"
    and "mem_token E reg' t = (if t = entry_token e then None else mem_token E reg t)"
    and "r = Inr (RPaired (new_v4 sp) (connection_info (waiting_client e)))"
    and "ev = send_tx (notify_tx e) i" and "mem_config reg' = mem_config reg"
  using assms register_pair [OF assms(1-3), of i sp] by (auto simp: map_laws)

lemma wait_maps:
  assumes "mem_ok E reg" and "mem_entry E reg n = None"
    and "mem_register E n i rtok sp reg = (r, reg', ev)"
  shows "mem_entry E reg' m = (if m = n then
      Some \<lparr>waiting_client = \<lparr>connection_info = i, reconnect_token = new_v4 sp,
               client_server_id = server_id (mem_config reg), registered_at = utc_now sp\<rparr>,
            notify_tx = Some (new_chan sp), created_at = instant_now sp\<rparr>
      else mem_entry E reg m)"
    and "mem_token E reg' t = (if t = new_v4 sp then Some n else mem_token E reg t)"
    and "r = Inr (RWaiting (new_v4 sp) (new_chan sp))" and "ev = []"
    and "mem_config reg' = mem_config reg"
  using assms register_wait [OF assms(1,2), of i rtok sp] by (auto simp: map_laws)

lemma register_cases [consumes 1, case_names Resume Pair Wait]:
  assumes "mem_ok E reg"
  obtains (Resume) e where "mem_entry E reg n = Some e" and "rtok = Some (entry_token e)"
  | (Pair) e where "mem_entry E reg n = Some e" and "rtok \<noteq> Some (entry_token e)"
  | (Wait) "mem_entry E reg n = None"
  by (cases "mem_entry E reg n") auto

lemma register_keeps_ok:
  assumes ok: "mem_ok E reg" and fresh: "mem_admits E sp reg"
    and step: "mem_register E n i rtok sp reg = (r, reg', ev)"
  shows "mem_ok E reg'"
  using ok
proof (cases rule: register_cases [of reg n rtok])
  case (Resume e)
  note maps = resume_maps [OF ok Resume(1) step [unfolded Resume(2)]]
  from ok ok_entry [OF ok Resume(1)] show ?thesis unfolding mem_ok_iff maps(1,2) by auto
next
  case (Pair e)
  note maps = pair_maps [OF ok Pair step]
  from ok ok_token_unique [OF ok Pair(1)] show ?thesis
    unfolding mem_ok_iff maps(1,2) by auto
next
  case Wait
  note maps = wait_maps [OF ok Wait step]
  have "entry_token e \<noteq> new_v4 sp" if "mem_entry E reg m = Some e" for m e
    using ok_entry [OF ok that] fresh by (auto simp: mem_admits_def)
  with ok show ?thesis unfolding mem_ok_iff maps(1,2) by auto
qed

lemma register_keeps_tight:
  assumes ok: "mem_ok E reg" and tight: "mem_tight E reg"
    and step: "mem_register E n i rtok sp reg = (r, reg', ev)"
  shows "mem_tight E reg'"
  using ok
proof (cases rule: register_cases [of reg n rtok])
  case (Resume e)
  note maps = resume_maps [OF ok Resume(1) step [unfolded Resume(2)]]
  from tight Resume(1) show ?thesis unfolding mem_tight_iff maps(1,2) by fastforce
next
  case (Pair e)
  note maps = pair_maps [OF ok Pair step]
  have "t = entry_token e" if "mem_token E reg t = Some n" for t
    using tight Pair(1) that unfolding mem_tight_iff by fastforce
  with tight show ?thesis unfolding mem_tight_iff maps(1,2) by auto
next
  case Wait
  note maps = wait_maps [OF ok Wait step]
  have "m \<noteq> n" if "mem_token E reg t = Some m" for t m
    using tight Wait that unfolding mem_tight_iff by fastforce
  with tight show ?thesis unfolding mem_tight_iff maps(1,2) by auto
qed

lemma register_refines_room:
  assumes ok: "mem_ok E reg" and step: "mem_register E n i rtok sp reg = (Inr r, reg', ev)"
  shows "room_register n i rtok sp (mem_room E reg) = (r, mem_room E reg', ev)"
  using ok
proof (cases rule: register_cases [of reg n rtok])
  case (Resume e)
  note maps = resume_maps [OF ok Resume(1) step [unfolded Resume(2)]]
  from ok_entry [OF ok Resume(1)] obtain c where "notify_tx e = Some c" by blast
  with Resume maps(3,4) show ?thesis
    by (auto simp: room_register_def mem_room_def maps(1) mem_slot_def drop_tx_def unwrap_or_def fun_eq_iff)
next
  case (Pair e)
  note maps = pair_maps [OF ok Pair step]
  from ok_entry [OF ok Pair(1)] obtain c where "notify_tx e = Some c" by blast
  with Pair maps(3,4) show ?thesis
    by (auto simp: room_register_def mem_room_def maps(1) mem_slot_def send_tx_def unwrap_or_def fun_eq_iff)
next
  case Wait
  note maps = wait_maps [OF ok Wait step]
  from Wait maps(3,4) show ?thesis
    by (auto simp: room_register_def mem_room_def maps(1) mem_slot_def unwrap_or_def fun_eq_iff)
qed

lemma unregister_maps:
  assumes "mem_unregister E n t reg = (r, reg', ev)"
  shows "mem_entry E reg' m = (if m = n then None else mem_entry E reg m)"
    and "mem_token E reg' u =
      (if u = t \<and> (\<exists>e. mem_entry E reg n = Some e \<and> entry_token e = t) then None else mem_token E reg u)"
    and "r = Inr ()" and "ev = (case mem_entry E reg n of None \<Rightarrow> [] | Some e \<Rightarrow> drop_tx (notify_tx e))"
    and "mem_config reg' = mem_config reg"
proof -
  obtain ps where rm: "dm_remove (pairings_map E) n (pairings reg) = (map_option (Pair n) (mem_entry E reg n), ps)"
    and ps: "snd (dm_remove (pairings_map E) n (pairings reg)) = ps"
    by (rule remove_obtain)
  have get: "dm_get (pairings_map E) m ps = (if m = n then None else mem_entry E reg m)" for m
    unfolding ps [symmetric] by (simp add: map_laws)
  note unfolded = assms [unfolded mem_unregister_def rm, symmetric]
  show "mem_entry E reg' m = (if m = n then None else mem_entry E reg m)"
    using unfolded by (auto simp: get mem_entry_def [of E reg'] split: option.splits)
  show "mem_token E reg' u =
      (if u = t \<and> (\<exists>e. mem_entry E reg n = Some e \<and> entry_token e = t) then None else mem_token E reg u)"
    using unfolded by (auto simp: mem_token_def t.get_remove split: option.splits)
  show "r = Inr ()" and "mem_config reg' = mem_config reg"
    and "ev = (case mem_entry E reg n of None \<Rightarrow> [] | Some e \<Rightarrow> drop_tx (notify_tx e))"
    using unfolded by (auto split: option.splits)
qed

lemma unregister_keeps_ok:
  assumes ok: "mem_ok E reg" and step: "mem_unregister E n t reg = (r, reg', ev)"
  shows "mem_ok E reg'"
proof -
  note maps = unregister_maps [OF step]
  show ?thesis
    unfolding mem_ok_iff
  proof (intro allI impI)
    fix m e
    assume "mem_entry E reg' m = Some e"
    then have m: "m \<noteq> n" "mem_entry E reg m = Some e"
      by (simp_all add: maps(1) split: if_splits)
    then have "mem_entry E reg n \<noteq> Some e'" if "entry_token e' = entry_token e" for e'
      using ok_token_unique [OF ok m(2)] that by metis
    then show "mem_token E reg' (entry_token e) = Some m \<and> notify_tx e \<noteq> None"
      using ok_entry [OF ok m(2)] by (auto simp: maps(2))
  qed
qed

lemma unregister_refines_room:
  assumes ok: "mem_ok E reg" and step: "mem_unregister E n t reg = (r, reg', ev)"
  shows "room_unregister n (mem_room E reg) = (mem_room E reg', ev)"
proof -
  note maps = unregister_maps [OF step]
  show ?thesis
  proof (cases "mem_entry E reg n")
    case None
    then show ?thesis by (auto simp: room_unregister_def mem_room_def maps(1,4) fun_eq_iff)
  next
    case (Some e)
    moreover from ok_entry [OF ok Some] obtain c where "notify_tx e = Some c" by blast
    ultimately show ?thesis
      by (auto simp: room_unregister_def mem_room_def maps(1,4) mem_slot_def drop_tx_def unwrap_or_def fun_eq_iff)
  qed
qed

lemma new_ok: "mem_ok E (mem_new E config)" "mem_tight E (mem_new E config)"
  "mem_room E (mem_new E config) = Map.empty"
  by (simp_all add: mem_ok_iff mem_tight_iff mem_room_def mem_entry_def mem_token_def mem_new_def
      p.get_new t.get_new fun_eq_iff)

end

subsection \<open>Expiry\<close>

definition expired :: "duration \<Rightarrow> instant \<Rightarrow> pairing_entry \<Rightarrow> bool" where
  "expired timeout now e \<longleftrightarrow> duration_since now (created_at e) > timeout"

definition sweep_entry ::
    "('p, 't) mem_env \<Rightarrow> duration \<Rightarrow> instant \<Rightarrow> rust_string \<Rightarrow> pairing_entry \<Rightarrow> 't sweep \<Rightarrow> 't sweep" where
  "sweep_entry E timeout now n e st = snd (cleanup_visit E timeout now n e st)"

lemma cleanup_visit_pure:
  "cleanup_visit E timeout now n e st = (\<not> expired timeout now e, sweep_entry E timeout now n e st)"
  by (cases st) (simp add: sweep_entry_def cleanup_visit_def expired_def)

context mem_backend
begin

lemma sweep_fold:
  "fold (\<lambda>(k, v). sweep_entry E timeout now k v) es (toks, c, d) = (toks', c', d') \<Longrightarrow>
   dm_get (tokens_map E) t toks' =
     (if \<exists>(k, v)\<in>set es. expired timeout now v \<and> entry_token v = t then None
      else dm_get (tokens_map E) t toks)
   \<and> c' = c + length (filter (\<lambda>(k, v). expired timeout now v) es)
   \<and> d' = d @ concat (map (\<lambda>(k, v). drop_tx (notify_tx v)) (filter (\<lambda>(k, v). expired timeout now v) es))"
proof (induction es arbitrary: toks c d)
  case (Cons x es)
  obtain k v where x: "x = (k, v)" by (cases x)
  show ?case
  proof (cases "expired timeout now v")
    case True
    then have "sweep_entry E timeout now k v (toks, c, d) =
        (snd (dm_remove (tokens_map E) (entry_token v) toks), c + 1, d @ drop_tx (notify_tx v))"
      by (simp add: sweep_entry_def cleanup_visit_def expired_def)
    with Cons.prems have "fold (\<lambda>(k, v). sweep_entry E timeout now k v) es
        (snd (dm_remove (tokens_map E) (entry_token v) toks), c + 1, d @ drop_tx (notify_tx v)) = (toks', c', d')"
      by (simp add: x)
    from Cons.IH [OF this] True show ?thesis by (auto simp: x t.get_remove)
  next
    case False
    then have "sweep_entry E timeout now k v (toks, c, d) = (toks, c, d)"
      by (simp add: sweep_entry_def cleanup_visit_def expired_def)
    with Cons.prems have "fold (\<lambda>(k, v). sweep_entry E timeout now k v) es (toks, c, d) = (toks', c', d')"
      by (simp add: x)
    from Cons.IH [OF this] False show ?thesis by (auto simp: x)
  qed
qed simp

lemma cleanup_maps:
  assumes step: "mem_cleanup_expired E now reg = (cleaned, reg', ev)"
  defines "timeout \<equiv> pairing_timeout (mem_config reg)"
  shows "mem_entry E reg' n =
      (case mem_entry E reg n of Some e \<Rightarrow> if expired timeout now e then None else Some e | None \<Rightarrow> None)"
    and "mem_token E reg' t =
      (if \<exists>n e. mem_entry E reg n = Some e \<and> expired timeout now e \<and> entry_token e = t then None
       else mem_token E reg t)"
    and "cleaned = length (filter (\<lambda>(n, e). expired timeout now e) (dm_iter (pairings_map E) (pairings reg)))"
    and "ev = concat (map (\<lambda>(n, e). drop_tx (notify_tx e))
          (filter (\<lambda>(n, e). expired timeout now e) (dm_iter (pairings_map E) (pairings reg))))"
    and "mem_config reg' = mem_config reg"
proof -
  let ?es = "dm_iter (pairings_map E) (pairings reg)"
  let ?ret = "dm_retain (pairings_map E) (cleanup_visit E timeout now) (pairings reg) (tokens reg, 0, [])"
  have entries: "retain_entries (cleanup_visit E timeout now) ?es st =
      (filter (\<lambda>(k, v). \<not> expired timeout now v) ?es, fold (\<lambda>(k, v). sweep_entry E timeout now k v) ?es st)" for st
    by (rule retain_entries_pure) (rule cleanup_visit_pure)
  obtain ps ts c d where ret: "?ret = (ps, ts, c, d)" by (cases ?ret) auto
  have get: "dm_get (pairings_map E) n ps = map_of (filter (\<lambda>(k, v). \<not> expired timeout now v) ?es) n" for n
    using p.get_retain [of n "cleanup_visit E timeout now" "pairings reg" "(tokens reg, 0, [])"] ret entries by simp
  have fold: "fold (\<lambda>(k, v). sweep_entry E timeout now k v) ?es (tokens reg, 0, []) = (ts, c, d)"
    using p.snd_retain [of "cleanup_visit E timeout now" "pairings reg" "(tokens reg, 0, [])"] ret entries by simp
  have res: "cleaned = c" "ev = d" "reg' = reg\<lparr>pairings := ps, tokens := ts\<rparr>"
    using step ret by (simp_all add: mem_cleanup_expired_def timeout_def)
  show "mem_entry E reg' n =
      (case mem_entry E reg n of Some e \<Rightarrow> if expired timeout now e then None else Some e | None \<Rightarrow> None)"
    by (simp add: res(3) mem_entry_def get dom_map_of_filter_distinct [OF p.iter_distinct] p.iter_entries
        split: option.splits)
  show "mem_token E reg' t =
      (if \<exists>n e. mem_entry E reg n = Some e \<and> expired timeout now e \<and> entry_token e = t then None
       else mem_token E reg t)"
  proof -
    have "(\<exists>(k, v)\<in>set ?es. expired timeout now v \<and> entry_token v = t) \<longleftrightarrow>
        (\<exists>n e. mem_entry E reg n = Some e \<and> expired timeout now e \<and> entry_token e = t)"
      by (simp add: Bex_def mem_entry_def p.iter_iff)
    moreover have "mem_token E reg' t = dm_get (tokens_map E) t ts"
      by (simp add: res(3) mem_token_def)
    ultimately show ?thesis
      using sweep_fold [OF fold, of t, THEN conjunct1] by (simp only: mem_token_def)
  qed
  show "cleaned = length (filter (\<lambda>(n, e). expired timeout now e) ?es)"
    and "ev = concat (map (\<lambda>(n, e). drop_tx (notify_tx e)) (filter (\<lambda>(n, e). expired timeout now e) ?es))"
    and "mem_config reg' = mem_config reg"
    using sweep_fold [OF fold] res by simp_all
qed

lemma cleanup_keeps_ok:
  assumes ok: "mem_ok E reg" and step: "mem_cleanup_expired E now reg = (cleaned, reg', ev)"
  shows "mem_ok E reg'"
  unfolding mem_ok_iff
proof (intro allI impI)
  note maps = cleanup_maps [OF step]
  fix m e
  assume "mem_entry E reg' m = Some e"
  then have m: "mem_entry E reg m = Some e" "\<not> expired (pairing_timeout (mem_config reg)) now e"
    by (simp_all add: maps(1) split: option.splits if_splits)
  have "e' = e" if "mem_entry E reg n = Some e'" and "entry_token e' = entry_token e" for n e'
    using ok_token_unique [OF ok that(1) m(1) that(2)] that(1) m(1) by simp
  then show "mem_token E reg' (entry_token e) = Some m \<and> notify_tx e \<noteq> None"
    using ok_entry [OF ok m(1)] m(2) by (auto simp: maps(2))
qed

text \<open>Coherent and tight maps have the same number of elements.\<close>

lemma tight_sizes:
  assumes ok: "mem_ok E reg" and tight: "mem_tight E reg"
  shows "dm_len (tokens_map E) (tokens reg) = dm_len (pairings_map E) (pairings reg)"
proof -
  let ?T = "{t. mem_token E reg t \<noteq> None}" and ?P = "{n. mem_entry E reg n \<noteq> None}"
  have "bij_betw (\<lambda>n. entry_token (the (mem_entry E reg n))) ?P ?T"
  proof (rule bij_betw_imageI)
    show "inj_on (\<lambda>n. entry_token (the (mem_entry E reg n))) ?P"
      using ok_token_unique [OF ok] by (auto intro!: inj_onI)
    show "(\<lambda>n. entry_token (the (mem_entry E reg n))) ` ?P = ?T"
      using tight ok unfolding mem_tight_iff mem_ok_iff by (force simp: image_iff)
  qed
  then have "card ?P = card ?T" by (rule bij_betw_same_card)
  then show ?thesis by (simp add: p.len_card t.len_card mem_token_def mem_entry_def)
qed

end

text \<open>A sweep, as seen by the contract: the names of the entries that were dropped.\<close>

definition mem_expires ::
    "('p, 't) mem_env \<Rightarrow> ('p, 't) in_memory_registry \<Rightarrow> rust_string list
     \<Rightarrow> ('p, 't) in_memory_registry \<Rightarrow> reg_event list \<Rightarrow> bool" where
  "mem_expires E reg ns reg' ev \<longleftrightarrow>
     (\<exists>now cleaned. mem_cleanup_expired E now reg = (cleaned, reg', ev) \<and>
        ns = map fst (filter (\<lambda>(n, e). expired (pairing_timeout (mem_config reg)) now e)
                        (dm_iter (pairings_map E) (pairings reg))))"

context mem_backend
begin

lemma room_expire_entries:
  assumes "distinct (map fst es)" and "\<And>n e. (n, e) \<in> set es \<Longrightarrow> R n = Some (mem_slot e) \<and> notify_tx e \<noteq> None"
  shows "snd (room_expire (map fst es) R) = concat (map (\<lambda>(n, e). drop_tx (notify_tx e)) es)"
  using assms
proof (induction es arbitrary: R)
  case (Cons x es)
  obtain n e where x: "x = (n, e)" by (cases x)
  from Cons.prems(2) [of n e] obtain c where e: "R n = Some (mem_slot e)" "notify_tx e = Some c"
    by (auto simp: x)
  have "snd (room_expire (map fst es) (R(n := None))) = concat (map (\<lambda>(n, e). drop_tx (notify_tx e)) es)"
  proof (rule Cons.IH)
    show "(R(n := None)) m = Some (mem_slot e') \<and> notify_tx e' \<noteq> None" if "(m, e') \<in> set es" for m e'
      using Cons.prems that by (force simp: x)
  qed (use Cons.prems(1) in simp)
  with e show ?case
    by (auto simp: x room_unregister_def mem_slot_def drop_tx_def unwrap_or_def split: prod.splits)
qed simp

lemma expires_refines_room:
  assumes ok: "mem_ok E reg" and step: "mem_expires E reg ns reg' ev"
  shows "mem_ok E reg' \<and> room_expire ns (mem_room E reg) = (mem_room E reg', ev)"
proof -
  let ?x = "\<lambda>now e. expired (pairing_timeout (mem_config reg)) now e"
  let ?es = "\<lambda>now. filter (\<lambda>(n, e). ?x now e) (dm_iter (pairings_map E) (pairings reg))"
  from step obtain now cleaned where sweep: "mem_cleanup_expired E now reg = (cleaned, reg', ev)"
    and ns: "ns = map fst (?es now)" unfolding mem_expires_def by blast
  note maps = cleanup_maps [OF sweep]
  have in_es: "(n, e) \<in> set (?es now) \<longleftrightarrow> mem_entry E reg n = Some e \<and> ?x now e" for n e
    by (auto simp: p.iter_iff mem_entry_def)
  have dist: "distinct (map fst (?es now))"
    using p.iter_distinct distinct_map_filter by blast
  have "snd (room_expire ns (mem_room E reg)) = ev"
    unfolding ns maps(4) using ok_entry [OF ok] in_es
    by (intro room_expire_entries [OF dist]) (auto simp: mem_room_def simp del: set_filter)
  moreover have "fst ` set (?es now) = {n. \<exists>e. mem_entry E reg n = Some e \<and> ?x now e}"
    using in_es by (force simp: image_iff simp del: set_filter)
  then have "fst (room_expire ns (mem_room E reg)) = mem_room E reg'"
    by (auto simp: room_expire_room ns restrict_map_def mem_room_def maps(1) fun_eq_iff
        simp del: set_filter split: option.splits)
  ultimately show ?thesis
    using cleanup_keeps_ok [OF ok sweep] by (metis prod.collapse)
qed

end

text \<open>The in-memory backend fulfils the contract of a pairing registry.\<close>

sublocale mem_backend \<subseteq> contract: pairing_registry "mem_ok E" "mem_room E" "mem_admits E" "\<lambda>_ _ _. True"
  "mem_expires E"
  "mem_register E" "mem_unregister E"
  by unfold_locales
    (auto dest: register_keeps_ok register_refines_room unregister_keeps_ok unregister_refines_room
      expires_refines_room)

context mem_backend
begin

lemmas backend_rendezvous = contract.rendezvous
lemmas backend_reconnect = contract.reconnect_rendezvous
lemmas backend_introduction = contract.mutual_introduction [OF _ new_ok(1,3)]
lemmas backend_single_delivery = contract.single_delivery [OF _ new_ok(1,3)]
lemmas backend_history_refines = contract.history_refines [OF _ new_ok(1,3)]

end

subsection \<open>An executable instance\<close>

definition alist_env ::
    "((rust_string, pairing_entry) alist, (uuid, rust_string) alist) mem_env" where
  "alist_env = \<lparr>pairings_map = alist_ops, tokens_map = alist_ops\<rparr>"

interpretation alist_mem: mem_backend alist_env
  unfolding mem_backend_def by (simp add: alist_env_def alist.dashmap_axioms)

text \<open>A registry in which one client waits under the name \<open>room\<close>, for the witnesses.\<close>

definition demo_config :: registry_config where
  "demo_config = \<lparr>pairing_timeout = from_secs 60, cleanup_interval = from_secs 30, server_id = str ''srv''\<rparr>"

definition demo_runtime :: "nat \<Rightarrow> runtime" where
  "demo_runtime k = \<lparr>new_v4 = word_of_nat k, new_chan = k, utc_now = 0, instant_now = 0\<rparr>"

definition demo_peer :: "nat \<Rightarrow> peer_connection_data" where
  "demo_peer k = peer_new (Ipv4Addr 10 0 0 (word_of_nat k)) 4000"

abbreviation demo_name :: rust_string where
  "demo_name \<equiv> str ''room''"

definition demo0 :: "((rust_string, pairing_entry) alist, (uuid, rust_string) alist) in_memory_registry" where
  "demo0 = mem_new alist_env demo_config"

definition demo1 :: "((rust_string, pairing_entry) alist, (uuid, rust_string) alist) in_memory_registry" where
  "demo1 = fst (snd (mem_register alist_env demo_name (demo_peer 1) None (demo_runtime 1) demo0))"

definition demo_entry :: pairing_entry where
  "demo_entry = \<lparr>waiting_client = \<lparr>connection_info = demo_peer 1, reconnect_token = 1,
      client_server_id = str ''srv'', registered_at = 0\<rparr>, notify_tx = Some 1, created_at = 0\<rparr>"

lemma demo0_facts: "mem_ok alist_env demo0" "mem_tight alist_env demo0" "mem_entry alist_env demo0 n = None"
  "mem_token alist_env demo0 u = None" "mem_config demo0 = demo_config"
  using alist_mem.new_ok [of demo_config]
  by (simp_all add: demo0_def mem_new_def mem_entry_def mem_token_def alist_mem.p.get_new alist_mem.t.get_new)

lemma demo_register:
  "mem_register alist_env demo_name (demo_peer 1) None (demo_runtime 1) demo0 = (Inr (RWaiting 1 1), demo1, [])"
  using alist_mem.register_wait [OF demo0_facts(1,3)] by (simp add: demo1_def demo_runtime_def)

lemma demo1_facts: "mem_ok alist_env demo1" "mem_tight alist_env demo1"
  "mem_entry alist_env demo1 n = (if n = demo_name then Some demo_entry else None)"
  "mem_token alist_env demo1 u = (if u = 1 then Some demo_name else None)"
  "mem_config demo1 = demo_config" "mem_admits alist_env (demo_runtime 2) demo1"
proof -
  note maps = alist_mem.wait_maps [OF demo0_facts(1,3) demo_register]
  show "mem_ok alist_env demo1"
    by (rule alist_mem.register_keeps_ok [OF demo0_facts(1) _ demo_register])
      (simp add: mem_admits_def demo0_facts)
  show "mem_tight alist_env demo1"
    by (rule alist_mem.register_keeps_tight [OF demo0_facts(1,2) demo_register])
  show "mem_entry alist_env demo1 n = (if n = demo_name then Some demo_entry else None)"
    by (simp add: maps(1) demo0_facts demo_entry_def demo_runtime_def demo_config_def)
  show tok: "mem_token alist_env demo1 u = (if u = 1 then Some demo_name else None)" for u
    by (simp add: maps(2) demo0_facts demo_runtime_def)
  show "mem_config demo1 = demo_config" by (simp add: maps(5) demo0_facts)
  show "mem_admits alist_env (demo_runtime 2) demo1"
    by (simp add: mem_admits_def tok demo_runtime_def)
qed

lemma demo_room: "mem_room alist_env demo1 =
  [demo_name \<mapsto> \<lparr>slot_token = 1, slot_info = demo_peer 1, slot_chan = 1\<rparr>]"
  by (auto simp: mem_room_def demo1_facts fun_eq_iff mem_slot_def demo_entry_def unwrap_or_def)

definition mem_history ::
    "('p, 't) mem_env \<Rightarrow> registry_config \<Rightarrow> reg_step list \<Rightarrow> ('p, 't) in_memory_registry \<Rightarrow> bool" where
  "mem_history E config H reg \<longleftrightarrow>
     backend_history (mem_admits E) (\<lambda>_ _ _. True) (mem_expires E) (mem_register E) (mem_unregister E)
       (mem_new E config) H reg"

lemma demo_history:
  "mem_history alist_env demo_config
     [(OpRegister demo_name (demo_peer 1) None (demo_runtime 1), Some (RWaiting 1 1), [])] demo1"
proof -
  have "mem_admits alist_env (demo_runtime 1) demo0"
    by (simp add: mem_admits_def demo0_facts)
  then show ?thesis
    unfolding mem_history_def demo0_def [symmetric]
    using backend_history.register [where H = "[]" and register = "mem_register alist_env"
        and admits = "mem_admits alist_env" and s = demo0 and sp = "demo_runtime 1",
        OF backend_history.start _ demo_register] by auto
qed

subsection \<open>Properties of the in-memory backend\<close>

text \<open>
  Claim C6. On coherent maps and with a fresh identifier, \<open>register\<close> always succeeds, keeps the
  maps coherent, and does exactly what the waiting room specifies: a first client waits, the
  holder of the waiting client's token resumes, and any other client is paired and its address
  is sent to the waiting one.
\<close>

theorem mem_register_refines_room:
  assumes "mem_backend E" and "mem_ok E reg" and "mem_admits E sp reg"
  shows "\<exists>r reg' ev. mem_register E n i t sp reg = (Inr r, reg', ev) \<and> mem_ok E reg' \<and>
    room_register n i t sp (mem_room E reg) = (r, mem_room E reg', ev)"
proof -
  obtain x reg' ev where step: "mem_register E n i t sp reg = (x, reg', ev)"
    by (cases "mem_register E n i t sp reg") auto
  then obtain r where "x = Inr r"
    by (auto simp: mem_register_def Let_def split: option.splits prod.splits)
  with step show ?thesis
    using mem_backend.register_keeps_ok [OF assms] mem_backend.register_refines_room [OF assms(1,2)]
    by blast
qed

theorem mem_register_refines_room_witness:
  "\<exists>r reg' ev. mem_register alist_env demo_name (demo_peer 2) None (demo_runtime 2) demo1 = (Inr r, reg', ev) \<and>
    room_register demo_name (demo_peer 2) None (demo_runtime 2) (mem_room alist_env demo1)
      = (r, mem_room alist_env reg', ev)"
  using mem_register_refines_room [OF alist_mem.mem_backend_axioms demo1_facts(1,6)] by blast

text \<open>
  Two clients that register under the same name, the second without the first one's
  token, are introduced to each other: the first waits, the second gets the first one's
  address, the first one's channel receives the second one's address, and the registry is
  left as it was before.
\<close>

theorem mem_rendezvous:
  assumes "mem_backend E" and "mem_ok E reg" and "mem_entry E reg n = None"
    and "mem_admits E spA reg" and "mem_register E n iA tA spA reg = (xA, reg1, evA)"
    and "mem_admits E spB reg1" and "mem_register E n iB tB spB reg1 = (xB, reg2, evB)"
    and "tB \<noteq> Some (new_v4 spA)"
  shows "xA = Inr (RWaiting (new_v4 spA) (new_chan spA)) \<and> xB = Inr (RPaired (new_v4 spB) iA) \<and>
    evA = [] \<and> evB = [ChanSend (new_chan spA) iB] \<and> mem_room E reg2 = mem_room E reg"
proof -
  have "\<exists>r. xA = Inr r" "\<exists>r. xB = Inr r"
    using assms(5,7) by (auto simp: mem_register_def Let_def split: option.splits prod.splits)
  then show ?thesis
    using mem_backend.backend_rendezvous [OF assms(1,2) _ assms(4,6) _ _ assms(8)] assms(3,5,7)
    by (auto simp: mem_room_def)
qed

theorem mem_rendezvous_witness:
  "\<exists>reg2. mem_register alist_env demo_name (demo_peer 2) None (demo_runtime 2) demo1 =
     (Inr (RPaired 2 (demo_peer 1)), reg2, [ChanSend 1 (demo_peer 2)]) \<and>
     mem_room alist_env reg2 = Map.empty"
proof -
  obtain xB reg2 evB where B: "mem_register alist_env demo_name (demo_peer 2) None (demo_runtime 2) demo1 = (xB, reg2, evB)"
    by (cases "mem_register alist_env demo_name (demo_peer 2) None (demo_runtime 2) demo1") auto
  have "mem_admits alist_env (demo_runtime 1) demo0" by (simp add: mem_admits_def demo0_facts)
  from mem_rendezvous [OF alist_mem.mem_backend_axioms demo0_facts(1,3) this demo_register demo1_facts(6) B]
  show ?thesis
    using B alist_mem.new_ok(3) [of demo_config] by (simp add: demo_runtime_def demo0_def)
qed

text \<open>
  A client that lost its connection and comes back with its token keeps its place: its
  old channel is dropped, and the next client under that name is introduced to the new
  address and notifies the new channel.
\<close>

theorem mem_reconnect:
  assumes "mem_backend E" and "mem_ok E reg" and "mem_entry E reg n = Some e"
    and "mem_admits E spA reg" and "mem_register E n iA (Some (entry_token e)) spA reg = (xA, reg1, evA)"
    and "mem_admits E spB reg1" and "mem_register E n iB tB spB reg1 = (xB, reg2, evB)"
    and "tB \<noteq> Some (entry_token e)"
  shows "xA = Inr (RResumed (entry_token e) (new_chan spA)) \<and> xB = Inr (RPaired (new_v4 spB) iA) \<and>
    evA = drop_tx (notify_tx e) \<and> evB = [ChanSend (new_chan spA) iB] \<and> mem_entry E reg2 n = None"
proof -
  have r: "\<exists>r. xA = Inr r" "\<exists>r. xB = Inr r"
    using assms(5,7) by (auto simp: mem_register_def Let_def split: option.splits prod.splits)
  have room: "mem_room E reg n = Some (mem_slot e)" using assms(3) by (simp add: mem_room_def)
  obtain c where "notify_tx e = Some c"
    using mem_backend.ok_entry [OF assms(1-3)] by blast
  then show ?thesis
    using mem_backend.backend_reconnect [OF assms(1,2) room assms(4,6)] r assms(5,7,8)
    by (auto simp: mem_room_def mem_slot_def drop_tx_def unwrap_or_def)
qed

theorem mem_reconnect_witness:
  "\<exists>reg1. mem_register alist_env demo_name (demo_peer 3) (Some 1) (demo_runtime 2) demo1 =
     (Inr (RResumed 1 2), reg1, [ChanDrop 1])"
proof -
  obtain xA reg1 evA where A: "mem_register alist_env demo_name (demo_peer 3) (Some 1) (demo_runtime 2) demo1 = (xA, reg1, evA)"
    by (cases "mem_register alist_env demo_name (demo_peer 3) (Some 1) (demo_runtime 2) demo1") auto
  obtain xB reg2 evB where B: "mem_register alist_env demo_name (demo_peer 4) None (demo_runtime 3) reg1 = (xB, reg2, evB)"
    by (cases "mem_register alist_env demo_name (demo_peer 4) None (demo_runtime 3) reg1") auto
  have e: "mem_entry alist_env demo1 demo_name = Some demo_entry" "entry_token demo_entry = 1"
    by (simp_all add: demo1_facts demo_entry_def)
  note maps = alist_mem.resume_maps [OF demo1_facts(1) e(1), unfolded e(2), OF A]
  have "mem_admits alist_env (demo_runtime 3) reg1"
    by (simp add: mem_admits_def maps(2) demo1_facts(4) demo_runtime_def)
  from mem_reconnect [OF alist_mem.mem_backend_axioms demo1_facts(1) e(1) demo1_facts(6), unfolded e(2), OF A this B]
  show ?thesis using A by (simp add: demo_runtime_def demo_entry_def drop_tx_def)
qed

text \<open>
  In every history of calls on a new registry (registrations, unregistrations and
  sweeps in any order, with any tokens), a client that is told it is paired is given the
  address of an earlier registration under the same name that was told to wait, its own
  address is sent on exactly that registration's channel, and it did not present that
  registration's token.
\<close>

theorem mem_mutual_introduction:
  assumes "mem_backend E" and "mem_history E config H reg" and "mem_admits E sp reg"
    and "mem_register E n i t sp reg = (Inr (RPaired tok p), reg', ev)"
  shows "\<exists>t' sp' r ev' u. (OpRegister n p t' sp', Some r, ev') \<in> set H \<and>
    (r = RWaiting u (new_chan sp') \<or> r = RResumed u (new_chan sp')) \<and> t \<noteq> Some u \<and>
    ev = [ChanSend (new_chan sp') i]"
  using mem_backend.backend_introduction [OF assms(1) assms(2) [unfolded mem_history_def] assms(3,4)] .

theorem mem_mutual_introduction_witness:
  "\<exists>t' sp' r ev' u. (OpRegister demo_name (demo_peer 1) t' sp', Some r, ev') \<in>
      set [(OpRegister demo_name (demo_peer 1) None (demo_runtime 1), Some (RWaiting 1 1), [] :: reg_event list)] \<and>
    (r = RWaiting u (new_chan sp') \<or> r = RResumed u (new_chan sp')) \<and> None \<noteq> Some u \<and>
    [ChanSend 1 (demo_peer 2)] = [ChanSend (new_chan sp') (demo_peer 2)]"
proof -
  have "demo_entry = demo_entry \<and> None \<noteq> Some (entry_token demo_entry)" by simp
  then have "mem_register alist_env demo_name (demo_peer 2) None (demo_runtime 2) demo1 =
      (Inr (RPaired 2 (demo_peer 1)),
       fst (snd (mem_register alist_env demo_name (demo_peer 2) None (demo_runtime 2) demo1)), [ChanSend 1 (demo_peer 2)])"
    using alist_mem.register_pair [OF demo1_facts(1), of demo_name demo_entry None "demo_peer 2" "demo_runtime 2"]
    by (simp add: demo1_facts(3) demo_entry_def send_tx_def demo_runtime_def)
  from mem_mutual_introduction [OF alist_mem.mem_backend_axioms demo_history demo1_facts(6) this]
  show ?thesis .
qed

text \<open>
  If the runtime hands out distinct channels, then in every history at most one thing
  happens on each channel: a waiting client is notified at most once or dropped once, never
  both, and nothing has happened yet on the channel of a client that is still waiting.
\<close>

theorem mem_single_delivery:
  assumes "mem_backend E" and "mem_history E config H reg" and "distinct (history_chans H)"
  shows "distinct (map event_chan (history_events H)) \<and>
    (\<forall>n e c. mem_entry E reg n = Some e \<longrightarrow> notify_tx e = Some c \<longrightarrow> c \<notin> event_chan ` set (history_events H))"
  using mem_backend.backend_single_delivery [OF assms(1) assms(2) [unfolded mem_history_def] assms(3)]
  by (force simp: mem_room_def mem_slot_def unwrap_or_def split: option.splits)

theorem mem_single_delivery_witness:
  "distinct (map event_chan (history_events
     [(OpRegister demo_name (demo_peer 1) None (demo_runtime 1), Some (RWaiting 1 1), [])]))"
  using mem_single_delivery [OF alist_mem.mem_backend_axioms demo_history]
  by (simp add: history_chans_def)

text \<open>
  A reconnect token that the waiting entry of the name does not carry, be it unknown,
  expired or issued for another name, changes nothing: the call behaves as without a token, so
  a wrong token is never answered by an error.
\<close>

theorem mem_foreign_token_ignored:
  assumes "\<forall>e. mem_entry E reg n = Some e \<longrightarrow> entry_token e \<noteq> u"
  shows "mem_register E n i (Some u) sp reg = mem_register E n i None sp reg
    \<and> (\<exists>r. fst (mem_register E n i (Some u) sp reg) = Inr r)"
proof -
  have "mem_reconnect_entry E reg n (Some u) = None" "mem_reconnect_entry E reg n None = None"
    using assms by (auto simp: mem_reconnect_entry_def mem_entry_def split: bind_splits)
  then show ?thesis
    by (auto simp: mem_register_def Let_def split: option.splits prod.splits)
qed

theorem mem_foreign_token_ignored_witness:
  "mem_register alist_env demo_name (demo_peer 2) (Some 77) (demo_runtime 2) demo1 =
   mem_register alist_env demo_name (demo_peer 2) None (demo_runtime 2) demo1"
  using mem_foreign_token_ignored [of alist_env demo1 demo_name 77]
  by (simp add: demo1_facts demo_entry_def)

text \<open>
  \<open>unregister\<close> looks at the token only after it has removed the entry. Called with the
  token of the waiting client it removes that client and its token; called with any other
  token it still evicts the waiting client and drops its channel, and it leaves the evicted
  client's token behind in the token map.
\<close>

theorem mem_unregister_evicts:
  assumes "mem_backend E" and "mem_ok E reg" and "mem_entry E reg n = Some e"
    and "mem_unregister E n t reg = (x, reg', ev)"
  shows "x = Inr () \<and> mem_entry E reg' n = None \<and> ev = drop_tx (notify_tx e) \<and>
    mem_token E reg' (entry_token e) = (if t = entry_token e then None else Some n) \<and>
    (t \<noteq> entry_token e \<longrightarrow> \<not> mem_tight E reg')"
proof -
  note maps = mem_backend.unregister_maps [OF assms(1,4)]
  have "mem_token E reg (entry_token e) = Some n"
    using mem_backend.ok_entry [OF assms(1-3)] by simp
  then have tok: "mem_token E reg' (entry_token e) = (if t = entry_token e then None else Some n)"
    using assms(3) by (auto simp: maps(2))
  moreover have "\<not> mem_tight E reg'" if "t \<noteq> entry_token e"
  proof
    assume "mem_tight E reg'"
    with that tok obtain e' where "mem_entry E reg' n = Some e'"
      unfolding mem_backend.mem_tight_iff [OF assms(1)] by metis
    then show False by (simp add: maps(1))
  qed
  ultimately show ?thesis using assms(3) by (simp add: maps)
qed

theorem mem_unregister_evicts_witness:
  "\<exists>reg' ev. mem_unregister alist_env demo_name 77 demo1 = (Inr (), reg', ev) \<and>
     mem_entry alist_env reg' demo_name = None \<and> mem_token alist_env reg' 1 = Some demo_name"
proof -
  obtain x reg' ev where u: "mem_unregister alist_env demo_name 77 demo1 = (x, reg', ev)"
    by (cases "mem_unregister alist_env demo_name 77 demo1") auto
  have e: "mem_entry alist_env demo1 demo_name = Some demo_entry" "entry_token demo_entry = 1"
    by (simp_all add: demo1_facts demo_entry_def)
  from mem_unregister_evicts [OF alist_mem.mem_backend_axioms demo1_facts(1) e(1) u] show ?thesis
    using u by (simp add: e)
qed

text \<open>One call on the registry, by any client or by the sweep.\<close>

inductive mem_step ::
    "('p, 't) mem_env \<Rightarrow> ('p, 't) in_memory_registry \<Rightarrow> ('p, 't) in_memory_registry \<Rightarrow> bool" for E where
  register: "mem_admits E sp reg \<Longrightarrow> mem_register E n i t sp reg = (x, reg', ev) \<Longrightarrow> mem_step E reg reg'"
| unregister: "mem_unregister E n t reg = (x, reg', ev) \<Longrightarrow> mem_step E reg reg'"
| cleanup: "mem_cleanup_expired E now reg = (k, reg', ev) \<Longrightarrow> mem_step E reg reg'"

inductive_cases mem_stepE: "mem_step E reg reg'"

definition stale_token :: "('p, 't) mem_env \<Rightarrow> ('p, 't) in_memory_registry \<Rightarrow> uuid \<Rightarrow> rust_string \<Rightarrow> bool" where
  "stale_token E reg u n \<longleftrightarrow> mem_token E reg u = Some n \<and>
     list_all (\<lambda>(m, e). entry_token e \<noteq> u) (dm_iter (pairings_map E) (pairings reg))"

context mem_backend
begin

lemma stale_token_iff:
  "stale_token E reg u n \<longleftrightarrow>
     mem_token E reg u = Some n \<and> (\<forall>m e. mem_entry E reg m = Some e \<longrightarrow> entry_token e \<noteq> u)"
  by (simp add: stale_token_def p.iter_all mem_entry_def)

lemma step_keeps_ok: "mem_step E reg reg' \<Longrightarrow> mem_ok E reg \<Longrightarrow> mem_ok E reg'"
  by (auto elim!: mem_stepE intro: register_keeps_ok unregister_keeps_ok cleanup_keeps_ok)

lemma step_keeps_stale:
  assumes ok: "mem_ok E reg" and stale: "stale_token E reg u n" and step: "mem_step E reg reg'"
  shows "stale_token E reg' u n"
  using step
proof cases
  case (register sp m i t x ev)
  from ok show ?thesis
  proof (cases rule: register_cases [of reg m t])
    case (Resume e)
    note maps = resume_maps [OF ok Resume(1) register(2) [unfolded Resume(2)]]
    from stale Resume(1) show ?thesis unfolding stale_token_iff maps(1,2) by auto
  next
    case (Pair e)
    note maps = pair_maps [OF ok Pair register(2)]
    from stale Pair(1) show ?thesis unfolding stale_token_iff maps(1,2) by auto
  next
    case Wait
    note maps = wait_maps [OF ok Wait register(2)]
    from stale register(1) show ?thesis
      unfolding stale_token_iff maps(1,2) mem_admits_def by auto
  qed
next
  case (unregister m t x ev)
  note maps = unregister_maps [OF unregister]
  from stale show ?thesis unfolding stale_token_iff maps(1,2) by auto
next
  case (cleanup now k ev)
  note maps = cleanup_maps [OF cleanup]
  from stale show ?thesis
    unfolding stale_token_iff by (auto simp: maps(1,2) split: option.splits if_splits)
qed

lemma steps_keep:
  assumes "(mem_step E)\<^sup>*\<^sup>* reg reg'" and "mem_ok E reg"
  shows "mem_ok E reg' \<and> (stale_token E reg u n \<longrightarrow> stale_token E reg' u n)"
  using assms by (induction rule: rtranclp_induct) (auto intro: step_keeps_ok step_keeps_stale)

end

text \<open>
  Claim C36. Whatever sequence of registrations, unregistrations and sweeps follows, the maps stay
  coherent, and a token whose entry is gone is never removed from the token map: the sweep
  visits entries only, so such a token occupies memory for the life of the server.
\<close>

theorem mem_stale_token_forever:
  assumes "mem_backend E" and "mem_ok E reg" and "stale_token E reg u n" and "(mem_step E)\<^sup>*\<^sup>* reg reg'"
  shows "mem_ok E reg' \<and> mem_token E reg' u = Some n"
  using mem_backend.steps_keep [OF assms(1,4,2)] assms(3) mem_backend.stale_token_iff [OF assms(1)]
  by blast

theorem mem_stale_token_forever_witness:
  "\<exists>reg reg'. stale_token alist_env reg 1 demo_name \<and> mem_token alist_env reg' 1 = Some demo_name \<and>
     mem_cleanup_expired alist_env (from_secs 600) reg = (0, reg', [])"
proof -
  obtain x reg ev where u: "mem_unregister alist_env demo_name 77 demo1 = (x, reg, ev)"
    by (cases "mem_unregister alist_env demo_name 77 demo1") auto
  obtain k reg' ev' where c: "mem_cleanup_expired alist_env (from_secs 600) reg = (k, reg', ev')"
    by (cases "mem_cleanup_expired alist_env (from_secs 600) reg") auto
  note maps = alist_mem.unregister_maps [OF u]
  have none: "mem_entry alist_env reg m = None" for m by (simp add: maps(1) demo1_facts)
  have stale: "stale_token alist_env reg 1 demo_name"
    unfolding alist_mem.stale_token_iff by (simp add: maps(1,2) demo1_facts demo_entry_def)
  have "dm_iter (pairings_map alist_env) (pairings reg) = []"
    using none alist_mem.p.keys_iter [of "pairings reg"] by (simp add: mem_entry_def)
  then have "k = 0" "ev' = []" using alist_mem.cleanup_maps(3,4) [OF c] by simp_all
  with c stale mem_stale_token_forever [OF alist_mem.mem_backend_axioms alist_mem.unregister_keeps_ok [OF demo1_facts(1) u] stale
      r_into_rtranclp [of "mem_step alist_env", OF mem_step.cleanup [OF c]]]
  show ?thesis by blast
qed

context mem_backend
begin

lemma cleanup_count:
  assumes step: "mem_cleanup_expired E now reg = (k, reg', ev)"
  shows "mem_active_count E reg' + k = mem_active_count E reg"
proof -
  note maps = cleanup_maps [OF step]
  let ?es = "dm_iter (pairings_map E) (pairings reg)"
  let ?x = "\<lambda>(n, e). expired (pairing_timeout (mem_config reg)) now e"
  have in_es: "(n, e) \<in> set (filter (Not \<circ> ?x) ?es) \<longleftrightarrow> mem_entry E reg' n = Some e" for n e
    by (auto simp: maps(1) p.iter_iff mem_entry_def [of E reg] split: option.splits)
  have "fst ` set (filter (Not \<circ> ?x) ?es) = {n. mem_entry E reg' n \<noteq> None}"
  proof (rule set_eqI)
    fix n
    have "n \<in> fst ` set (filter (Not \<circ> ?x) ?es) \<longleftrightarrow> (\<exists>e. (n, e) \<in> set (filter (Not \<circ> ?x) ?es))"
      by (rule fst_image_iff)
    then show "n \<in> fst ` set (filter (Not \<circ> ?x) ?es) \<longleftrightarrow> n \<in> {n. mem_entry E reg' n \<noteq> None}"
      unfolding in_es by simp
  qed
  moreover have "distinct (map fst (filter (Not \<circ> ?x) ?es))"
    using p.iter_distinct distinct_map_filter by blast
  ultimately have keep: "length (filter (Not \<circ> ?x) ?es) = card {n. mem_entry E reg' n \<noteq> None}"
    by (intro distinct_keys_card)
  have "length (filter ?x ?es) + length (filter (Not \<circ> ?x) ?es) = length ?es"
    using sum_length_filter_compl [of ?x ?es] by (simp add: comp_def)
  then have "k + card {n. mem_entry E reg' n \<noteq> None} = dm_len (pairings_map E) (pairings reg)"
    unfolding keep maps(3) p.len_iter .
  then show ?thesis
    by (simp add: mem_active_count_def p.len_card [of "pairings reg'"] mem_entry_def)
qed

lemma cleanup_drops:
  assumes "mem_ok E reg" and step: "mem_cleanup_expired E now reg = (k, reg', ev)"
    and e: "mem_entry E reg n = Some e" "expired (pairing_timeout (mem_config reg)) now e"
    and "notify_tx e = Some c"
  shows "ChanDrop c \<in> set ev"
proof -
  have "(n, e) \<in> set (dm_iter (pairings_map E) (pairings reg))"
    using e(1) by (simp add: p.iter_iff mem_entry_def)
  with assms show ?thesis
    unfolding cleanup_maps(4) [OF step] by (force simp: drop_tx_def)
qed

end

text \<open>
  Claim C22. A sweep removes exactly the entries older than the pairing timeout and keeps the
  others unchanged, reports how many it removed, and drops the channel of every client it
  removed, so that client's handler wakes up.
\<close>

theorem mem_cleanup_exact:
  assumes "mem_backend E" and "mem_ok E reg" and "mem_cleanup_expired E now reg = (k, reg', ev)"
  shows "(mem_entry E reg' n = Some e \<longleftrightarrow>
      mem_entry E reg n = Some e \<and> now - created_at e \<le> pairing_timeout (mem_config reg))
    \<and> mem_active_count E reg' + k = mem_active_count E reg
    \<and> (mem_entry E reg n = Some e \<longrightarrow> pairing_timeout (mem_config reg) < now - created_at e \<longrightarrow>
        (\<exists>c. notify_tx e = Some c \<and> ChanDrop c \<in> set ev))"
proof -
  have "mem_entry E reg' n = Some e \<longleftrightarrow>
      mem_entry E reg n = Some e \<and> now - created_at e \<le> pairing_timeout (mem_config reg)"
    using mem_backend.cleanup_maps(1) [OF assms(1,3), of n]
    by (auto simp: expired_def duration_since_def split: option.splits if_splits)
  moreover have "\<exists>c. notify_tx e = Some c \<and> ChanDrop c \<in> set ev"
    if "mem_entry E reg n = Some e" "pairing_timeout (mem_config reg) < now - created_at e"
    using mem_backend.ok_entry [OF assms(1,2) that(1)] that(2)
      mem_backend.cleanup_drops [OF assms(1-3) that(1)] by (auto simp: expired_def duration_since_def)
  ultimately show ?thesis
    using mem_backend.cleanup_count [OF assms(1,3)] by blast
qed

theorem mem_cleanup_exact_witness:
  "\<exists>k reg' ev. mem_cleanup_expired alist_env (from_secs 61) demo1 = (k, reg', ev) \<and>
     mem_entry alist_env reg' demo_name \<noteq> Some demo_entry \<and> ChanDrop 1 \<in> set ev"
proof -
  obtain k reg' ev where c: "mem_cleanup_expired alist_env (from_secs 61) demo1 = (k, reg', ev)"
    by (cases "mem_cleanup_expired alist_env (from_secs 61) demo1") auto
  from mem_cleanup_exact [OF alist_mem.mem_backend_axioms demo1_facts(1) c, of demo_name demo_entry] c
  show ?thesis
    by (simp add: demo1_facts demo_config_def demo_entry_def from_secs_def nanos_per_sec_def)
qed

text \<open>
  Resuming with a token does not renew the entry's age. A sweep that runs when the
  pairing timeout since the \<^emph>\<open>first\<close> registration has passed removes the resumed client and
  drops its new channel, however recently it reconnected.
\<close>

theorem mem_resume_keeps_age:
  assumes "mem_backend E" and "mem_ok E reg" and "mem_entry E reg n = Some e"
    and "mem_admits E sp reg" and "mem_register E n i (Some (entry_token e)) sp reg = (x, reg1, ev1)"
    and "mem_cleanup_expired E now reg1 = (k, reg2, ev2)"
    and "created_at e + pairing_timeout (mem_config reg) < now"
  shows "mem_entry E reg2 n = None \<and> ChanDrop (new_chan sp) \<in> set ev2"
proof -
  note maps = mem_backend.resume_maps [OF assms(1-3,5)]
  let ?e = "e\<lparr>waiting_client := (waiting_client e)\<lparr>connection_info := i\<rparr>, notify_tx := Some (new_chan sp)\<rparr>"
  have e: "mem_entry E reg1 n = Some ?e" by (simp add: maps(1))
  have old: "expired (pairing_timeout (mem_config reg1)) now ?e"
    using assms(7) by (simp add: expired_def duration_since_def maps(5))
  have ok: "mem_ok E reg1" by (rule mem_backend.register_keeps_ok [OF assms(1,2,4,5)])
  show ?thesis
    using mem_backend.cleanup_drops [OF assms(1) ok assms(6) e old] e old
    by (simp add: mem_backend.cleanup_maps(1) [OF assms(1,6)])
qed

theorem mem_resume_keeps_age_witness:
  "\<exists>reg1 ev1 k reg2 ev2.
     mem_register alist_env demo_name (demo_peer 3) (Some 1) ((demo_runtime 2)\<lparr>instant_now := from_secs 60\<rparr>) demo1
       = (Inr (RResumed 1 2), reg1, ev1) \<and>
     mem_cleanup_expired alist_env (from_secs 61) reg1 = (k, reg2, ev2) \<and>
     mem_entry alist_env reg2 demo_name = None \<and> ChanDrop 2 \<in> set ev2"
proof -
  let ?sp = "(demo_runtime 2)\<lparr>instant_now := from_secs 60\<rparr>"
  obtain x reg1 ev1 where A: "mem_register alist_env demo_name (demo_peer 3) (Some 1) ?sp demo1 = (x, reg1, ev1)"
    by (cases "mem_register alist_env demo_name (demo_peer 3) (Some 1) ?sp demo1") auto
  obtain k reg2 ev2 where B: "mem_cleanup_expired alist_env (from_secs 61) reg1 = (k, reg2, ev2)"
    by (cases "mem_cleanup_expired alist_env (from_secs 61) reg1") auto
  have e: "mem_entry alist_env demo1 demo_name = Some demo_entry" "entry_token demo_entry = 1"
    by (simp_all add: demo1_facts demo_entry_def)
  have ad: "mem_admits alist_env ?sp demo1"
    using demo1_facts(6) by (simp add: mem_admits_def)
  have "x = Inr (RResumed 1 2)"
    using alist_mem.resume_maps(3) [OF demo1_facts(1) e(1), unfolded e(2), OF A] by (simp add: demo_runtime_def)
  with A B mem_resume_keeps_age [OF alist_mem.mem_backend_axioms demo1_facts(1) e(1) ad, unfolded e(2), OF A B]
  show ?thesis
    by (simp add: demo1_facts demo_config_def demo_entry_def from_secs_def nanos_per_sec_def demo_runtime_def)
qed

end
