(* ===== verification/Redis_Interface.thy ===== *)
theory Redis_Interface
  imports Registry_Core
begin

text \<open>
  Interface of the \<open>redis\<close> and \<open>serde_json\<close> crates as the Redis backend uses them: the seven
  commands the backend sends and the three conversions it makes, each an operation that may
  fail; the documented behaviour as two locales; and an executable instance of both, a
  key-value store with deadlines and a fixed-layout text codec.
\<close>

subsection \<open>The \<open>redis\<close> and \<open>serde_json\<close> crates\<close>

text \<open>
  Every command returns the error text or its reply, and the store as the command left it.
\<close>

record 'r redis_ops =
  r_get :: "rust_string \<Rightarrow> 'r \<Rightarrow> (rust_string + rust_string option) \<times> 'r"
  r_setex :: "rust_string \<Rightarrow> int \<Rightarrow> rust_string \<Rightarrow> 'r \<Rightarrow> (rust_string + unit) \<times> 'r"
  r_getdel :: "rust_string \<Rightarrow> 'r \<Rightarrow> (rust_string + rust_string option) \<times> 'r"
  r_del :: "rust_string list \<Rightarrow> 'r \<Rightarrow> (rust_string + unit) \<times> 'r"
  r_exists :: "rust_string \<Rightarrow> 'r \<Rightarrow> (rust_string + bool) \<times> 'r"
  r_keys :: "rust_string \<Rightarrow> 'r \<Rightarrow> (rust_string + rust_string list) \<times> 'r"
  r_publish :: "rust_string \<Rightarrow> rust_string \<Rightarrow> 'r \<Rightarrow> (rust_string + unit) \<times> 'r"

record json_ops =
  client_to_json :: "waiting_client \<Rightarrow> rust_string + rust_string"
  client_from_json :: "rust_string \<Rightarrow> rust_string + waiting_client"
  peer_to_json :: "peer_connection_data \<Rightarrow> rust_string + rust_string"

definition no_glob :: "rust_string \<Rightarrow> bool" where
  "no_glob p \<longleftrightarrow> list_all (\<lambda>b. b \<notin> set (str ''*?[]^'') \<and> b \<noteq> 92) p"

text \<open>
  Documented behaviour: \<open>view\<close> is what a reader sees, \<open>clock\<close> the server time in seconds and
  \<open>deadline\<close> the instant a key expires. Nothing is assumed of a command that fails, except
  that \<open>SETEX\<close> rejects a time-to-live that is not positive and that \<open>EXISTS\<close> never writes.
\<close>

locale redis_store =
  fixes R :: "'r redis_ops"
    and view :: "'r \<Rightarrow> rust_string \<Rightarrow> rust_string option"
    and clock :: "'r \<Rightarrow> int"
    and deadline :: "'r \<Rightarrow> rust_string \<Rightarrow> int option"
  assumes get_ok: "r_get R k s = (Inr v, s') \<Longrightarrow>
      v = view s k \<and> view s' = view s \<and> deadline s' = deadline s \<and> clock s' = clock s"
    and setex_ok: "r_setex R k ttl v0 s = (Inr (), s') \<Longrightarrow>
      view s' = (view s)(k \<mapsto> v0) \<and> deadline s' = (deadline s)(k \<mapsto> clock s + ttl) \<and> clock s' = clock s"
    and setex_ttl: "ttl \<le> 0 \<Longrightarrow> \<exists>e s'. r_setex R k ttl v0 s = (Inl e, s')"
    and getdel_ok: "r_getdel R k s = (Inr v, s') \<Longrightarrow> v = view s k \<and> view s' = (view s)(k := None)"
    and del_ok: "r_del R ks s = (Inr (), s') \<Longrightarrow> view s' = view s |` (- set ks)"
    and exists_ok: "r_exists R k s = (Inr b, s') \<Longrightarrow> b = (view s k \<noteq> None)"
    and exists_view: "r_exists R k s = (x, s') \<Longrightarrow> view s' = view s"
    and keys_ok: "r_keys R (p @ str ''*'') s = (Inr ks, s') \<Longrightarrow> no_glob p \<Longrightarrow>
      set ks = {k. take (length p) k = p \<and> view s k \<noteq> None} \<and> distinct ks \<and> view s' = view s"
    and publish_ok: "r_publish R c m s = (Inr (), s') \<Longrightarrow> view s' = view s"

text \<open>
  \<open>serde\<close> round-trips a \<open>WaitingClient\<close>, with its time stamp cut to milliseconds by
  \<open>chrono::serde::ts_milliseconds\<close>.
\<close>

locale json_codec =
  fixes J :: json_ops
  assumes json_roundtrip: "client_to_json J w = Inr j \<Longrightarrow>
    client_from_json J j = Inr (w\<lparr>registered_at := registered_at w div 1000000 * 1000000\<rparr>)"

subsection \<open>An executable instance\<close>

text \<open>
  Entries with their values and deadlines, the server time, and the faults still to come: each
  command takes the next item of \<open>faults\<close> and fails when it is an error.
\<close>

record ref_store =
  entries :: "(rust_string \<times> rust_string \<times> int) list"
  now_secs :: int
  faults :: "rust_string option list"

definition ref_view :: "ref_store \<Rightarrow> rust_string \<Rightarrow> rust_string option" where
  "ref_view s k = (case map_of (entries s) k of
     None \<Rightarrow> None | Some (v, d) \<Rightarrow> if now_secs s < d then Some v else None)"

definition ref_deadline :: "ref_store \<Rightarrow> rust_string \<Rightarrow> int option" where
  "ref_deadline s k = (case map_of (entries s) k of
     None \<Rightarrow> None | Some (v, d) \<Rightarrow> if now_secs s < d then Some d else None)"

definition attempt ::
    "(ref_store \<Rightarrow> (rust_string + 'a) \<times> ref_store) \<Rightarrow> ref_store \<Rightarrow> (rust_string + 'a) \<times> ref_store" where
  "attempt f s =
     (case faults s of
        [] \<Rightarrow> f s
      | None # fs \<Rightarrow> f (s\<lparr>faults := fs\<rparr>)
      | Some e # fs \<Rightarrow> (Inl e, s\<lparr>faults := fs\<rparr>))"

definition without :: "rust_string list \<Rightarrow> ref_store \<Rightarrow> ref_store" where
  "without ks s = s\<lparr>entries := filter (\<lambda>(k, _). k \<notin> set ks) (entries s)\<rparr>"

definition ref_ops :: "ref_store redis_ops" where
  "ref_ops =
     \<lparr>r_get = (\<lambda>k. attempt (\<lambda>s. (Inr (ref_view s k), s))),
      r_setex = (\<lambda>k ttl v. attempt (\<lambda>s.
         if ttl \<le> 0 then (Inl (str ''ERR invalid expire time''), s)
         else (Inr (), s\<lparr>entries := (k, v, now_secs s + ttl) # entries s\<rparr>))),
      r_getdel = (\<lambda>k. attempt (\<lambda>s. (Inr (ref_view s k), without [k] s))),
      r_del = (\<lambda>ks. attempt (\<lambda>s. (Inr (), without ks s))),
      r_exists = (\<lambda>k. attempt (\<lambda>s. (Inr (ref_view s k \<noteq> None), s))),
      r_keys = (\<lambda>pat. attempt (\<lambda>s.
         (Inr (filter (\<lambda>k. take (length pat - 1) k = butlast pat \<and> ref_view s k \<noteq> None)
                 (remdups (map fst (entries s)))), s))),
      r_publish = (\<lambda>c m. attempt (\<lambda>s. (Inr (), s)))\<rparr>"

lemma attempt_Inr:
  assumes "attempt f s = (Inr v, s')"
  obtains fs where "f (s\<lparr>faults := fs\<rparr>) = (Inr v, s')"
proof (cases "faults s")
  case Nil
  then have "s\<lparr>faults := []\<rparr> = s" by simp
  with assms Nil that [of "[]"] show thesis by (simp add: attempt_def)
qed (use assms that in \<open>auto simp: attempt_def split: option.splits\<close>)

lemma ref_view_faults [simp]:
  "ref_view (s\<lparr>faults := fs\<rparr>) = ref_view s" "ref_deadline (s\<lparr>faults := fs\<rparr>) = ref_deadline s"
  by (auto simp: ref_view_def ref_deadline_def fun_eq_iff split: option.splits)

lemma map_of_without: "map_of (filter (\<lambda>(k, _). k \<notin> A) es) = map_of es |` (- A)"
  by (induction es) (auto simp: restrict_map_def fun_eq_iff)

lemma ref_view_without: "ref_view (without ks s) = ref_view s |` (- set ks)"
  by (auto simp: fun_eq_iff ref_view_def without_def map_of_without restrict_map_def split: option.splits)

lemma ref_view_put:
  assumes "0 < ttl" and "entries s' = (k, v, now_secs s + ttl) # entries s" and "now_secs s' = now_secs s"
  shows "ref_view s' = (ref_view s)(k \<mapsto> v)" and "ref_deadline s' = (ref_deadline s)(k \<mapsto> now_secs s + ttl)"
  using assms by (auto simp: ref_view_def ref_deadline_def fun_eq_iff split: option.splits)

lemma ref_view_keys: "ref_view s k \<noteq> None \<Longrightarrow> k \<in> fst ` set (entries s)"
  by (auto simp: ref_view_def map_of_eq_None_iff split: option.splits) (metis domI dom_map_of_conv_image_fst)

interpretation ref_redis: redis_store ref_ops ref_view now_secs ref_deadline
proof unfold_locales
  show "v = ref_view s k \<and> ref_view s' = ref_view s \<and> ref_deadline s' = ref_deadline s \<and> now_secs s' = now_secs s"
    if "r_get ref_ops k s = (Inr v, s')" for k v s s'
    using that by (auto simp: ref_ops_def elim!: attempt_Inr)
  show "ref_view s' = (ref_view s)(k \<mapsto> v0) \<and> ref_deadline s' = (ref_deadline s)(k \<mapsto> now_secs s + ttl) \<and>
      now_secs s' = now_secs s" if "r_setex ref_ops k ttl v0 s = (Inr (), s')" for k ttl v0 s s'
    using that ref_view_put [of ttl s' k v0 s] by (auto simp: ref_ops_def elim!: attempt_Inr split: if_splits)
  show "\<exists>e s'. r_setex ref_ops k ttl v0 s = (Inl e, s')" if "ttl \<le> 0" for k ttl v0 s
    using that by (auto simp: ref_ops_def attempt_def split: list.splits option.splits)
  show "v = ref_view s k \<and> ref_view s' = (ref_view s)(k := None)" if "r_getdel ref_ops k s = (Inr v, s')" for k v s s'
    using that by (auto simp: ref_ops_def ref_view_without restrict_map_def fun_eq_iff elim!: attempt_Inr)
  show "ref_view s' = ref_view s |` (- set ks)" if "r_del ref_ops ks s = (Inr (), s')" for ks s s'
    using that by (auto simp: ref_ops_def ref_view_without elim!: attempt_Inr)
  show "b = (ref_view s k \<noteq> None)" if "r_exists ref_ops k s = (Inr b, s')" for k b s s'
    using that by (auto simp: ref_ops_def elim!: attempt_Inr)
  show "ref_view s' = ref_view s" if "r_exists ref_ops k s = (x, s')" for k x s s'
    using that by (auto simp: ref_ops_def attempt_def split: list.splits option.splits)
  show "set ks = {k. take (length p) k = p \<and> ref_view s k \<noteq> None} \<and> distinct ks \<and> ref_view s' = ref_view s"
    if "r_keys ref_ops (p @ str ''*'') s = (Inr ks, s')" for p ks s s'
  proof -
    have "p @ str ''*'' = p @ [42]" by (simp add: str_def)
    with that obtain fs where
      "ks = filter (\<lambda>k. take (length p) k = p \<and> ref_view s k \<noteq> None) (remdups (map fst (entries s)))"
      "s' = s\<lparr>faults := fs\<rparr>"
      by (auto simp: ref_ops_def elim!: attempt_Inr)
    then show ?thesis using ref_view_keys [of s] by auto
  qed
  show "ref_view s' = ref_view s" if "r_publish ref_ops c m s = (Inr (), s')" for c m s s'
    using that by (auto simp: ref_ops_def elim!: attempt_Inr)
qed

text \<open>
  The codec: address, port, token, milliseconds in hexadecimal, server id. Time stamps outside
  64 bits of milliseconds cannot be written.
\<close>

definition ref_client_to_json :: "waiting_client \<Rightarrow> rust_string + rust_string" where
  "ref_client_to_json w =
     (let ms = registered_at w div 1000000 in
      if 0 \<le> ms \<and> ms < 16 ^ 16
      then Inr (octets (ip (connection_info w)) @ to_be_bytes (port (connection_info w))
                @ hyphenated (reconnect_token w) @ hex_digits 16 (nat ms) @ client_server_id w)
      else Inl (str ''timestamp out of range''))"

definition ref_client_from_json :: "rust_string \<Rightarrow> rust_string + waiting_client" where
  "ref_client_from_json j =
     (if length j < 58 then Inl (str ''EOF while parsing'')
      else case (parse_hyphenated (take 36 (drop 6 j)), hex_number 0 (take 16 (drop 42 j))) of
        (Some t, Some ms) \<Rightarrow>
          Inr \<lparr>connection_info = \<lparr>ip = Ipv4Addr (j ! 0) (j ! 1) (j ! 2) (j ! 3), port = from_be_bytes (j ! 4) (j ! 5)\<rparr>,
               reconnect_token = t, client_server_id = drop 58 j, registered_at = int ms * 1000000\<rparr>
      | _ \<Rightarrow> Inl (str ''invalid value''))"

definition ref_json :: json_ops where
  "ref_json =
     \<lparr>client_to_json = ref_client_to_json, client_from_json = ref_client_from_json,
      peer_to_json = (\<lambda>d. Inr (octets (ip d) @ to_be_bytes (port d)))\<rparr>"

lemma length_hyphenated [simp]: "length (hyphenated u) = 36"
  using hyphenated.to_string_length [of u] by (simp add: hyphenated_ops_def)

interpretation ref_json: json_codec ref_json
proof unfold_locales
  fix w j
  assume "client_to_json ref_json w = Inr j"
  then have j: "j = octets (ip (connection_info w)) @ to_be_bytes (port (connection_info w))
      @ hyphenated (reconnect_token w) @ hex_digits 16 (nat (registered_at w div 1000000)) @ client_server_id w"
    and ms: "0 \<le> registered_at w div 1000000" "registered_at w div 1000000 < 16 ^ 16"
    by (auto simp: ref_json_def ref_client_to_json_def Let_def split: if_splits)
  obtain a b c d where oc: "octets (ip (connection_info w)) = [a, b, c, d]" "ip (connection_info w) = Ipv4Addr a b c d"
    by (cases "ip (connection_info w)") auto
  have "nat (registered_at w div 1000000) < 16 ^ 16" using ms by (simp add: nat_less_iff)
  then have n: "hex_number 0 (hex_digits 16 (nat (registered_at w div 1000000))) = Some (nat (registered_at w div 1000000))"
    using hex_number_digits [of "nat (registered_at w div 1000000)" 16 0] by simp
  have "ref_client_from_json j =
      Inr \<lparr>connection_info = \<lparr>ip = Ipv4Addr a b c d, port = port (connection_info w)\<rparr>, reconnect_token = reconnect_token w,
           client_server_id = client_server_id w, registered_at = registered_at w div 1000000 * 1000000\<rparr>"
    unfolding ref_client_from_json_def j oc to_be_bytes_def
    using n ms by (simp add: hyphenated_roundtrip)
  then show "client_from_json ref_json j = Inr (w\<lparr>registered_at := registered_at w div 1000000 * 1000000\<rparr>)"
    using oc by (simp add: ref_json_def)
qed

end
