(* ===== verification/Redis_Registry.thy ===== *)
theory Redis_Registry
  imports In_Memory Redis_Interface
begin

text \<open>
  The Redis backend (\<open>RedisRegistry\<close> in \<open>server/rust/src/registry.rs\<close>): waiting clients and
  tokens live in a Redis store shared by several servers, each server keeps the channels of
  its own waiting clients in a local map. The Redis commands, the JSON codec and the local
  map are parameters (\<open>Redis_Interface\<close>, \<open>Externals\<close>). Each command may fail, and \<open>?\<close> then ends the operation with the state
  reached so far. The lemmas show that on one server, and as long as no key expires, the
  backend implements the waiting room; the properties also state what happens across
  servers, on failures and at the edges of the time-to-live.
\<close>

subsection \<open>State and operations\<close>

record ('w, 'r) redis_env =
  waiters_map :: "('w, rust_string, chan, unit) dashmap_ops"
  redis_cmds :: "'r redis_ops"
  json :: json_ops
  uuid_text :: uuid_ops

record 'w redis_registry =
  redis_config :: registry_config
  local_waiters :: 'w

type_synonym ('w, 'r) redis_state = "'w redis_registry \<times> 'r"

text \<open>\<open>RedisRegistry::new\<close>; the argument is the outcome of opening the connection.\<close>

definition redis_new ::
    "('w, 'r) redis_env \<Rightarrow> registry_config \<Rightarrow> rust_string + 'r
     \<Rightarrow> registry_error + ('w, 'r) redis_state" where
  "redis_new E config conn =
     (case conn of
        Inl e \<Rightarrow> Inl (RedisError e)
      | Inr store \<Rightarrow> Inr (\<lparr>redis_config = config, local_waiters = dm_new (waiters_map E)\<rparr>, store))"

definition pairing_key :: "rust_string \<Rightarrow> rust_string" where
  "pairing_key name = str ''tcpunch:pairing:'' @ name"

definition token_key :: "uuid_ops \<Rightarrow> uuid \<Rightarrow> rust_string" where
  "token_key U token = str ''tcpunch:token:'' @ uuid_to_string U token"

definition notify_channel :: "rust_string \<Rightarrow> rust_string" where
  "notify_channel name = str ''tcpunch:notify:'' @ name"

text \<open>\<open>pairing_timeout.as_secs() as i64\<close>: the cast reinterprets the 64 bits.\<close>

definition ttl_secs :: "registry_config \<Rightarrow> int" where
  "ttl_secs config = sint (as_secs (pairing_timeout config))"

type_synonym ('w, 'r, 'a) redis_result =
  "(registry_error + 'a) \<times> ('w, 'r) redis_state \<times> reg_event list"

text \<open>The \<open>?\<close> after a command: an error ends the operation.\<close>

definition query ::
    "'w redis_registry \<Rightarrow> (rust_string + 'b) \<times> 'r \<Rightarrow> ('b \<Rightarrow> 'r \<Rightarrow> ('w, 'r, 'a) redis_result)
     \<Rightarrow> ('w, 'r, 'a) redis_result" where
  "query reg reply k =
     (case reply of
        (Inl e, st) \<Rightarrow> (Inl (RedisError e), (reg, st), [])
      | (Inr v, st) \<Rightarrow> k v st)"

text \<open>The \<open>?\<close> after \<open>map_err(|e| Internal(e.to_string()))\<close>.\<close>

definition internal ::
    "'w redis_registry \<Rightarrow> 'r \<Rightarrow> rust_string + 'b \<Rightarrow> ('b \<Rightarrow> ('w, 'r, 'a) redis_result)
     \<Rightarrow> ('w, 'r, 'a) redis_result" where
  "internal reg st x k =
     (case x of Inl e \<Rightarrow> (Inl (Internal e), (reg, st), []) | Inr v \<Rightarrow> k v)"

definition redis_waiting ::
    "'w redis_registry \<Rightarrow> peer_connection_data \<Rightarrow> uuid \<Rightarrow> runtime \<Rightarrow> waiting_client" where
  "redis_waiting reg info token sp =
     \<lparr>connection_info = info, reconnect_token = token,
      client_server_id = server_id (redis_config reg), registered_at = utc_now sp\<rparr>"

text \<open>\<open>local_waiters.insert\<close>: a replaced sender is dropped.\<close>

definition insert_waiter ::
    "('w, 'r) redis_env \<Rightarrow> rust_string \<Rightarrow> chan \<Rightarrow> 'w redis_registry \<Rightarrow> 'w redis_registry \<times> reg_event list" where
  "insert_waiter E name tx reg =
     (reg\<lparr>local_waiters := dm_insert (waiters_map E) name tx (local_waiters reg)\<rparr>,
      drop_tx (dm_get (waiters_map E) name (local_waiters reg)))"

text \<open>The branch of \<open>register\<close> for a valid token.\<close>

definition redis_resume ::
    "('w, 'r) redis_env \<Rightarrow> rust_string \<Rightarrow> peer_connection_data \<Rightarrow> uuid \<Rightarrow> runtime
     \<Rightarrow> 'w redis_registry \<Rightarrow> 'r \<Rightarrow> ('w, 'r, registration_result) redis_result" where
  "redis_resume E name info token sp reg st =
     internal reg st (client_to_json (json E) (redis_waiting reg info token sp)) (\<lambda>waiting_json.
     query reg (r_setex (redis_cmds E) (pairing_key name) (ttl_secs (redis_config reg)) waiting_json st) (\<lambda>_ st.
     let (reg', ev) = insert_waiter E name (new_chan sp) reg
     in (Inr (RResumed token (new_chan sp)), (reg', st), ev)))"

text \<open>The branch for a second client: \<open>waiting_json\<close> was returned by \<open>GETDEL\<close>.\<close>

definition redis_pair ::
    "('w, 'r) redis_env \<Rightarrow> rust_string \<Rightarrow> peer_connection_data \<Rightarrow> rust_string \<Rightarrow> runtime
     \<Rightarrow> 'w redis_registry \<Rightarrow> 'r \<Rightarrow> ('w, 'r, registration_result) redis_result" where
  "redis_pair E name info waiting_json sp reg st =
     internal reg st (client_from_json (json E) waiting_json) (\<lambda>waiting.
     query reg (r_del (redis_cmds E) [token_key (uuid_text E) (reconnect_token waiting)] st) (\<lambda>_ st.
     let result = Inr (RPaired (new_v4 sp) (connection_info waiting)) in
     (case dm_remove (waiters_map E) name (local_waiters reg) of
        (Some (_, tx), waiters') \<Rightarrow> (result, (reg\<lparr>local_waiters := waiters'\<rparr>, st), [ChanSend tx info])
      | (None, waiters') \<Rightarrow>
          let reg' = reg\<lparr>local_waiters := waiters'\<rparr> in
          if client_server_id waiting \<noteq> server_id (redis_config reg)
          then internal reg' st (peer_to_json (json E) info) (\<lambda>notify_data.
               query reg' (r_publish (redis_cmds E) (notify_channel name) notify_data st) (\<lambda>_ st.
               (result, (reg', st), [])))
          else (result, (reg', st), []))))"

text \<open>The branch for a first client.\<close>

definition redis_wait ::
    "('w, 'r) redis_env \<Rightarrow> rust_string \<Rightarrow> peer_connection_data \<Rightarrow> runtime
     \<Rightarrow> 'w redis_registry \<Rightarrow> 'r \<Rightarrow> ('w, 'r, registration_result) redis_result" where
  "redis_wait E name info sp reg st =
     (let token = new_v4 sp in
     internal reg st (client_to_json (json E) (redis_waiting reg info token sp)) (\<lambda>waiting_json.
     query reg (r_setex (redis_cmds E) (pairing_key name) (ttl_secs (redis_config reg)) waiting_json st) (\<lambda>_ st.
     query reg (r_setex (redis_cmds E) (token_key (uuid_text E) token) (ttl_secs (redis_config reg)) name st) (\<lambda>_ st.
     let (reg', ev) = insert_waiter E name (new_chan sp) reg
     in (Inr (RWaiting token (new_chan sp)), (reg', st), ev)))))"

text \<open>From \<open>GETDEL\<close> on, for clients without a valid token.\<close>

definition redis_fresh ::
    "('w, 'r) redis_env \<Rightarrow> rust_string \<Rightarrow> peer_connection_data \<Rightarrow> runtime
     \<Rightarrow> 'w redis_registry \<Rightarrow> 'r \<Rightarrow> ('w, 'r, registration_result) redis_result" where
  "redis_fresh E name info sp reg st =
     query reg (r_getdel (redis_cmds E) (pairing_key name) st) (\<lambda>existing st.
     case existing of
       Some waiting_json \<Rightarrow> redis_pair E name info waiting_json sp reg st
     | None \<Rightarrow> redis_wait E name info sp reg st)"

definition redis_register ::
    "('w, 'r) redis_env \<Rightarrow> rust_string \<Rightarrow> peer_connection_data \<Rightarrow> uuid option \<Rightarrow> runtime
     \<Rightarrow> ('w, 'r) redis_state \<Rightarrow> ('w, 'r, registration_result) redis_result" where
  "redis_register E name info rtok sp s =
     (case s of (reg, st) \<Rightarrow>
      case rtok of
        None \<Rightarrow> redis_fresh E name info sp reg st
      | Some token \<Rightarrow>
          query reg (r_get (redis_cmds E) (token_key (uuid_text E) token) st) (\<lambda>stored_name st.
          if stored_name = Some name then redis_resume E name info token sp reg st
          else redis_fresh E name info sp reg st))"

definition redis_unregister ::
    "('w, 'r) redis_env \<Rightarrow> rust_string \<Rightarrow> uuid \<Rightarrow> ('w, 'r) redis_state
     \<Rightarrow> ('w, 'r, unit) redis_result" where
  "redis_unregister E name token s =
     (case s of (reg, st) \<Rightarrow>
      query reg (r_del (redis_cmds E) [pairing_key name, token_key (uuid_text E) token] st) (\<lambda>_ st.
      (Inr (),
       (reg\<lparr>local_waiters := snd (dm_remove (waiters_map E) name (local_waiters reg))\<rparr>, st),
       drop_tx (dm_get (waiters_map E) name (local_waiters reg)))))"

text \<open>\<open>unwrap_or_default\<close>: a failed \<open>KEYS\<close> counts as no keys.\<close>

definition redis_active_count :: "('w, 'r) redis_env \<Rightarrow> ('w, 'r) redis_state \<Rightarrow> nat" where
  "redis_active_count E s =
     (case r_keys (redis_cmds E) (str ''tcpunch:pairing:'' @ str ''*'') (snd s) of
        (Inl e, st) \<Rightarrow> 0
      | (Inr keys, st) \<Rightarrow> length keys)"

text \<open>The loop of \<open>cleanup_expired\<close>; \<open>unwrap_or(false)\<close> turns a failed \<open>EXISTS\<close> into false.\<close>

fun redis_cleanup_loop ::
    "('w, 'r) redis_env \<Rightarrow> rust_string list \<Rightarrow> nat \<Rightarrow> ('w, 'r) redis_state
     \<Rightarrow> nat \<times> ('w, 'r) redis_state \<times> reg_event list" where
  "redis_cleanup_loop E [] cleaned s = (cleaned, s, [])"
| "redis_cleanup_loop E (name # names) cleaned (reg, st) =
     (case r_exists (redis_cmds E) (pairing_key name) st of
        (reply, st') \<Rightarrow>
          if (case reply of Inl _ \<Rightarrow> False | Inr b \<Rightarrow> b)
          then redis_cleanup_loop E names cleaned (reg, st')
          else let tx = dm_get (waiters_map E) name (local_waiters reg);
                   reg' = reg\<lparr>local_waiters := snd (dm_remove (waiters_map E) name (local_waiters reg))\<rparr>;
                   (c, s'', ev) = redis_cleanup_loop E names (cleaned + 1) (reg', st')
               in (c, s'', drop_tx tx @ ev))"

definition redis_cleanup_expired ::
    "('w, 'r) redis_env \<Rightarrow> ('w, 'r) redis_state \<Rightarrow> nat \<times> ('w, 'r) redis_state \<times> reg_event list" where
  "redis_cleanup_expired E s =
     redis_cleanup_loop E (map fst (dm_iter (waiters_map E) (local_waiters (fst s)))) 0 s"

text \<open>\<open>start_background_tasks\<close>: one \<open>cleanup_expired\<close> per tick; no other task is started.\<close>

fun redis_background_tasks ::
    "('w, 'r) redis_env \<Rightarrow> nat \<Rightarrow> ('w, 'r) redis_state \<Rightarrow> nat list \<times> ('w, 'r) redis_state \<times> reg_event list" where
  "redis_background_tasks E 0 s = ([], s, [])"
| "redis_background_tasks E (Suc ticks) s =
     (let (cleaned, s', ev) = redis_cleanup_expired E s;
          (cs, s'', ev') = redis_background_tasks E ticks s'
      in (cleaned # cs, s'', ev @ ev'))"

subsection \<open>The waiting room in the store\<close>

lemma pairing_key_inject [simp]: "pairing_key n = pairing_key m \<longleftrightarrow> n = m"
  by (simp add: pairing_key_def)

lemma keys_disjoint [simp]: "pairing_key n \<noteq> token_key U t" "token_key U t \<noteq> pairing_key n"
  by (simp_all add: pairing_key_def token_key_def str_def)

definition store_client ::
    "json_ops \<Rightarrow> (rust_string \<Rightarrow> rust_string option) \<Rightarrow> rust_string \<Rightarrow> waiting_client option" where
  "store_client J v n =
     (case v (pairing_key n) of
        None \<Rightarrow> None
      | Some j \<Rightarrow> (case client_from_json J j of Inl _ \<Rightarrow> None | Inr w \<Rightarrow> Some w))"

definition redis_room ::
    "('w, 'r) redis_env \<Rightarrow> ('r \<Rightarrow> rust_string \<Rightarrow> rust_string option) \<Rightarrow> ('w, 'r) redis_state \<Rightarrow> room" where
  "redis_room E view s n =
     map_option (\<lambda>w. \<lparr>slot_token = reconnect_token w, slot_info = connection_info w,
        slot_chan = unwrap_or (dm_get (waiters_map E) n (local_waiters (fst s))) 0\<rparr>)
       (store_client (json E) (view (snd s)) n)"

text \<open>
  The state between two expirations, with this server the only one: every stored client parses,
  is known by its token and waits on a local channel; every token and every local channel
  belongs to a stored client.
\<close>

definition redis_ok ::
    "('w, 'r) redis_env \<Rightarrow> ('r \<Rightarrow> rust_string \<Rightarrow> rust_string option) \<Rightarrow> ('w, 'r) redis_state \<Rightarrow> bool" where
  "redis_ok E view s \<longleftrightarrow>
     (\<forall>n. view (snd s) (pairing_key n) \<noteq> None \<longrightarrow>
        (\<exists>w. store_client (json E) (view (snd s)) n = Some w \<and>
             view (snd s) (token_key (uuid_text E) (reconnect_token w)) = Some n)) \<and>
     (\<forall>t n. view (snd s) (token_key (uuid_text E) t) = Some n \<longrightarrow>
        (\<exists>w. store_client (json E) (view (snd s)) n = Some w \<and> reconnect_token w = t)) \<and>
     (\<forall>n. view (snd s) (pairing_key n) \<noteq> None \<longleftrightarrow>
        dm_get (waiters_map E) n (local_waiters (fst s)) \<noteq> None)"

definition redis_admits ::
    "('w, 'r) redis_env \<Rightarrow> ('r \<Rightarrow> rust_string \<Rightarrow> rust_string option) \<Rightarrow> runtime
     \<Rightarrow> ('w, 'r) redis_state \<Rightarrow> bool" where
  "redis_admits E view sp s \<longleftrightarrow> view (snd s) (token_key (uuid_text E) (new_v4 sp)) = None"

definition redis_owns ::
    "('w, 'r) redis_env \<Rightarrow> ('r \<Rightarrow> rust_string \<Rightarrow> rust_string option) \<Rightarrow> rust_string \<Rightarrow> uuid
     \<Rightarrow> ('w, 'r) redis_state \<Rightarrow> bool" where
  "redis_owns E view n t s \<longleftrightarrow>
     view (snd s) (token_key (uuid_text E) t) =
       (if view (snd s) (pairing_key n) = None then None else Some n)"

lemma store_client_None: "v (pairing_key n) = None \<Longrightarrow> store_client J v n = None"
  by (simp add: store_client_def)

lemma store_client_cong: "v (pairing_key n) = v' (pairing_key n) \<Longrightarrow> store_client J v n = store_client J v' n"
  by (simp add: store_client_def)

lemma query_Inr:
  assumes "query reg reply k = (Inr r, s', ev)"
  obtains v st where "reply = (Inr v, st)" and "k v st = (Inr r, s', ev)"
  using assms by (auto simp: query_def split: prod.splits sum.splits)

lemma internal_Inr:
  assumes "internal reg st x k = (Inr r, s', ev)"
  obtains v where "x = Inr v" and "k v = (Inr r, s', ev)"
  using assms by (auto simp: internal_def split: sum.splits)

locale redis_backend = w: dashmap "waiters_map E" + r: redis_store "redis_cmds E" view clock deadline
    + j: json_codec "json E" + u: uuid_codec "uuid_text E"
  for E :: "('w, 'r) redis_env" and view and clock and deadline
begin

lemma token_key_inject [simp]: "token_key (uuid_text E) t = token_key (uuid_text E) t' \<longleftrightarrow> t = t'"
  by (simp add: token_key_def u.to_string_inject)

lemma stored_client:
  assumes "client_to_json (json E) w = Inr js" and "v (pairing_key n) = Some js"
  shows "store_client (json E) v n = Some (w\<lparr>registered_at := registered_at w div 1000000 * 1000000\<rparr>)"
  using assms j.json_roundtrip [OF assms(1)] by (simp add: store_client_def)

text \<open>Each branch of \<open>register\<close>, when it succeeds.\<close>

lemma resume_ok:
  assumes "redis_resume E n i t sp reg st = (Inr r, s', ev)"
  shows "\<exists>js st'. s' = (reg\<lparr>local_waiters := dm_insert (waiters_map E) n (new_chan sp) (local_waiters reg)\<rparr>, st')
      \<and> r = RResumed t (new_chan sp) \<and> ev = drop_tx (dm_get (waiters_map E) n (local_waiters reg))
      \<and> client_to_json (json E) (redis_waiting reg i t sp) = Inr js
      \<and> view st' = (view st)(pairing_key n \<mapsto> js)
      \<and> deadline st' = (deadline st)(pairing_key n \<mapsto> clock st + ttl_secs (redis_config reg))"
  using assms unfolding redis_resume_def
  by (auto elim!: internal_Inr query_Inr simp: insert_waiter_def dest!: r.setex_ok)

lemma wait_ok:
  assumes "redis_wait E n i sp reg st = (Inr r, s', ev)"
  shows "\<exists>js st'. s' = (reg\<lparr>local_waiters := dm_insert (waiters_map E) n (new_chan sp) (local_waiters reg)\<rparr>, st')
      \<and> r = RWaiting (new_v4 sp) (new_chan sp) \<and> ev = drop_tx (dm_get (waiters_map E) n (local_waiters reg))
      \<and> client_to_json (json E) (redis_waiting reg i (new_v4 sp) sp) = Inr js
      \<and> view st' = (view st)(pairing_key n \<mapsto> js, token_key (uuid_text E) (new_v4 sp) \<mapsto> n)"
  using assms unfolding redis_wait_def
  by (auto elim!: internal_Inr query_Inr simp: insert_waiter_def Let_def dest!: r.setex_ok)

lemma pair_ok:
  assumes "redis_pair E n i js sp reg st = (Inr r, s', ev)"
  shows "\<exists>w st'. s' = (reg\<lparr>local_waiters := snd (dm_remove (waiters_map E) n (local_waiters reg))\<rparr>, st')
      \<and> client_from_json (json E) js = Inr w
      \<and> r = RPaired (new_v4 sp) (connection_info w)
      \<and> ev = send_tx (dm_get (waiters_map E) n (local_waiters reg)) i
      \<and> view st' = (view st)(token_key (uuid_text E) (reconnect_token w) := None)"
proof -
  obtain ws where rm: "dm_remove (waiters_map E) n (local_waiters reg) =
      (map_option (Pair n) (dm_get (waiters_map E) n (local_waiters reg)), ws)"
    by (metis w.remove_eq)
  have del: "view st |` (- {k}) = (view st)(k := None)" for k st
    by (auto simp: restrict_map_def)
  show ?thesis
    using assms unfolding redis_pair_def rm
    by (auto elim!: internal_Inr query_Inr simp: Let_def send_tx_def del split: option.splits if_splits
        dest!: r.del_ok r.publish_ok)
qed

text \<open>What a well-formed state gives for one name.\<close>

lemma ok_none:
  "redis_ok E view (reg, st) \<Longrightarrow> view st (pairing_key n) = None \<Longrightarrow>
   dm_get (waiters_map E) n (local_waiters reg) = None \<and> redis_room E view (reg, st) n = None"
  by (auto simp: redis_ok_def redis_room_def store_client_None)

lemma ok_some:
  assumes "redis_ok E view (reg, st)" and "view st (pairing_key n) = Some js"
  obtains w c where "client_from_json (json E) js = Inr w" and "store_client (json E) (view st) n = Some w"
    and "view st (token_key (uuid_text E) (reconnect_token w)) = Some n"
    and "dm_get (waiters_map E) n (local_waiters reg) = Some c"
    and "redis_room E view (reg, st) n =
      Some \<lparr>slot_token = reconnect_token w, slot_info = connection_info w, slot_chan = c\<rparr>"
proof -
  from assms obtain w where w: "store_client (json E) (view st) n = Some w"
    "view st (token_key (uuid_text E) (reconnect_token w)) = Some n"
    unfolding redis_ok_def by force
  moreover from assms obtain c where "dm_get (waiters_map E) n (local_waiters reg) = Some c"
    unfolding redis_ok_def by force
  moreover from w assms(2) have "client_from_json (json E) js = Inr w"
    by (auto simp: store_client_def split: sum.splits)
  ultimately show thesis
    using that by (simp add: redis_room_def unwrap_or_def)
qed

lemma ok_token:
  "redis_ok E view (reg, st) \<Longrightarrow> view st (token_key (uuid_text E) t) = Some n \<Longrightarrow>
   \<exists>w. store_client (json E) (view st) n = Some w \<and> reconnect_token w = t"
  unfolding redis_ok_def by simp

text \<open>Putting a client under a name, with its token; removing a client and its token.\<close>

lemma ok_put:
  assumes ok: "redis_ok E view (reg, st)" and js: "client_to_json (json E) w = Inr js"
    and v: "view st' = (view st)(pairing_key n \<mapsto> js, token_key (uuid_text E) (reconnect_token w) \<mapsto> n)"
    and fresh: "\<And>m w'. store_client (json E) (view st) m = Some w' \<Longrightarrow>
      (reconnect_token w' = reconnect_token w) = (m = n)"
    and reg'_def: "reg' = reg\<lparr>local_waiters := dm_insert (waiters_map E) n c (local_waiters reg)\<rparr>"
  shows "redis_ok E view (reg', st') \<and>
    redis_room E view (reg', st') = (redis_room E view (reg, st))
      (n \<mapsto> \<lparr>slot_token = reconnect_token w, slot_info = connection_info w, slot_chan = c\<rparr>)"
proof -
  let ?w = "w\<lparr>registered_at := registered_at w div 1000000 * 1000000\<rparr>"
  have n: "store_client (json E) (view st') n = Some ?w"
    by (rule stored_client [OF js]) (simp add: v)
  have other: "store_client (json E) (view st') m = store_client (json E) (view st) m" if "m \<noteq> n" for m
    using that by (intro store_client_cong) (simp add: v)
  have "redis_ok E view (reg', st')"
    unfolding redis_ok_def fst_conv snd_conv
  proof (intro conjI allI impI)
    fix m
    assume "view st' (pairing_key m) \<noteq> None"
    show "\<exists>w'. store_client (json E) (view st') m = Some w' \<and>
        view st' (token_key (uuid_text E) (reconnect_token w')) = Some m"
    proof (cases "m = n")
      case True
      with n show ?thesis by (simp add: v)
    next
      case False
      with \<open>view st' (pairing_key m) \<noteq> None\<close> have "view st (pairing_key m) \<noteq> None" by (simp add: v)
      with ok obtain w' where w': "store_client (json E) (view st) m = Some w'"
        "view st (token_key (uuid_text E) (reconnect_token w')) = Some m" unfolding redis_ok_def by force
      with fresh [OF w'(1)] other False show ?thesis by (simp add: v)
    qed
  next
    fix t m
    assume t: "view st' (token_key (uuid_text E) t) = Some m"
    show "\<exists>w'. store_client (json E) (view st') m = Some w' \<and> reconnect_token w' = t"
    proof (cases "t = reconnect_token w")
      case True
      with t have "m = n" by (simp add: v)
      with n True show ?thesis by simp
    next
      case False
      with t have "view st (token_key (uuid_text E) t) = Some m" by (simp add: v)
      from ok_token [OF ok this] obtain w' where w': "store_client (json E) (view st) m = Some w'" "reconnect_token w' = t"
        by blast
      with fresh [OF w'(1)] False other show ?thesis by simp
    qed
  next
    fix m
    show "view st' (pairing_key m) \<noteq> None \<longleftrightarrow> dm_get (waiters_map E) m (local_waiters reg') \<noteq> None"
      using ok by (simp add: reg'_def v w.get_insert redis_ok_def)
  qed
  moreover have "redis_room E view (reg', st') m = ((redis_room E view (reg, st))
      (n \<mapsto> \<lparr>slot_token = reconnect_token w, slot_info = connection_info w, slot_chan = c\<rparr>)) m" for m
    using n other by (simp add: redis_room_def reg'_def w.get_insert unwrap_or_def)
  ultimately show ?thesis by (simp add: fun_eq_iff)
qed

lemma ok_remove:
  assumes ok: "redis_ok E view (reg, st)"
    and v: "view st' = (view st)(pairing_key n := None, token_key (uuid_text E) t := None)"
    and own: "redis_owns E view n t (reg, st)"
    and reg'_def: "reg' = reg\<lparr>local_waiters := snd (dm_remove (waiters_map E) n (local_waiters reg))\<rparr>"
  shows "redis_ok E view (reg', st') \<and>
    redis_room E view (reg', st') = (redis_room E view (reg, st))(n := None)"
proof -
  have n: "store_client (json E) (view st') n = None"
    by (rule store_client_None) (simp add: v)
  have other: "store_client (json E) (view st') m = store_client (json E) (view st) m" if "m \<noteq> n" for m
    using that by (intro store_client_cong) (simp add: v)
  have "redis_ok E view (reg', st')"
    unfolding redis_ok_def fst_conv snd_conv
  proof (intro conjI allI impI)
    fix m
    assume "view st' (pairing_key m) \<noteq> None"
    then have m: "m \<noteq> n" "view st (pairing_key m) \<noteq> None" by (auto simp: v split: if_splits)
    from ok m(2) obtain w' where w': "store_client (json E) (view st) m = Some w'"
      "view st (token_key (uuid_text E) (reconnect_token w')) = Some m" unfolding redis_ok_def by force
    with own m(1) have "reconnect_token w' \<noteq> t" by (auto simp: redis_owns_def split: if_splits)
    with w' m(1) other show "\<exists>w'. store_client (json E) (view st') m = Some w' \<and>
        view st' (token_key (uuid_text E) (reconnect_token w')) = Some m"
      by (auto simp: v)
  next
    fix u m
    assume "view st' (token_key (uuid_text E) u) = Some m"
    then have u: "u \<noteq> t" "view st (token_key (uuid_text E) u) = Some m" by (auto simp: v split: if_splits)
    from ok_token [OF ok u(2)] obtain w' where w': "store_client (json E) (view st) m = Some w'" "reconnect_token w' = u"
      by blast
    have "m \<noteq> n"
    proof
      assume "m = n"
      with w'(1) have "view st (pairing_key n) \<noteq> None"
        using store_client_None [of "view st" n "json E"] by auto
      with own have "view st (token_key (uuid_text E) t) = Some n" by (simp add: redis_owns_def)
      from ok_token [OF ok this] obtain w2 where "store_client (json E) (view st) n = Some w2"
        "reconnect_token w2 = t" by blast
      with w' u(1) \<open>m = n\<close> show False by simp
    qed
    with w' other show "\<exists>w'. store_client (json E) (view st') m = Some w' \<and> reconnect_token w' = u" by auto
  next
    fix m
    show "view st' (pairing_key m) \<noteq> None \<longleftrightarrow> dm_get (waiters_map E) m (local_waiters reg') \<noteq> None"
      using ok by (simp add: reg'_def v w.get_remove redis_ok_def)
  qed
  moreover have "redis_room E view (reg', st') m = ((redis_room E view (reg, st))(n := None)) m" for m
    using n other by (simp add: redis_room_def reg'_def w.get_remove)
  ultimately show ?thesis by (simp add: fun_eq_iff)
qed

lemma same_view:
  assumes "view st' = view st"
  shows "redis_ok E view (reg, st') = redis_ok E view (reg, st)"
    and "redis_room E view (reg, st') = redis_room E view (reg, st)"
    and "redis_admits E view sp (reg, st') = redis_admits E view sp (reg, st)"
  unfolding redis_ok_def redis_room_def redis_admits_def fst_conv snd_conv assms by (rule refl)+

lemma resume_refines:
  assumes ok: "redis_ok E view (reg, st)" and tok: "view st (token_key (uuid_text E) t) = Some n"
    and step: "redis_resume E n i t sp reg st = (Inr r, s', ev)"
  shows "redis_ok E view s' \<and>
    room_register n i (Some t) sp (redis_room E view (reg, st)) = (r, redis_room E view s', ev)"
proof -
  obtain js st' where s': "s' = (reg\<lparr>local_waiters := dm_insert (waiters_map E) n (new_chan sp) (local_waiters reg)\<rparr>, st')"
    and r: "r = RResumed t (new_chan sp)" and ev: "ev = drop_tx (dm_get (waiters_map E) n (local_waiters reg))"
    and js: "client_to_json (json E) (redis_waiting reg i t sp) = Inr js"
    and v: "view st' = (view st)(pairing_key n \<mapsto> js)"
    using resume_ok [OF step] by blast
  from ok_token [OF ok tok] obtain w where w: "store_client (json E) (view st) n = Some w" "reconnect_token w = t"
    by blast
  then obtain js0 where "view st (pairing_key n) = Some js0"
    by (auto simp: store_client_def split: option.splits)
  then obtain c where c: "dm_get (waiters_map E) n (local_waiters reg) = Some c"
    "redis_room E view (reg, st) n = Some \<lparr>slot_token = t, slot_info = connection_info w, slot_chan = c\<rparr>"
    using ok_some [OF ok] w by (metis option.inject)
  have fresh: "(reconnect_token w' = t) = (m = n)" if "store_client (json E) (view st) m = Some w'" for m w'
  proof -
    have "view st (pairing_key m) \<noteq> None" using that store_client_None [of "view st" m "json E"] by auto
    then have "view st (token_key (uuid_text E) (reconnect_token w')) = Some m"
      using ok that unfolding redis_ok_def by force
    with tok w that show ?thesis by auto
  qed
  have v': "view st' = (view st)(pairing_key n \<mapsto> js, token_key (uuid_text E) (reconnect_token (redis_waiting reg i t sp)) \<mapsto> n)"
    using v tok by (auto simp: redis_waiting_def fun_eq_iff)
  show ?thesis
    using ok_put [OF ok js v' _ refl, of "new_chan sp"] fresh c
    by (auto simp: s' r ev room_register_def redis_waiting_def drop_tx_def)
qed

lemma fresh_refines:
  assumes ok: "redis_ok E view (reg, st)" and ad: "redis_admits E view sp (reg, st)"
    and rtok: "\<And>sl. redis_room E view (reg, st) n = Some sl \<Longrightarrow> rtok \<noteq> Some (slot_token sl)"
    and step: "redis_fresh E n i sp reg st = (Inr r, s', ev)"
  shows "redis_ok E view s' \<and>
    room_register n i rtok sp (redis_room E view (reg, st)) = (r, redis_room E view s', ev)"
proof -
  from step obtain st1 where del: "view st1 = (view st)(pairing_key n := None)"
    and cont: "(case view st (pairing_key n) of Some js \<Rightarrow> redis_pair E n i js sp reg st1
       | None \<Rightarrow> redis_wait E n i sp reg st1) = (Inr r, s', ev)"
    unfolding redis_fresh_def by (auto elim!: query_Inr dest: r.getdel_ok)
  show ?thesis
  proof (cases "view st (pairing_key n)")
    case None
    then have "view st1 = view st" using del by (simp add: fun_upd_idem)
    moreover from None cont have "redis_wait E n i sp reg st1 = (Inr r, s', ev)" by simp
    ultimately obtain js st' where
      s': "s' = (reg\<lparr>local_waiters := dm_insert (waiters_map E) n (new_chan sp) (local_waiters reg)\<rparr>, st')"
      and r: "r = RWaiting (new_v4 sp) (new_chan sp)" and ev: "ev = drop_tx (dm_get (waiters_map E) n (local_waiters reg))"
      and js: "client_to_json (json E) (redis_waiting reg i (new_v4 sp) sp) = Inr js"
      and v: "view st' = (view st)(pairing_key n \<mapsto> js,
        token_key (uuid_text E) (reconnect_token (redis_waiting reg i (new_v4 sp) sp)) \<mapsto> n)"
      using wait_ok by (fastforce simp: redis_waiting_def)
    have fresh: "(reconnect_token w' = new_v4 sp) = (m = n)" if "store_client (json E) (view st) m = Some w'" for m w'
    proof -
      have "view st (pairing_key m) \<noteq> None" using that store_client_None [of "view st" m "json E"] by auto
      then have "view st (token_key (uuid_text E) (reconnect_token w')) = Some m"
        using ok that unfolding redis_ok_def by force
      with ad None \<open>view st (pairing_key m) \<noteq> None\<close> show ?thesis by (auto simp: redis_admits_def)
    qed
    show ?thesis
      using ok_put [OF ok js v _ refl, of "new_chan sp"] fresh ok_none [OF ok None]
      by (auto simp: s' r ev room_register_def redis_waiting_def drop_tx_def)
  next
    case (Some js)
    then obtain w c where w: "client_from_json (json E) js = Inr w" "view st (token_key (uuid_text E) (reconnect_token w)) = Some n"
      and c: "dm_get (waiters_map E) n (local_waiters reg) = Some c"
      and room: "redis_room E view (reg, st) n =
        Some \<lparr>slot_token = reconnect_token w, slot_info = connection_info w, slot_chan = c\<rparr>"
      using ok_some [OF ok] by metis
    from Some cont have "redis_pair E n i js sp reg st1 = (Inr r, s', ev)" by simp
    from pair_ok [OF this] w(1) obtain st' where
      s': "s' = (reg\<lparr>local_waiters := snd (dm_remove (waiters_map E) n (local_waiters reg))\<rparr>, st')"
      and r: "r = RPaired (new_v4 sp) (connection_info w)" and ev: "ev = send_tx (Some c) i"
      and v: "view st' = (view st)(pairing_key n := None, token_key (uuid_text E) (reconnect_token w) := None)"
      using c del by auto
    have "redis_owns E view n (reconnect_token w) (reg, st)"
      using w(2) Some by (simp add: redis_owns_def)
    from ok_remove [OF ok v this refl] rtok [OF room] room show ?thesis
      by (auto simp: s' r ev room_register_def send_tx_def)
  qed
qed

lemma register_refines_room:
  assumes ok: "redis_ok E view s" and ad: "redis_admits E view sp s"
    and step: "redis_register E n i rtok sp s = (Inr r, s', ev)"
  shows "redis_ok E view s' \<and> room_register n i rtok sp (redis_room E view s) = (r, redis_room E view s', ev)"
proof -
  obtain reg st where s: "s = (reg, st)" by (cases s)
  show ?thesis
  proof (cases rtok)
    case None
    then show ?thesis using fresh_refines [of reg st sp n None] ok ad step by (simp add: s redis_register_def)
  next
    case (Some t)
    with step obtain st1 where view1: "view st1 = view st"
      and cont: "(if view st (token_key (uuid_text E) t) = Some n then redis_resume E n i t sp reg st1
        else redis_fresh E n i sp reg st1) = (Inr r, s', ev)"
      by (auto simp: redis_register_def s elim!: query_Inr dest: r.get_ok)
    note view = same_view [OF view1]
    show ?thesis
    proof (cases "view st (token_key (uuid_text E) t) = Some n")
      case True
      then show ?thesis
        using resume_refines [of reg st1 t n] ok cont by (simp add: s view view1 Some)
    next
      case False
      have "Some t \<noteq> Some (slot_token sl)" if sl: "redis_room E view (reg, st) n = Some sl" for sl
      proof -
        from sl obtain js where "view st (pairing_key n) = Some js"
          by (auto simp: redis_room_def store_client_def split: option.splits)
        with ok [unfolded s] show ?thesis
          by (rule ok_some) (use sl False in auto)
      qed
      then show ?thesis
        using fresh_refines [of reg st1 sp n "Some t"] ok ad cont False by (simp add: s view Some)
    qed
  qed
qed

lemma unregister_refines_room:
  assumes ok: "redis_ok E view s" and own: "redis_owns E view n t s"
    and step: "redis_unregister E n t s = (Inr (), s', ev)"
  shows "redis_ok E view s' \<and> room_unregister n (redis_room E view s) = (redis_room E view s', ev)"
proof -
  obtain reg st where s: "s = (reg, st)" by (cases s)
  have two: "v |` (- {k, l}) = v(k := None, l := None)" for v :: "rust_string \<Rightarrow> rust_string option" and k l
    by (auto simp: restrict_map_def)
  from step obtain st' where
    del: "r_del (redis_cmds E) [pairing_key n, token_key (uuid_text E) t] st = (Inr (), st')"
    and s': "s' = (reg\<lparr>local_waiters := snd (dm_remove (waiters_map E) n (local_waiters reg))\<rparr>, st')"
    and ev: "ev = drop_tx (dm_get (waiters_map E) n (local_waiters reg))"
    unfolding redis_unregister_def s prod.case by (elim query_Inr) auto
  have v: "view st' = (view st)(pairing_key n := None, token_key (uuid_text E) t := None)"
    using r.del_ok [OF del] two [of "view st"] by simp
  note removed = ok_remove [OF ok [unfolded s] v own [unfolded s] refl]
  show ?thesis
  proof (cases "view st (pairing_key n)")
    case None
    then show ?thesis
      using removed ok_none [OF ok [unfolded s] None] by (simp add: s s' ev room_unregister_def drop_tx_def)
  next
    case (Some js)
    with ok [unfolded s] show ?thesis
      by (rule ok_some) (use removed in \<open>simp add: s s' ev room_unregister_def drop_tx_def\<close>)
  qed
qed

end

text \<open>On one server, and between expirations, the Redis backend fulfils the contract.\<close>

sublocale redis_backend \<subseteq> contract: pairing_registry "redis_ok E view" "redis_room E view"
  "redis_admits E view" "redis_owns E view" "\<lambda>_ _ _ _. False" "redis_register E" "redis_unregister E"
  by unfold_locales (auto dest: register_refines_room unregister_refines_room)

text \<open>The contract's lemmas for this backend.\<close>

context redis_backend
begin

lemmas backend_rendezvous = contract.rendezvous

lemma getdel_Inr:
  assumes "redis_fresh E n i sp reg st = (Inr r, s', ev)"
  obtains st1 where "view st1 = (view st)(pairing_key n := None)"
    and "(case view st (pairing_key n) of Some js \<Rightarrow> redis_pair E n i js sp reg st1
       | None \<Rightarrow> redis_wait E n i sp reg st1) = (Inr r, s', ev)"
  using assms unfolding redis_fresh_def by (auto elim!: query_Inr dest: r.getdel_ok)

text \<open>A stored client and a token that is not valid for the name: the call completes the pairing.\<close>

lemma register_pairs_stored:
  assumes stored: "view st (pairing_key n) = Some js" "client_from_json (json E) js = Inr w"
    and tok: "\<And>t. rtok = Some t \<Longrightarrow> view st (token_key (uuid_text E) t) \<noteq> Some n"
    and step: "redis_register E n i rtok sp (reg, st) = (Inr r, s', ev)"
  shows "r = RPaired (new_v4 sp) (connection_info w) \<and>
    ev = send_tx (dm_get (waiters_map E) n (local_waiters reg)) i \<and>
    view (snd s') (pairing_key n) = None \<and>
    view (snd s') (token_key (uuid_text E) (reconnect_token w)) = None"
proof -
  obtain st1 where v: "view st1 = view st" and fresh: "redis_fresh E n i sp reg st1 = (Inr r, s', ev)"
  proof (cases rtok)
    case None
    with step that show ?thesis by (simp add: redis_register_def)
  next
    case (Some t)
    from step obtain sn st1 where "r_get (redis_cmds E) (token_key (uuid_text E) t) st = (Inr sn, st1)"
      and c: "(if sn = Some n then redis_resume E n i t sp reg st1 else redis_fresh E n i sp reg st1) = (Inr r, s', ev)"
      unfolding redis_register_def Some prod.case option.case by (elim query_Inr)
    with r.get_ok have "sn = view st (token_key (uuid_text E) t)" "view st1 = view st" by blast+
    with c tok [OF Some] that show ?thesis by simp
  qed
  from fresh obtain st2 where v2: "view st2 = (view st1)(pairing_key n := None)"
    and "redis_pair E n i js sp reg st2 = (Inr r, s', ev)"
    by (rule getdel_Inr) (simp add: v stored)
  from pair_ok [OF this(2)] stored(2) show ?thesis
    by (auto simp: v2)
qed

text \<open>
  The cleanup loop, by the names it removes: all whose key is gone, and, when \<open>EXISTS\<close>
  answers, only those.
\<close>

definition removes :: "rust_string list \<Rightarrow> rust_string list \<Rightarrow> nat \<Rightarrow> ('w, 'r) redis_state
    \<Rightarrow> nat \<times> ('w, 'r) redis_state \<times> reg_event list \<Rightarrow> bool" where
  "removes names gone c s res \<longleftrightarrow> (case res of (k, s', ev) \<Rightarrow>
     set gone \<subseteq> set names \<and> distinct gone \<and> k = c + length gone \<and> view (snd s') = view (snd s) \<and>
     (\<forall>n. dm_get (waiters_map E) n (local_waiters (fst s')) =
        (if n \<in> set gone then None else dm_get (waiters_map E) n (local_waiters (fst s)))) \<and>
     ev = concat (map (\<lambda>n. drop_tx (dm_get (waiters_map E) n (local_waiters (fst s)))) gone) \<and>
     (\<forall>n\<in>set names. view (snd s) (pairing_key n) = None \<longrightarrow> n \<in> set gone) \<and>
     ((\<forall>k st. \<not> isl (fst (r_exists (redis_cmds E) k st))) \<longrightarrow> (\<forall>n\<in>set gone. view (snd s) (pairing_key n) = None)) \<and>
     ((\<forall>k st. isl (fst (r_exists (redis_cmds E) k st))) \<longrightarrow> gone = names))"

lemma cleanup_loop_removes:
  "distinct names \<Longrightarrow> \<exists>gone. removes names gone c s (redis_cleanup_loop E names c s)"
proof (induction names arbitrary: c s)
  case Nil
  then show ?case by (simp add: removes_def)
next
  case (Cons m names)
  obtain reg st where s: "s = (reg, st)" by (cases s)
  obtain x st' where ex: "r_exists (redis_cmds E) (pairing_key m) st = (x, st')"
    by (cases "r_exists (redis_cmds E) (pairing_key m) st")
  have v: "view st' = view st" using r.exists_view [OF ex] .
  have m: "m \<notin> set names" "distinct names" using Cons.prems by simp_all
  have dead: "isl x" if "\<forall>k st. isl (fst (r_exists (redis_cmds E) k st))"
    using that ex by (metis fst_conv)
  have alive: "\<not> isl x" if "\<forall>k st. \<not> isl (fst (r_exists (redis_cmds E) k st))"
    using that ex by (metis fst_conv)
  have Inr: "b = (view st (pairing_key m) \<noteq> None)" if "x = Inr b" for b
    using r.exists_ok ex that by blast
  show ?case
  proof (cases "x = Inr True")
    case True
    then have live: "view st (pairing_key m) \<noteq> None" and "\<not> isl x" using Inr by simp_all
    from Cons.IH [OF m(2), of c "(reg, st')"] obtain gone where
      "removes names gone c (reg, st') (redis_cleanup_loop E names c (reg, st'))" by blast
    with True live ex dead \<open>\<not> isl x\<close> show ?thesis
      unfolding removes_def s by (intro exI [of _ gone]) (auto simp: v split: prod.splits)
  next
    case False
    let ?reg = "reg\<lparr>local_waiters := snd (dm_remove (waiters_map E) m (local_waiters reg))\<rparr>"
    have out: "\<not> (case x of Inl _ \<Rightarrow> False | Inr b \<Rightarrow> b)" using False by (cases x) auto
    obtain k s2 ev2 where rest: "redis_cleanup_loop E names (c + 1) (?reg, st') = (k, s2, ev2)"
      by (cases "redis_cleanup_loop E names (c + 1) (?reg, st')") auto
    from Cons.IH [OF m(2), of "c + 1" "(?reg, st')"] obtain gone where
      rm: "removes names gone (c + 1) (?reg, st') (k, s2, ev2)" unfolding rest by blast
    have "m \<notin> set gone" using rm m(1) by (auto simp: removes_def)
    have res: "redis_cleanup_loop E (m # names) c s = (k, s2, drop_tx (dm_get (waiters_map E) m (local_waiters reg)) @ ev2)"
      using out rest by (simp add: s ex)
    have "map (\<lambda>n. drop_tx (dm_get (waiters_map E) n (local_waiters ?reg))) gone =
        map (\<lambda>n. drop_tx (dm_get (waiters_map E) n (local_waiters reg))) gone"
      using \<open>m \<notin> set gone\<close> by (auto simp: w.get_remove)
    then have "ev2 = concat (map (\<lambda>n. drop_tx (dm_get (waiters_map E) n (local_waiters reg))) gone)"
      using rm by (simp add: removes_def del: map_eq_conv)
    moreover have "view st (pairing_key m) = None" if "\<forall>k st. \<not> isl (fst (r_exists (redis_cmds E) k st))"
      using alive [OF that] False Inr by (cases x) auto
    ultimately have "removes (m # names) (m # gone) c s (redis_cleanup_loop E (m # names) c s)"
      using rm \<open>m \<notin> set gone\<close> unfolding res unfolding removes_def s by (simp add: v w.get_remove) auto
    then show ?thesis by blast
  qed
qed

lemma cleanup_removes:
  "\<exists>gone. removes (map fst (dm_iter (waiters_map E) (local_waiters (fst s)))) gone 0 s (redis_cleanup_expired E s)"
  unfolding redis_cleanup_expired_def by (rule cleanup_loop_removes [OF w.iter_distinct])

end

subsection \<open>The backend on the executable instances\<close>

definition ref_env :: "((rust_string, chan) alist, ref_store) redis_env" where
  "ref_env = \<lparr>waiters_map = alist_ops, redis_cmds = ref_ops, json = ref_json, uuid_text = hyphenated_ops\<rparr>"

interpretation ref_backend: redis_backend ref_env ref_view now_secs ref_deadline
  unfolding redis_backend_def ref_env_def redis_env.simps
  by (intro conjI alist.dashmap_axioms ref_redis.redis_store_axioms ref_json.json_codec_axioms
      hyphenated.uuid_codec_axioms)

lemma ref_env_sel [simp]:
  "redis_cmds ref_env = ref_ops" "json ref_env = ref_json" "uuid_text ref_env = hyphenated_ops"
  by (simp_all add: ref_env_def)

text \<open>Two servers, \<open>a\<close> and \<open>b\<close>, and a first client that registers on server \<open>a\<close>.\<close>

definition rdemo_reg :: "string \<Rightarrow> (rust_string, chan) alist redis_registry" where
  "rdemo_reg sid = \<lparr>redis_config = demo_config\<lparr>server_id := str sid\<rparr>, local_waiters = dm_new (waiters_map ref_env)\<rparr>"

definition rdemo_reg1 :: "string \<Rightarrow> chan \<Rightarrow> (rust_string, chan) alist redis_registry" where
  "rdemo_reg1 sid c = (rdemo_reg sid)\<lparr>local_waiters := dm_insert (waiters_map ref_env) demo_name c (dm_new (waiters_map ref_env))\<rparr>"

definition rdemo_client :: "string \<Rightarrow> waiting_client" where
  "rdemo_client sid = \<lparr>connection_info = demo_peer 1, reconnect_token = 1, client_server_id = str sid, registered_at = 0\<rparr>"

definition rdemo_js :: "string \<Rightarrow> rust_string" where
  "rdemo_js sid = projr (client_to_json ref_json (rdemo_client sid))"

definition rdemo_store :: "(rust_string \<times> rust_string \<times> int) list \<Rightarrow> rust_string option list \<Rightarrow> ref_store" where
  "rdemo_store es fs = \<lparr>entries = es, now_secs = 0, faults = fs\<rparr>"

definition rdemo_store1 :: "rust_string option list \<Rightarrow> ref_store" where
  "rdemo_store1 = rdemo_store [(token_key hyphenated_ops 1, demo_name, 60), (pairing_key demo_name, rdemo_js ''a'', 60)]"

lemma rdemo_js_ok:
  "client_to_json ref_json (rdemo_client sid) = Inr (rdemo_js sid)"
  "client_from_json ref_json (rdemo_js sid) = Inr (rdemo_client sid)"
proof -
  show js: "client_to_json ref_json (rdemo_client sid) = Inr (rdemo_js sid)"
    by (simp add: rdemo_js_def ref_json_def ref_client_to_json_def rdemo_client_def)
  show "client_from_json ref_json (rdemo_js sid) = Inr (rdemo_client sid)"
    using ref_json.json_roundtrip [OF js] by (simp add: rdemo_client_def)
qed

lemma rdemo_ttl: "redis_config (rdemo_reg sid) = demo_config\<lparr>server_id := str sid\<rparr>"
    "ttl_secs (demo_config\<lparr>server_id := str sid\<rparr>) = 60"
  by (simp_all add: rdemo_reg_def ttl_secs_def demo_config_def)

lemmas ref_defs = ref_env_sel ref_ops_def attempt_def ref_view_def rdemo_store_def without_def

lemma demo_runtime_sel [simp]:
  "new_v4 (demo_runtime k) = word_of_nat k" "new_chan (demo_runtime k) = k"
  "utc_now (demo_runtime k) = 0" "instant_now (demo_runtime k) = 0"
  by (simp_all add: demo_runtime_def)

lemma rdemo_step1:
  "redis_register ref_env demo_name (demo_peer 1) None (demo_runtime 1) (rdemo_reg ''a'', rdemo_store [] []) =
     (Inr (RWaiting 1 1), (rdemo_reg1 ''a'' 1, rdemo_store1 []), [])"
proof -
  have w: "redis_waiting (rdemo_reg ''a'') (demo_peer 1) 1 (demo_runtime 1) = rdemo_client ''a''"
    by (simp add: redis_waiting_def rdemo_client_def rdemo_ttl)
  have lw: "local_waiters (rdemo_reg ''a'') = dm_new (waiters_map ref_env)" by (simp add: rdemo_reg_def)
  show ?thesis
    by (simp add: redis_register_def redis_fresh_def redis_wait_def query_def internal_def w rdemo_js_ok
        insert_waiter_def Let_def ref_defs rdemo_ttl rdemo_store1_def rdemo_reg1_def lw ref_backend.w.get_new drop_tx_def
        del: One_nat_def)
qed

lemma rdemo0_ok:
  "redis_ok ref_env ref_view (rdemo_reg sid, rdemo_store [] fs)"
  "redis_admits ref_env ref_view sp (rdemo_reg sid, rdemo_store [] fs)"
  "redis_room ref_env ref_view (rdemo_reg sid, rdemo_store [] fs) = Map.empty"
  by (auto simp: redis_ok_def redis_admits_def redis_room_def store_client_def ref_defs rdemo_reg_def ref_backend.w.get_new)

subsection \<open>Properties\<close>

text \<open>
  Claim C7. With one server and between expirations, every call of \<open>register\<close> on the Redis
  backend that succeeds does exactly what the abstract waiting room does (same answer, same
  channel events) and leaves the store and the local channels coherent.
\<close>

theorem redis_register_refines_room:
  assumes "redis_backend E view clock deadline" and "redis_ok E view s" and "redis_admits E view sp s"
    and "redis_register E n i t sp s = (Inr r, s', ev)"
  shows "redis_ok E view s' \<and> room_register n i t sp (redis_room E view s) = (r, redis_room E view s', ev)"
  using redis_backend.register_refines_room [OF assms] .

theorem redis_register_refines_room_witness:
  "redis_ok ref_env ref_view (rdemo_reg1 ''a'' 1, rdemo_store1 []) \<and>
   room_register demo_name (demo_peer 1) None (demo_runtime 1) Map.empty =
     (RWaiting 1 1, redis_room ref_env ref_view (rdemo_reg1 ''a'' 1, rdemo_store1 []), [])"
  using redis_register_refines_room [OF ref_backend.redis_backend_axioms rdemo0_ok(1,2) rdemo_step1]
  by (simp add: rdemo0_ok)

lemma rdemo1_ok:
  "redis_ok ref_env ref_view (rdemo_reg1 ''a'' 1, rdemo_store1 [])"
  "redis_admits ref_env ref_view (demo_runtime 2) (rdemo_reg1 ''a'' 1, rdemo_store1 [])"
proof -
  show "redis_ok ref_env ref_view (rdemo_reg1 ''a'' 1, rdemo_store1 [])"
    using ref_backend.register_refines_room [OF rdemo0_ok(1,2) rdemo_step1] by simp
  show "redis_admits ref_env ref_view (demo_runtime 2) (rdemo_reg1 ''a'' 1, rdemo_store1 [])"
    using ref_backend.token_key_inject [of 2 1]
    by (simp add: redis_admits_def rdemo_store1_def ref_defs)
qed

text \<open>A second client, on a server that has the channel \<open>c\<close> for the name or none.\<close>

definition rdemo_pair ::
    "(rust_string, chan) alist redis_registry \<Rightarrow> rust_string option list
     \<Rightarrow> ((rust_string, chan) alist, ref_store, registration_result) redis_result" where
  "rdemo_pair reg fs = redis_register ref_env demo_name (demo_peer 2) None (demo_runtime 2) (reg, rdemo_store1 fs)"

lemma rdemo_store1_view:
  "ref_view (rdemo_store1 fs) (pairing_key n) = (if n = demo_name then Some (rdemo_js ''a'') else None)"
  "ref_view (rdemo_store1 fs) (token_key hyphenated_ops t) = (if t = 1 then Some demo_name else None)"
  using ref_backend.token_key_inject [of t 1] by (simp_all add: rdemo_store1_def ref_defs)

lemma rdemo_pair_ok: "\<exists>r s' ev. rdemo_pair reg [] = (Inr r, s', ev)"
  by (auto simp: rdemo_pair_def redis_register_def redis_fresh_def redis_pair_def query_def internal_def
      rdemo_js_ok Let_def ref_defs rdemo_store1_def ref_json_def rdemo_js_ok [unfolded ref_json_def, simplified]
      split: option.splits prod.splits if_splits)

text \<open>
  Two clients that register under one name on one server, the second without the first
  one's token, are introduced to each other: the first waits, the second gets the first one's
  address, and the first one's channel receives the second one's address.
\<close>

theorem redis_rendezvous:
  assumes "redis_backend E view clock deadline" and "redis_ok E view s" and "redis_room E view s n = None"
    and "redis_admits E view spA s" and "redis_admits E view spB s1"
    and "redis_register E n iA tA spA s = (Inr rA, s1, evA)"
    and "redis_register E n iB tB spB s1 = (Inr rB, s2, evB)" and "tB \<noteq> Some (new_v4 spA)"
  shows "rA = RWaiting (new_v4 spA) (new_chan spA) \<and> rB = RPaired (new_v4 spB) iA \<and>
    evA = [] \<and> evB = [ChanSend (new_chan spA) iB] \<and> redis_room E view s2 = redis_room E view s"
  using redis_backend.backend_rendezvous [OF assms] .

theorem redis_rendezvous_witness:
  "\<exists>s2. rdemo_pair (rdemo_reg1 ''a'' 1) [] = (Inr (RPaired 2 (demo_peer 1)), s2, [ChanSend 1 (demo_peer 2)])"
proof -
  obtain r s2 ev where step: "rdemo_pair (rdemo_reg1 ''a'' 1) [] = (Inr r, s2, ev)"
    using rdemo_pair_ok by blast
  from redis_rendezvous [OF ref_backend.redis_backend_axioms rdemo0_ok(1) _ rdemo0_ok(2) rdemo1_ok(2)
      rdemo_step1 step [unfolded rdemo_pair_def]]
  have "r = RPaired 2 (demo_peer 1)" "ev = [ChanSend 1 (demo_peer 2)]" by (simp_all add: rdemo0_ok)
  with step show ?thesis by simp
qed

text \<open>
  Claim C37. Across servers the first client is never told. When a client that waits on server A is
  paired by a registration on server B, the second client gets the address, but no channel of
  any server receives anything; the next sweep on A finds the key gone and drops the first
  client's channel, which its handler reports as a timeout.
\<close>

theorem redis_cross_server_silent:
  assumes "redis_backend E view clock deadline"
    and "view st (pairing_key n) = Some js" and "client_from_json (json E) js = Inr w"
    and "dm_get (waiters_map E) n (local_waiters regB) = None"
    and "redis_register E n i None sp (regB, st) = (Inr r, (regB', st'), ev)"
    and "dm_get (waiters_map E) n (local_waiters regA) = Some c"
    and "redis_cleanup_expired E (regA, st') = (k, sA, evA)"
  shows "r = RPaired (new_v4 sp) (connection_info w) \<and> ev = [] \<and>
    ChanDrop c \<in> set evA \<and> (\<forall>d. ChanSend c d \<notin> set evA)"
proof -
  have paired: "r = RPaired (new_v4 sp) (connection_info w)" "ev = []" "view st' (pairing_key n) = None"
    using redis_backend.register_pairs_stored [OF assms(1-3) _ assms(5)] assms(4) by (auto simp: send_tx_def)
  obtain gone where gone: "redis_backend.removes E view (map fst (dm_iter (waiters_map E) (local_waiters regA)))
      gone 0 (regA, st') (k, sA, evA)"
    using redis_backend.cleanup_removes [OF assms(1), of "(regA, st')"] by (auto simp: assms(7))
  note rm = gone [unfolded redis_backend.removes_def [OF assms(1)], simplified]
  have "n \<in> set (map fst (dm_iter (waiters_map E) (local_waiters regA)))"
    using assms(6) dashmap.keys_iter [of "waiters_map E"] redis_backend.axioms(1) [OF assms(1)] by fastforce
  with rm paired(3) have "n \<in> set gone" by auto
  with rm assms(6) have "ChanDrop c \<in> set evA" by (force simp: drop_tx_def)
  moreover have "ChanSend c d \<notin> set evA" for d
    using rm by (auto simp: drop_tx_def split: option.splits)
  ultimately show ?thesis using paired by simp
qed

theorem redis_cross_server_silent_witness:
  "\<exists>s' k sA evA. rdemo_pair (rdemo_reg ''b'') [] = (Inr (RPaired 2 (demo_peer 1)), s', []) \<and>
     redis_cleanup_expired ref_env (rdemo_reg1 ''a'' 1, snd s') = (k, sA, evA) \<and> ChanDrop 1 \<in> set evA"
proof -
  obtain r regB' st' ev where step: "rdemo_pair (rdemo_reg ''b'') [] = (Inr r, (regB', st'), ev)"
    using rdemo_pair_ok by fastforce
  obtain k sA evA where sweep: "redis_cleanup_expired ref_env (rdemo_reg1 ''a'' 1, st') = (k, sA, evA)"
    by (cases "redis_cleanup_expired ref_env (rdemo_reg1 ''a'' 1, st')") auto
  have waits: "dm_get (waiters_map ref_env) demo_name (local_waiters (rdemo_reg1 ''a'' 1)) = Some 1"
    "dm_get (waiters_map ref_env) demo_name (local_waiters (rdemo_reg ''b'')) = None"
    by (simp_all add: rdemo_reg1_def rdemo_reg_def ref_backend.w.get_insert ref_backend.w.get_new)
  have "client_from_json (json ref_env) (rdemo_js ''a'') = Inr (rdemo_client ''a'')" by (simp add: rdemo_js_ok)
  from redis_cross_server_silent [OF ref_backend.redis_backend_axioms _ this waits(2) step [unfolded rdemo_pair_def]
      waits(1) sweep] step sweep
  show ?thesis by (simp add: rdemo_store1_view rdemo_client_def)
qed

text \<open>
  The local channel is notified whichever server the stored client waits on. After the
  waiting client has moved to another server with its token, the server it left still holds
  its old channel; a second client there is paired with the new address, but the notification
  goes to the old channel and nothing is published for the new server.
\<close>

theorem redis_failover_misdelivery:
  assumes "redis_backend E view clock deadline"
    and "view st (pairing_key n) = Some js" and "client_from_json (json E) js = Inr w"
    and "client_server_id w \<noteq> server_id (redis_config reg)"
    and "dm_get (waiters_map E) n (local_waiters reg) = Some c"
    and "redis_register E n i None sp (reg, st) = (Inr r, s', ev)"
  shows "r = RPaired (new_v4 sp) (connection_info w) \<and> ev = [ChanSend c i] \<and>
    snd s' = snd (r_del (redis_cmds E) [token_key (uuid_text E) (reconnect_token w)]
                    (snd (r_getdel (redis_cmds E) (pairing_key n) st)))"
proof -
  have st: "redis_store (redis_cmds E) view clock deadline" and d: "dashmap (waiters_map E)"
    using assms(1) by (simp_all add: redis_backend_def)
  obtain ws where rm: "dm_remove (waiters_map E) n (local_waiters reg) = (Some (n, c), ws)"
    using dashmap.remove_eq [OF d, of n "local_waiters reg"] assms(5) by (metis option.simps(9))
  from assms(6) obtain ex st1 where get: "r_getdel (redis_cmds E) (pairing_key n) st = (Inr ex, st1)"
    and c: "(case ex of Some waiting_json \<Rightarrow> redis_pair E n i waiting_json sp reg st1
      | None \<Rightarrow> redis_wait E n i sp reg st1) = (Inr r, s', ev)"
    unfolding redis_register_def redis_fresh_def prod.case option.case by (elim query_Inr)
  have "ex = Some js" using redis_store.getdel_ok [OF st get] assms(2) by simp
  with c have "redis_pair E n i js sp reg st1 = (Inr r, s', ev)" by simp
  then show ?thesis
    unfolding redis_pair_def rm using assms(3) get by (auto elim!: query_Inr internal_Inr simp: Let_def)
qed

lemma rdemo_move:
  "\<exists>s'. redis_register ref_env demo_name (demo_peer 1) (Some 1) (demo_runtime 7) (rdemo_reg ''b'', rdemo_store1 [])
     = (Inr (RResumed 1 7), s', []) \<and>
     ref_view (snd s') (pairing_key demo_name) = Some (rdemo_js ''b'') \<and> faults (snd s') = []"
proof -
  have w: "redis_waiting (rdemo_reg ''b'') (demo_peer 1) 1 (demo_runtime 7) = rdemo_client ''b''"
    by (simp add: redis_waiting_def rdemo_client_def rdemo_ttl)
  have lw: "dm_get (waiters_map ref_env) demo_name (local_waiters (rdemo_reg ''b'')) = None"
    by (simp add: rdemo_reg_def ref_backend.w.get_new)
  show ?thesis
    by (simp add: redis_register_def redis_resume_def query_def internal_def w rdemo_js_ok
        insert_waiter_def ref_defs rdemo_ttl rdemo_store1_def lw drop_tx_def del: One_nat_def)
qed

theorem redis_failover_misdelivery_witness:
  "\<exists>sB s' ev. redis_register ref_env demo_name (demo_peer 1) (Some 1) (demo_runtime 7)
       (rdemo_reg ''b'', rdemo_store1 []) = (Inr (RResumed 1 7), sB, []) \<and>
     redis_register ref_env demo_name (demo_peer 2) None (demo_runtime 2) (rdemo_reg1 ''a'' 1, snd sB) =
       (Inr (RPaired 2 (demo_peer 1)), s', [ChanSend 1 (demo_peer 2)])"
proof -
  obtain sB where B: "redis_register ref_env demo_name (demo_peer 1) (Some 1) (demo_runtime 7)
       (rdemo_reg ''b'', rdemo_store1 []) = (Inr (RResumed 1 7), sB, [])"
    and v: "ref_view (snd sB) (pairing_key demo_name) = Some (rdemo_js ''b'')" and f: "faults (snd sB) = []"
    using rdemo_move by blast
  have js: "client_from_json (json ref_env) (rdemo_js ''b'') = Inr (rdemo_client ''b'')" by (simp add: rdemo_js_ok)
  have waits: "dm_get (waiters_map ref_env) demo_name (local_waiters (rdemo_reg1 ''a'' 1)) = Some 1"
    by (simp add: rdemo_reg1_def ref_backend.w.get_insert)
  have sid: "client_server_id (rdemo_client ''b'') \<noteq> server_id (redis_config (rdemo_reg1 ''a'' 1))"
    by (simp add: rdemo_client_def rdemo_reg1_def rdemo_ttl str_def)
  obtain ws where rm: "dm_remove (waiters_map ref_env) demo_name (local_waiters (rdemo_reg1 ''a'' 1)) =
      (Some (demo_name, 1), ws)"
    using ref_backend.w.remove_eq [of demo_name "local_waiters (rdemo_reg1 ''a'' 1)"] waits
    by (metis option.simps(9))
  obtain r s' ev where step: "redis_register ref_env demo_name (demo_peer 2) None (demo_runtime 2)
      (rdemo_reg1 ''a'' 1, snd sB) = (Inr r, s', ev)"
    using f v js rm
    by (simp add: redis_register_def redis_fresh_def redis_pair_def query_def internal_def ref_ops_def
        attempt_def without_def Let_def split: prod.splits)
  from redis_failover_misdelivery [OF ref_backend.redis_backend_axioms v js sid waits step] B step
  show ?thesis by (simp add: rdemo_client_def)
qed

text \<open>
  Claim C38. A Redis error between \<open>GETDEL\<close> and the answer loses the waiting client: the second
  client gets the error, the first one's entry is gone but its channel is still held and not
  notified, and the next client to register under the name waits and only then drops it.
\<close>

theorem redis_failed_pairing_loses_client:
  assumes "redis_backend E view clock deadline"
    and "r_getdel (redis_cmds E) (pairing_key n) st = (Inr (Some js), st1)"
    and "client_from_json (json E) js = Inr w"
    and "r_del (redis_cmds E) [token_key (uuid_text E) (reconnect_token w)] st1 = (Inl e, st2)"
    and "view st2 = view st1"
    and "dm_get (waiters_map E) n (local_waiters reg) = Some c"
    and "redis_register E n i None sp (reg, st) = (x, s2, ev)"
    and "redis_register E n i' None sp' s2 = (Inr r', s3, ev')"
  shows "x = Inl (RedisError e) \<and> ev = [] \<and> r' = RWaiting (new_v4 sp') (new_chan sp') \<and> ev' = [ChanDrop c]"
proof -
  have "(x, s2, ev) = (Inl (RedisError e), (reg, st2), [])"
    using assms(2-4,7) by (simp add: redis_register_def redis_fresh_def redis_pair_def query_def internal_def)
  then have x: "x = Inl (RedisError e)" "s2 = (reg, st2)" "ev = []" by simp_all
  have st: "redis_store (redis_cmds E) view clock deadline" using assms(1) by (simp add: redis_backend_def)
  have gone: "view st2 (pairing_key n) = None" using redis_store.getdel_ok [OF st assms(2)] assms(5) by simp
  have "redis_fresh E n i' sp' reg st2 = (Inr r', s3, ev')"
    using assms(8) by (simp add: x redis_register_def)
  then obtain st4 where "redis_wait E n i' sp' reg st4 = (Inr r', s3, ev')"
    by (rule redis_backend.getdel_Inr [OF assms(1)]) (simp add: gone)
  from redis_backend.wait_ok [OF assms(1) this] show ?thesis
    using assms(6) x by (auto simp: drop_tx_def)
qed

theorem redis_failed_pairing_loses_client_witness:
  "\<exists>s2 r' s3. rdemo_pair (rdemo_reg1 ''a'' 1) [None, Some (str ''io'')] = (Inl (RedisError (str ''io'')), s2, []) \<and>
     redis_register ref_env demo_name (demo_peer 3) None (demo_runtime 3) s2 = (Inr (RWaiting 3 3), s3, [ChanDrop 1])"
proof -
  let ?st = "rdemo_store1 [None, Some (str ''io'')]"
  let ?st1 = "rdemo_store [(token_key hyphenated_ops 1, demo_name, 60)] [Some (str ''io'')]"
  let ?st2 = "rdemo_store [(token_key hyphenated_ops 1, demo_name, 60)] []"
  have get: "r_getdel (redis_cmds ref_env) (pairing_key demo_name) ?st = (Inr (Some (rdemo_js ''a'')), ?st1)"
    by (simp add: ref_defs rdemo_store1_def)
  have js: "client_from_json (json ref_env) (rdemo_js ''a'') = Inr (rdemo_client ''a'')" by (simp add: rdemo_js_ok)
  have del: "r_del (redis_cmds ref_env) [token_key (uuid_text ref_env) (reconnect_token (rdemo_client ''a''))] ?st1
      = (Inl (str ''io''), ?st2)" by (simp add: ref_defs)
  have view: "ref_view ?st2 = ref_view ?st1" by (auto simp: ref_defs)
  have waits: "dm_get (waiters_map ref_env) demo_name (local_waiters (rdemo_reg1 ''a'' 1)) = Some 1"
    by (simp add: rdemo_reg1_def ref_backend.w.get_insert)
  obtain x s2 ev where A: "rdemo_pair (rdemo_reg1 ''a'' 1) [None, Some (str ''io'')] = (x, s2, ev)"
    by (cases "rdemo_pair (rdemo_reg1 ''a'' 1) [None, Some (str ''io'')]") auto
  then have s2: "s2 = (rdemo_reg1 ''a'' 1, ?st2)"
    using get js del by (simp add: rdemo_pair_def redis_register_def redis_fresh_def redis_pair_def query_def internal_def)
  have ttl: "ttl_secs (redis_config (rdemo_reg1 ''a'' 1)) = 60" by (simp add: rdemo_reg1_def rdemo_ttl)
  obtain r' s3 ev' where B: "redis_register ref_env demo_name (demo_peer 3) None (demo_runtime 3) s2 = (Inr r', s3, ev')"
    using ttl by (simp add: s2 redis_register_def redis_fresh_def redis_wait_def query_def internal_def ref_defs
        ref_json_def ref_client_to_json_def redis_waiting_def insert_waiter_def Let_def)
  from redis_failed_pairing_loses_client [OF ref_backend.redis_backend_axioms get js del view waits
      A [unfolded rdemo_pair_def] B] A B
  show ?thesis by simp
qed

context redis_backend
begin

lemma keys_of_names: "set (map fst (dm_iter (waiters_map E) m)) = {n. dm_get (waiters_map E) n m \<noteq> None}"
  using w.keys_iter by simp

lemma cleanup_cases:
  assumes "redis_cleanup_expired E (reg, st) = (k, (reg', st'), ev)"
  obtains gone where "distinct gone" and "k = length gone"
    and "\<forall>n. dm_get (waiters_map E) n (local_waiters reg') =
        (if n \<in> set gone then None else dm_get (waiters_map E) n (local_waiters reg))"
    and "\<forall>n c. n \<in> set gone \<and> dm_get (waiters_map E) n (local_waiters reg) = Some c \<longrightarrow> ChanDrop c \<in> set ev"
    and "\<forall>k st. \<not> isl (fst (r_exists (redis_cmds E) k st)) \<Longrightarrow>
      set gone = {n. dm_get (waiters_map E) n (local_waiters reg) \<noteq> None \<and> view st (pairing_key n) = None}"
    and "\<forall>k st. isl (fst (r_exists (redis_cmds E) k st)) \<Longrightarrow>
      set gone = {n. dm_get (waiters_map E) n (local_waiters reg) \<noteq> None}"
proof -
  let ?names = "map fst (dm_iter (waiters_map E) (local_waiters reg))"
  obtain gone where gone: "removes ?names gone 0 (reg, st) (k, (reg', st'), ev)"
    using cleanup_removes [of "(reg, st)"] by (auto simp: assms)
  note rm = gone [unfolded removes_def prod.case fst_conv snd_conv keys_of_names]
  show thesis
  proof (rule that [of gone])
    show "\<forall>n c. n \<in> set gone \<and> dm_get (waiters_map E) n (local_waiters reg) = Some c \<longrightarrow> ChanDrop c \<in> set ev"
    proof (intro allI impI, elim conjE)
      fix n c
      assume n: "n \<in> set gone" "dm_get (waiters_map E) n (local_waiters reg) = Some c"
      have "ev = concat (map (\<lambda>n. drop_tx (dm_get (waiters_map E) n (local_waiters reg))) gone)"
        using rm by blast
      with n show "ChanDrop c \<in> set ev" by (auto simp: drop_tx_def intro!: bexI [of _ n])
    qed
    show "set gone = {n. dm_get (waiters_map E) n (local_waiters reg) \<noteq> None \<and> view st (pairing_key n) = None}"
      if "\<forall>k st. \<not> isl (fst (r_exists (redis_cmds E) k st))"
      using rm that by blast
    show "set gone = {n. dm_get (waiters_map E) n (local_waiters reg) \<noteq> None}"
      if "\<forall>k st. isl (fst (r_exists (redis_cmds E) k st))"
      using rm that keys_of_names by blast
  qed (use rm in simp_all)
qed

lemma cleanup_answering:
  assumes "redis_cleanup_expired E (reg, st) = (k, (reg', st'), ev)"
    and "\<forall>k st. \<not> isl (fst (r_exists (redis_cmds E) k st))"
  shows "dm_get (waiters_map E) n (local_waiters reg') =
      (if view st (pairing_key n) = None then None else dm_get (waiters_map E) n (local_waiters reg))"
    and "dm_get (waiters_map E) n (local_waiters reg) = Some c \<Longrightarrow> view st (pairing_key n) = None \<Longrightarrow> ChanDrop c \<in> set ev"
    and "k = card {m. dm_get (waiters_map E) m (local_waiters reg) \<noteq> None \<and> view st (pairing_key m) = None}"
proof -
  obtain gone where g: "distinct gone" "k = length gone"
    "\<forall>n. dm_get (waiters_map E) n (local_waiters reg') =
        (if n \<in> set gone then None else dm_get (waiters_map E) n (local_waiters reg))"
    "\<forall>n c. n \<in> set gone \<and> dm_get (waiters_map E) n (local_waiters reg) = Some c \<longrightarrow> ChanDrop c \<in> set ev"
    "set gone = {n. dm_get (waiters_map E) n (local_waiters reg) \<noteq> None \<and> view st (pairing_key n) = None}"
    using cleanup_cases [OF assms(1)] assms(2) by blast
  show "dm_get (waiters_map E) n (local_waiters reg') =
      (if view st (pairing_key n) = None then None else dm_get (waiters_map E) n (local_waiters reg))"
    by (simp add: g(3,5))
  show "ChanDrop c \<in> set ev"
    if "dm_get (waiters_map E) n (local_waiters reg) = Some c" "view st (pairing_key n) = None"
    using g(4) [rule_format, of n c] that unfolding g(5) by simp
  show "k = card {m. dm_get (waiters_map E) m (local_waiters reg) \<noteq> None \<and> view st (pairing_key m) = None}"
    using distinct_card [OF g(1)] g(2,5) by simp
qed

lemma cleanup_outage:
  assumes "redis_cleanup_expired E (reg, st) = (k, (reg', st'), ev)"
    and "\<forall>k st. isl (fst (r_exists (redis_cmds E) k st))"
    and "dm_get (waiters_map E) n (local_waiters reg) = Some c"
  shows "dm_get (waiters_map E) n (local_waiters reg') = None \<and> ChanDrop c \<in> set ev \<and>
    k = dm_len (waiters_map E) (local_waiters reg)"
proof -
  obtain gone where g: "distinct gone" "k = length gone"
    "\<forall>n. dm_get (waiters_map E) n (local_waiters reg') =
        (if n \<in> set gone then None else dm_get (waiters_map E) n (local_waiters reg))"
    "\<forall>n c. n \<in> set gone \<and> dm_get (waiters_map E) n (local_waiters reg) = Some c \<longrightarrow> ChanDrop c \<in> set ev"
    "set gone = {n. dm_get (waiters_map E) n (local_waiters reg) \<noteq> None}"
    using cleanup_cases [OF assms(1)] assms(2) by blast
  have "k = dm_len (waiters_map E) (local_waiters reg)"
    using distinct_card [OF g(1)] g(2,5) by (simp add: w.len_card)
  then show ?thesis using g(3) g(4) [rule_format, of n c] assms(3) unfolding g(5) by simp
qed

end

text \<open>The instance with another \<open>EXISTS\<close>: one that always answers, or one that never does.\<close>

definition ref_env_ex ::
    "(rust_string \<Rightarrow> ref_store \<Rightarrow> (rust_string + bool) \<times> ref_store)
     \<Rightarrow> ((rust_string, chan) alist, ref_store) redis_env" where
  "ref_env_ex f = ref_env\<lparr>redis_cmds := ref_ops\<lparr>r_exists := f\<rparr>\<rparr>"

definition answering_exists :: "rust_string \<Rightarrow> ref_store \<Rightarrow> (rust_string + bool) \<times> ref_store" where
  "answering_exists k s = (Inr (ref_view s k \<noteq> None), s)"

definition failing_exists :: "rust_string \<Rightarrow> ref_store \<Rightarrow> (rust_string + bool) \<times> ref_store" where
  "failing_exists k s = (Inl (str ''connection lost''), s)"

lemma ref_backend_ex:
  assumes "f = answering_exists \<or> f = failing_exists"
  shows "redis_backend (ref_env_ex f) ref_view now_secs ref_deadline"
proof -
  have "redis_store (ref_ops\<lparr>r_exists := f\<rparr>) ref_view now_secs ref_deadline"
    using assms ref_redis.redis_store_axioms unfolding redis_store_def
    by (auto simp: answering_exists_def failing_exists_def)
  then show ?thesis
    using ref_backend.redis_backend_axioms by (simp add: redis_backend_def ref_env_ex_def)
qed

lemma ref_env_ex_sel [simp]:
  "waiters_map (ref_env_ex f) = waiters_map ref_env" "redis_cmds (ref_env_ex f) = ref_ops\<lparr>r_exists := f\<rparr>"
  by (simp_all add: ref_env_ex_def)

text \<open>
  Claim C24. As long as Redis answers, a sweep drops the channels of exactly those local clients whose
  key has left the store (expired, unregistered or taken by another server), keeps all others,
  and reports their number.
\<close>

theorem redis_cleanup_exact:
  assumes "redis_backend E view clock deadline"
    and "\<forall>k st. \<not> isl (fst (r_exists (redis_cmds E) k st))"
    and "redis_cleanup_expired E (reg, st) = (k, (reg', st'), ev)"
  shows "dm_get (waiters_map E) n (local_waiters reg') =
      (if view st (pairing_key n) = None then None else dm_get (waiters_map E) n (local_waiters reg)) \<and>
    (dm_get (waiters_map E) n (local_waiters reg) = Some c \<and> view st (pairing_key n) = None \<longrightarrow> ChanDrop c \<in> set ev) \<and>
    k = card {m. dm_get (waiters_map E) m (local_waiters reg) \<noteq> None \<and> view st (pairing_key m) = None}"
  using redis_backend.cleanup_answering [OF assms(1,3,2)] by blast

theorem redis_cleanup_exact_witness:
  "\<exists>s' ev. redis_cleanup_expired (ref_env_ex answering_exists) (rdemo_reg1 ''a'' 1, rdemo_store [] [])
     = (1, s', ev) \<and> ChanDrop 1 \<in> set ev"
proof -
  obtain k reg' st' ev where c: "redis_cleanup_expired (ref_env_ex answering_exists) (rdemo_reg1 ''a'' 1, rdemo_store [] [])
      = (k, (reg', st'), ev)"
    using prod.exhaust by metis
  have ex: "\<forall>k st. \<not> isl (fst (r_exists (redis_cmds (ref_env_ex answering_exists)) k st))"
    by (simp add: answering_exists_def)
  have w: "dm_get (waiters_map ref_env) m (local_waiters (rdemo_reg1 ''a'' 1)) = (if m = demo_name then Some 1 else None)" for m
    by (simp add: rdemo_reg1_def ref_backend.w.get_insert ref_backend.w.get_new)
  have v: "ref_view (rdemo_store [] []) m = None" for m by (simp add: ref_defs)
  have "{m. m = demo_name} = {demo_name}" by simp
  with redis_cleanup_exact [OF ref_backend_ex ex c, of demo_name 1] c show ?thesis
    by (simp add: w v del: One_nat_def not_None_eq)
qed

text \<open>
  A sweep while Redis does not answer drops the channel of every local client, although
  their entries may still be in the store: the clients time out, and a second client that
  comes later is paired with an address whose owner was told that nobody came.
\<close>

theorem redis_cleanup_on_outage:
  assumes "redis_backend E view clock deadline"
    and "\<forall>k st. isl (fst (r_exists (redis_cmds E) k st))"
    and "redis_cleanup_expired E (reg, st) = (k, (reg', st'), ev)"
    and "dm_get (waiters_map E) n (local_waiters reg) = Some c"
  shows "dm_get (waiters_map E) n (local_waiters reg') = None \<and> ChanDrop c \<in> set ev \<and>
    k = dm_len (waiters_map E) (local_waiters reg)"
  using redis_backend.cleanup_outage [OF assms(1,3,2,4)] .

theorem redis_cleanup_on_outage_witness:
  "\<exists>k s' ev. redis_cleanup_expired (ref_env_ex failing_exists) (rdemo_reg1 ''a'' 1, rdemo_store1 []) = (k, s', ev) \<and>
     ChanDrop 1 \<in> set ev \<and> ref_view (rdemo_store1 []) (pairing_key demo_name) \<noteq> None"
proof -
  obtain k reg' st' ev where c: "redis_cleanup_expired (ref_env_ex failing_exists) (rdemo_reg1 ''a'' 1, rdemo_store1 [])
      = (k, (reg', st'), ev)"
    using prod.exhaust by metis
  have ex: "\<forall>k st. isl (fst (r_exists (redis_cmds (ref_env_ex failing_exists)) k st))"
    by (simp add: failing_exists_def)
  have w: "dm_get (waiters_map (ref_env_ex failing_exists)) demo_name (local_waiters (rdemo_reg1 ''a'' 1)) = Some 1"
    by (simp add: rdemo_reg1_def ref_backend.w.get_insert)
  from redis_cleanup_on_outage [OF ref_backend_ex ex c w] c show ?thesis by (simp add: rdemo_store1_view)
qed

text \<open>A first client's registration when \<open>SETEX\<close> refuses the time-to-live.\<close>

context redis_backend
begin

lemma wait_needs_ttl:
  assumes "ttl_secs (redis_config reg) \<le> 0" and "view st (pairing_key n) = None"
  shows "\<exists>e s' ev. redis_fresh E n i sp reg st = (Inl e, s', ev)"
proof -
  have ex: "\<exists>e s'. r_setex (redis_cmds E) k (ttl_secs (redis_config reg)) v st = (Inl e, s')" for k v st
    using r.setex_ttl assms(1) by blast
  have wait: "\<exists>e s' ev. redis_wait E n i sp reg st = (Inl e, s', ev)" for st
  proof (cases "client_to_json (json E) (redis_waiting reg i (new_v4 sp) sp)")
    case (Inr js)
    then show ?thesis
      using ex [of "pairing_key n" js st] by (auto simp: redis_wait_def internal_def query_def)
  qed (simp add: redis_wait_def internal_def)
  obtain x st1 where get: "r_getdel (redis_cmds E) (pairing_key n) st = (x, st1)"
    by (cases "r_getdel (redis_cmds E) (pairing_key n) st")
  show ?thesis
  proof (cases x)
    case (Inr ex)
    with r.getdel_ok get assms(2) have "ex = None" by metis
    with Inr wait [of st1] show ?thesis by (simp add: redis_fresh_def query_def get)
  qed (simp add: redis_fresh_def query_def get)
qed

end

text \<open>
  The time-to-live is the timeout in whole seconds read as a signed 64-bit number.
\<close>

lemma ttl_secs_pos:
  assumes "pairing_timeout config < 2 ^ 64 * nanos_per_sec"
  shows "0 < ttl_secs config \<longleftrightarrow> nanos_per_sec \<le> pairing_timeout config \<and> pairing_timeout config < 2 ^ 63 * nanos_per_sec"
proof -
  define q where "q = pairing_timeout config div nanos_per_sec"
  have q: "q < 2 ^ 64" using assms by (simp add: q_def nanos_per_sec_def less_mult_imp_div_less)
  have "ttl_secs config = signed_take_bit 63 (int q)"
    by (simp add: ttl_secs_def as_secs_def q_def signed_of_nat)
  also have "\<dots> = (if q < 2 ^ 63 then int q else int q - 2 ^ 64)"
  proof (cases "q < 2 ^ 63")
    case True
    then have "signed_take_bit 63 (int q) = int q" by (intro signed_take_bit_int_eq_self) auto
    with True show ?thesis by simp
  next
    case False
    have "signed_take_bit 63 (int q) = signed_take_bit 63 (int q - 2 ^ 64)"
      by (rule signed_take_bit_eq_iff_take_bit_eq [THEN iffD2]) (simp add: take_bit_eq_mod mod_diff_eq [symmetric])
    also have "\<dots> = int q - 2 ^ 64" using False q by (intro signed_take_bit_int_eq_self) auto
    finally show ?thesis using False by simp
  qed
  finally have "0 < ttl_secs config \<longleftrightarrow> 0 < q \<and> q < 2 ^ 63" using q by auto
  also have "\<dots> \<longleftrightarrow> nanos_per_sec \<le> pairing_timeout config \<and> pairing_timeout config < 2 ^ 63 * nanos_per_sec"
    by (auto simp: q_def nanos_per_sec_def div_less_iff_less_mult div_greater_zero_iff)
  finally show ?thesis .
qed

text \<open>
  Resuming renews the entry's time-to-live but not the token's: the token's deadline is
  still the one set by the first registration.
\<close>

theorem redis_resume_keeps_token_deadline:
  assumes "redis_backend E view clock deadline"
    and "view st (token_key (uuid_text E) t) = Some n"
    and "redis_register E n i (Some t) sp (reg, st) = (Inr r, s', ev)"
  shows "r = RResumed t (new_chan sp) \<and>
    deadline (snd s') (pairing_key n) = Some (clock st + ttl_secs (redis_config reg)) \<and>
    deadline (snd s') (token_key (uuid_text E) t) = deadline st (token_key (uuid_text E) t)"
proof -
  have rs: "redis_store (redis_cmds E) view clock deadline" using assms(1) by (simp add: redis_backend_def)
  from assms(3) obtain sn st1 where get: "r_get (redis_cmds E) (token_key (uuid_text E) t) st = (Inr sn, st1)"
    and c: "(if sn = Some n then redis_resume E n i t sp reg st1 else redis_fresh E n i sp reg st1) = (Inr r, s', ev)"
    unfolding redis_register_def prod.case option.case by (elim query_Inr)
  note g = redis_store.get_ok [OF rs get]
  have "redis_resume E n i t sp reg st1 = (Inr r, s', ev)" using c g assms(2) by simp
  from redis_backend.resume_ok [OF assms(1) this] show ?thesis using g by auto
qed

theorem redis_resume_keeps_token_deadline_witness:
  "\<exists>s'. redis_register ref_env demo_name (demo_peer 1) (Some 1) (demo_runtime 7)
       (rdemo_reg ''b'', (rdemo_store1 [])\<lparr>now_secs := 50\<rparr>) = (Inr (RResumed 1 7), s', []) \<and>
     ref_deadline (snd s') (pairing_key demo_name) = Some 110 \<and>
     ref_deadline (snd s') (token_key hyphenated_ops 1) = Some 60"
proof -
  let ?st = "(rdemo_store1 [])\<lparr>now_secs := 50\<rparr>"
  have w: "redis_waiting (rdemo_reg ''b'') (demo_peer 1) 1 (demo_runtime 7) = rdemo_client ''b''"
    by (simp add: redis_waiting_def rdemo_client_def rdemo_ttl)
  have lw: "dm_get (waiters_map ref_env) demo_name (local_waiters (rdemo_reg ''b'')) = None"
    by (simp add: rdemo_reg_def ref_backend.w.get_new)
  obtain r s' where step: "redis_register ref_env demo_name (demo_peer 1) (Some 1) (demo_runtime 7) (rdemo_reg ''b'', ?st) = (Inr r, s', [])"
    by (simp add: redis_register_def redis_resume_def query_def internal_def w rdemo_js_ok
        insert_waiter_def ref_defs rdemo_ttl rdemo_store1_def lw drop_tx_def del: One_nat_def)
  have tok: "ref_view ?st (token_key (uuid_text ref_env) 1) = Some demo_name"
    and dl: "ref_deadline ?st (token_key (uuid_text ref_env) 1) = Some 60"
    by (simp_all add: rdemo_store1_def ref_defs ref_deadline_def)
  from redis_resume_keeps_token_deadline [OF ref_backend.redis_backend_axioms tok step] dl step
  show ?thesis by (simp add: rdemo_ttl)
qed

text \<open>
  Claim C39. Once its token has expired while its entry has not, a waiting client that reconnects is
  taken for a second client and paired with itself: it is given its own earlier address, and
  its own new address is sent on its old channel.
\<close>

theorem redis_self_pairing:
  assumes "redis_backend E view clock deadline"
    and "view st (pairing_key n) = Some js" and "client_from_json (json E) js = Inr w"
    and "view st (token_key (uuid_text E) (reconnect_token w)) = None"
    and "dm_get (waiters_map E) n (local_waiters reg) = Some c"
    and "redis_register E n i (Some (reconnect_token w)) sp (reg, st) = (Inr r, s', ev)"
  shows "r = RPaired (new_v4 sp) (connection_info w) \<and> ev = [ChanSend c i]"
  using redis_backend.register_pairs_stored [OF assms(1-3) _ assms(6)] assms(4,5)
  by (simp add: send_tx_def)

theorem redis_self_pairing_witness:
  "\<exists>s'. redis_register ref_env demo_name (demo_peer 2) (Some 1) (demo_runtime 2)
     (rdemo_reg1 ''a'' 1, rdemo_store [(token_key hyphenated_ops 1, demo_name, 0), (pairing_key demo_name, rdemo_js ''a'', 60)] [])
     = (Inr (RPaired 2 (demo_peer 1)), s', [ChanSend 1 (demo_peer 2)])"
proof -
  let ?st = "rdemo_store [(token_key hyphenated_ops 1, demo_name, 0), (pairing_key demo_name, rdemo_js ''a'', 60)] []"
  have js: "client_from_json (json ref_env) (rdemo_js ''a'') = Inr (rdemo_client ''a'')" by (simp add: rdemo_js_ok)
  have v: "ref_view ?st (pairing_key demo_name) = Some (rdemo_js ''a'')"
    and t: "ref_view ?st (token_key (uuid_text ref_env) (reconnect_token (rdemo_client ''a''))) = None"
    by (simp_all add: ref_defs rdemo_client_def)
  have waits: "dm_get (waiters_map ref_env) demo_name (local_waiters (rdemo_reg1 ''a'' 1)) = Some 1"
    by (simp add: rdemo_reg1_def ref_backend.w.get_insert)
  obtain ws where rm: "dm_remove (waiters_map ref_env) demo_name (local_waiters (rdemo_reg1 ''a'' 1)) =
      (Some (demo_name, 1), ws)"
    using ref_backend.w.remove_eq [of demo_name "local_waiters (rdemo_reg1 ''a'' 1)"] waits
    by (metis option.simps(9))
  have tok: "reconnect_token (rdemo_client ''a'') = 1" by (simp add: rdemo_client_def)
  obtain r s' ev where step: "redis_register ref_env demo_name (demo_peer 2) (Some 1) (demo_runtime 2)
      (rdemo_reg1 ''a'' 1, ?st) = (Inr r, s', ev)"
    using js rm by (simp add: redis_register_def redis_fresh_def redis_pair_def query_def internal_def ref_defs Let_def)
  from redis_self_pairing [OF ref_backend.redis_backend_axioms v js t waits, unfolded tok, OF step] step
  show ?thesis by (simp add: rdemo_client_def)
qed

text \<open>
  Claim C25. \<open>active_count\<close> is the number of pairing names in the store, over all servers, when \<open>KEYS\<close>
  answers, and zero when it fails.
\<close>

theorem redis_active_count_exact:
  assumes "redis_backend E view clock deadline"
  shows "redis_active_count E (reg, st) =
    (if isl (fst (r_keys (redis_cmds E) (str ''tcpunch:pairing:*'') st)) then 0
     else card {n. view st (pairing_key n) \<noteq> None})"
proof -
  have rs: "redis_store (redis_cmds E) view clock deadline" using assms by (simp add: redis_backend_def)
  let ?p = "str ''tcpunch:pairing:''"
  have pat: "str ''tcpunch:pairing:*'' = ?p @ str ''*''" by (simp add: str_def)
  obtain x st' where k: "r_keys (redis_cmds E) (?p @ str ''*'') st = (x, st')"
    by (cases "r_keys (redis_cmds E) (?p @ str ''*'') st")
  have ng: "no_glob ?p" by (simp add: no_glob_def str_def)
  show ?thesis
  proof (cases x)
    case (Inr ks)
    note ks = redis_store.keys_ok [OF rs k [unfolded Inr] ng]
    have "inj_on pairing_key {n. view st (pairing_key n) \<noteq> None}" by (simp add: inj_on_def)
    from card_image [OF this] have card: "card (pairing_key ` {n. view st (pairing_key n) \<noteq> None}) =
        card {n. view st (pairing_key n) \<noteq> None}" .
    have "set ks = pairing_key ` {n. view st (pairing_key n) \<noteq> None}"
    proof (intro set_eqI iffI)
      fix key
      assume "key \<in> set ks"
      with ks have "take (length ?p) key = ?p" and v: "view st key \<noteq> None" by auto
      then have "key = pairing_key (drop (length ?p) key)"
        unfolding pairing_key_def by (metis append_take_drop_id)
      with v show "key \<in> pairing_key ` {n. view st (pairing_key n) \<noteq> None}"
        by (intro image_eqI [of _ _ "drop (length ?p) key"]) auto
    next
      fix key
      assume "key \<in> pairing_key ` {n. view st (pairing_key n) \<noteq> None}"
      then obtain n where "key = pairing_key n" and "view st key \<noteq> None" by blast
      with ks show "key \<in> set ks" by (simp add: pairing_key_def)
    qed
    then have "length ks = card {n. view st (pairing_key n) \<noteq> None}"
      using distinct_card [OF ks [THEN conjunct2, THEN conjunct1]] card by simp
    with Inr k show ?thesis unfolding pat by (simp add: redis_active_count_def)
  next
    case (Inl e)
    with k show ?thesis unfolding pat by (simp add: redis_active_count_def)
  qed
qed

theorem redis_active_count_exact_witness:
  "redis_active_count ref_env (rdemo_reg1 ''a'' 1, rdemo_store1 []) = 1"
proof -
  have one: "{n. ref_view (rdemo_store1 []) (pairing_key n) \<noteq> None} = {demo_name}"
    by (auto simp: rdemo_store1_view)
  have "\<not> isl (fst (r_keys (redis_cmds ref_env) (str ''tcpunch:pairing:*'') (rdemo_store1 [])))"
    by (simp add: ref_defs rdemo_store1_def)
  then show ?thesis
    using redis_active_count_exact [OF ref_backend.redis_backend_axioms, of "rdemo_reg1 ''a'' 1" "rdemo_store1 []"]
    unfolding one by simp
qed

end
