(* ===== verification/Registry.thy ===== *)
theory Registry
  imports Redis_Registry
begin

text \<open>
  The registry the server holds (\<open>enum Registry\<close> at the end of \<open>server/rust/src/registry.rs\<close>):
  either backend behind one interface. Dispatching keeps the contract, so whatever the contract
  gives for a pairing registry holds for the enum, whichever variant it is, and clients cannot
  tell the two backends apart as long as Redis answers and nothing expires.
\<close>

record ('p, 't, 'w, 'r) registry_env =
  mem :: "('p, 't) mem_env"
  red :: "('w, 'r) redis_env"

datatype ('p, 't, 'w, 'r) registry =
    InMemory "('p, 't) in_memory_registry"
  | Redis "('w, 'r) redis_state"

definition registry_register ::
    "('p, 't, 'w, 'r) registry_env \<Rightarrow> rust_string \<Rightarrow> peer_connection_data \<Rightarrow> uuid option \<Rightarrow> runtime
     \<Rightarrow> ('p, 't, 'w, 'r) registry
     \<Rightarrow> (registry_error + registration_result) \<times> ('p, 't, 'w, 'r) registry \<times> reg_event list" where
  "registry_register B name info rtok sp self =
     (case self of
        InMemory r \<Rightarrow> (case mem_register (mem B) name info rtok sp r of (x, r', ev) \<Rightarrow> (x, InMemory r', ev))
      | Redis r \<Rightarrow> (case redis_register (red B) name info rtok sp r of (x, r', ev) \<Rightarrow> (x, Redis r', ev)))"

definition registry_unregister ::
    "('p, 't, 'w, 'r) registry_env \<Rightarrow> rust_string \<Rightarrow> uuid \<Rightarrow> ('p, 't, 'w, 'r) registry
     \<Rightarrow> (registry_error + unit) \<times> ('p, 't, 'w, 'r) registry \<times> reg_event list" where
  "registry_unregister B name token self =
     (case self of
        InMemory r \<Rightarrow> (case mem_unregister (mem B) name token r of (x, r', ev) \<Rightarrow> (x, InMemory r', ev))
      | Redis r \<Rightarrow> (case redis_unregister (red B) name token r of (x, r', ev) \<Rightarrow> (x, Redis r', ev)))"

definition registry_active_count :: "('p, 't, 'w, 'r) registry_env \<Rightarrow> ('p, 't, 'w, 'r) registry \<Rightarrow> nat" where
  "registry_active_count B self =
     (case self of
        InMemory r \<Rightarrow> mem_active_count (mem B) r
      | Redis r \<Rightarrow> redis_active_count (red B) r)"

text \<open>The background sweep of either backend, at the instant \<open>now\<close>.\<close>

definition registry_sweep ::
    "('p, 't, 'w, 'r) registry_env \<Rightarrow> instant \<Rightarrow> ('p, 't, 'w, 'r) registry
     \<Rightarrow> ('p, 't, 'w, 'r) registry \<times> reg_event list" where
  "registry_sweep B now self =
     (case self of
        InMemory r \<Rightarrow> (case mem_cleanup_expired (mem B) now r of (k, r', ev) \<Rightarrow> (InMemory r', ev))
      | Redis r \<Rightarrow> (case redis_cleanup_expired (red B) r of (k, r', ev) \<Rightarrow> (Redis r', ev)))"

subsection \<open>The contract of the enum\<close>

definition registry_ok where
  "registry_ok B view self = (case self of InMemory r \<Rightarrow> mem_ok (mem B) r | Redis r \<Rightarrow> redis_ok (red B) view r)"

definition registry_room where
  "registry_room B view self = (case self of InMemory r \<Rightarrow> mem_room (mem B) r | Redis r \<Rightarrow> redis_room (red B) view r)"

definition registry_admits where
  "registry_admits B view sp self =
     (case self of InMemory r \<Rightarrow> mem_admits (mem B) sp r | Redis r \<Rightarrow> redis_admits (red B) view sp r)"

definition registry_owns where
  "registry_owns B view n t self = (case self of InMemory r \<Rightarrow> True | Redis r \<Rightarrow> redis_owns (red B) view n t r)"

definition registry_expires where
  "registry_expires B self ns self' ev =
     (\<exists>r r'. self = InMemory r \<and> self' = InMemory r' \<and> mem_expires (mem B) r ns r' ev)"

lemmas registry_contract_defs = registry_ok_def registry_room_def registry_admits_def registry_owns_def
  registry_expires_def registry_register_def registry_unregister_def

locale registry_backend = m: mem_backend "mem B" + r: redis_backend "red B" view clock deadline
  for B :: "('p, 't, 'w, 'r) registry_env" and view clock deadline
begin

lemma enum_register_refines:
  assumes "registry_ok B view s" and "registry_admits B view sp s"
    and "registry_register B n i t sp s = (Inr r, s', ev)"
  shows "registry_ok B view s' \<and> room_register n i t sp (registry_room B view s) = (r, registry_room B view s', ev)"
  using assms m.register_keeps_ok m.register_refines_room r.register_refines_room
  by (cases s) (fastforce simp: registry_contract_defs split: prod.splits)+

lemma enum_unregister_refines:
  assumes "registry_ok B view s" and "registry_owns B view n t s"
    and "registry_unregister B n t s = (Inr (), s', ev)"
  shows "registry_ok B view s' \<and> room_unregister n (registry_room B view s) = (registry_room B view s', ev)"
  using assms m.unregister_keeps_ok m.unregister_refines_room r.unregister_refines_room
  by (cases s) (fastforce simp: registry_contract_defs split: prod.splits)+

lemma enum_expires_refines:
  assumes "registry_ok B view s" and "registry_expires B s ns s' ev"
  shows "registry_ok B view s' \<and> room_expire ns (registry_room B view s) = (registry_room B view s', ev)"
  using assms m.expires_refines_room by (auto simp: registry_contract_defs)

end

sublocale registry_backend \<subseteq> contract: pairing_registry "registry_ok B view" "registry_room B view"
  "registry_admits B view" "registry_owns B view" "registry_expires B" "registry_register B" "registry_unregister B"
  by unfold_locales (rule enum_register_refines enum_unregister_refines enum_expires_refines; assumption)+

definition ref_registry_env where
  "ref_registry_env = \<lparr>mem = alist_env, red = ref_env\<rparr>"

interpretation ref_registry: registry_backend ref_registry_env ref_view now_secs ref_deadline
  unfolding registry_backend_def ref_registry_env_def
  by (simp add: alist_mem.mem_backend_axioms ref_backend.redis_backend_axioms)

text \<open>Sequences of successful calls on the enum, with what each returned.\<close>

abbreviation registry_history where
  "registry_history B view \<equiv> backend_history (registry_admits B view) (registry_owns B view) (registry_expires B)
     (registry_register B) (registry_unregister B)"

context registry_backend
begin

lemmas enum_history_refines = contract.history_refines

end

lemma two_registrations:
  assumes "registry_admits B view a s0" and "registry_register B n i t a s0 = (Inr r1, s1, ev1)"
    and "registry_admits B view b s1" and "registry_register B m j u b s1 = (Inr r2, s2, ev2)"
  shows "registry_history B view s0 [(OpRegister n i t a, Some r1, ev1), (OpRegister m j u b, Some r2, ev2)] s2"
proof -
  have "registry_history B view s0 ([] @ [(OpRegister n i t a, Some r1, ev1)]) s1"
    by (rule backend_history.register [OF backend_history.start]) (rule assms(1,2))+
  then have "registry_history B view s0 (([] @ [(OpRegister n i t a, Some r1, ev1)]) @ [(OpRegister m j u b, Some r2, ev2)]) s2"
    by (rule backend_history.register) (rule assms(3,4))+
  then show ?thesis by simp
qed

subsection \<open>Properties\<close>

text \<open>
  Claim C12. The two backends are interchangeable. Take the same sequence of registrations and
  unregistrations, once on a fresh in-memory registry and once on a Redis registry with an empty
  store and one server, every client unregistering its own registration, no key expiring and no
  command failing: every call returns the same result on both and does the same to the notification channels, and the same clients are left
  waiting.
\<close>

theorem backends_agree:
  assumes "registry_backend B view clock deadline"
    and "registry_ok B view (Redis r0)" and "registry_room B view (Redis r0) = Map.empty"
    and "registry_history B view (InMemory (mem_new (mem B) config)) H s"
    and "registry_history B view (Redis r0) H' s'" and "map fst H = map fst H'"
  shows "H = H' \<and> registry_room B view s = registry_room B view s'"
proof -
  have "registry_ok B view (InMemory (mem_new (mem B) config))" "registry_room B view (InMemory (mem_new (mem B) config)) = Map.empty"
    using mem_backend.new_ok [of "mem B" config] assms(1) by (simp_all add: registry_ok_def registry_room_def registry_backend_def)
  from room_history_unique [OF registry_backend.enum_history_refines [OF assms(1,4) this, THEN conjunct2]
      registry_backend.enum_history_refines [OF assms(1,5,2,3), THEN conjunct2] assms(6)]
  show ?thesis .
qed

theorem backends_agree_witness:
  "\<exists>H s s'. H = [(OpRegister demo_name (demo_peer 1) None (demo_runtime 1), Some (RWaiting 1 1), []),
        (OpRegister demo_name (demo_peer 2) None (demo_runtime 2), Some (RPaired 2 (demo_peer 1)), [ChanSend 1 (demo_peer 2)])]
     \<and> registry_history ref_registry_env ref_view (InMemory demo0) H s
     \<and> registry_history ref_registry_env ref_view (Redis (rdemo_reg ''a'', rdemo_store [] [])) H s'
     \<and> registry_room ref_registry_env ref_view s = registry_room ref_registry_env ref_view s'"
proof -
  let ?A = "OpRegister demo_name (demo_peer 1) None (demo_runtime 1)" and ?B = "OpRegister demo_name (demo_peer 2) None (demo_runtime 2)"
    and ?r0 = "(rdemo_reg ''a'', rdemo_store [] [])" and ?x = "RPaired 2 (demo_peer 1)"
  note env = ref_registry_env_def registry_contract_defs
  obtain reg2 where m2: "mem_register alist_env demo_name (demo_peer 2) None (demo_runtime 2) demo1
      = (Inr ?x, reg2, [ChanSend 1 (demo_peer 2)])"
    using alist_mem.register_pair [OF demo1_facts(1), of demo_name demo_entry None]
    by (simp add: demo1_facts demo_entry_def send_tx_def)
  have mem: "registry_history ref_registry_env ref_view (InMemory demo0)
      [(?A, Some (RWaiting 1 1), []), (?B, Some ?x, [ChanSend 1 (demo_peer 2)])] (InMemory reg2)"
    by (rule two_registrations [where ?s1.0 = "InMemory demo1"])
      (simp_all add: env demo_register m2 demo1_facts demo0_facts mem_admits_def del: One_nat_def)
  obtain r s2 ev where r2: "rdemo_pair (rdemo_reg1 ''a'' 1) [] = (Inr r, s2, ev)" using rdemo_pair_ok by blast
  have red: "registry_history ref_registry_env ref_view (Redis ?r0) [(?A, Some (RWaiting 1 1), []), (?B, Some r, ev)] (Redis s2)"
    by (rule two_registrations [where ?s1.0 = "Redis (rdemo_reg1 ''a'' 1, rdemo_store1 [])"])
      (simp_all add: env rdemo_step1 r2 [unfolded rdemo_pair_def] rdemo0_ok rdemo1_ok del: One_nat_def)
  have r0: "registry_ok ref_registry_env ref_view (Redis ?r0)" "registry_room ref_registry_env ref_view (Redis ?r0) = Map.empty"
    by (simp_all add: env rdemo0_ok)
  have "demo0 = mem_new (mem ref_registry_env) demo_config" by (simp add: demo0_def env)
  from backends_agree [OF ref_registry.registry_backend_axioms r0 mem [unfolded this] red] mem red show ?thesis by auto
qed

end
