(* ===== verification/Server.thy ===== *)
theory Server
  imports Registry
begin

text \<open>
  The connection handler (\<open>server/rust/src/server.rs\<close>): configuration, metrics and
  \<open>handle_connection\<close>. The handler suspends at its \<open>await\<close>s; what the awaited read, write and
  wait returned are arguments. The handler is two functions, the request phase (read, register,
  first write) and the wait phase (end of the wait, second write). A write that fails ends the handler
  with the error, as \<open>?\<close> does. The lemmas show that no phase panics, which frame each branch
  writes, and that every connection is counted at most once in the outcome counters.
\<close>

subsection \<open>Configuration and metrics\<close>

record server_config =
  listen_port :: u16
  recv_timeout :: duration
  peer_wait_timeout :: duration
  max_connections :: usize

definition server_config_default :: server_config where
  "server_config_default =
     \<lparr>listen_port = 10000, recv_timeout = from_secs 5, peer_wait_timeout = from_secs 60,
      max_connections = 10000\<rparr>"

text \<open>The atomic counters wrap around at their width; \<open>fetch_add\<close> and \<open>fetch_sub\<close> never panic.\<close>

record server_metrics =
  active_connections :: usize
  total_connections :: u64
  successful_pairings :: u64
  timeouts :: u64
  errors :: u64

definition metrics_new :: server_metrics where
  "metrics_new = \<lparr>active_connections = 0, total_connections = 0, successful_pairings = 0, timeouts = 0, errors = 0\<rparr>"

definition connection_started :: "server_metrics \<Rightarrow> server_metrics" where
  "connection_started m =
     m\<lparr>active_connections := active_connections m + 1, total_connections := total_connections m + 1\<rparr>"

definition connection_ended :: "server_metrics \<Rightarrow> server_metrics" where
  "connection_ended m = m\<lparr>active_connections := active_connections m - 1\<rparr>"

definition pairing_succeeded :: "server_metrics \<Rightarrow> server_metrics" where
  "pairing_succeeded m = m\<lparr>successful_pairings := successful_pairings m + 1\<rparr>"

definition timeout_occurred :: "server_metrics \<Rightarrow> server_metrics" where
  "timeout_occurred m = m\<lparr>timeouts := timeouts m + 1\<rparr>"

definition error_occurred :: "server_metrics \<Rightarrow> server_metrics" where
  "error_occurred m = m\<lparr>errors := errors m + 1\<rparr>"

lemmas metrics_defs [phase_defs] = connection_started_def connection_ended_def pairing_succeeded_def
  timeout_occurred_def error_occurred_def

record metrics_snapshot =
  snap_active_connections :: usize
  snap_total_connections :: u64
  snap_successful_pairings :: u64
  snap_timeouts :: u64
  snap_errors :: u64

definition snapshot :: "server_metrics \<Rightarrow> metrics_snapshot" where
  "snapshot m =
     \<lparr>snap_active_connections = active_connections m, snap_total_connections = total_connections m,
      snap_successful_pairings = successful_pairings m, snap_timeouts = timeouts m, snap_errors = errors m\<rparr>"

text \<open>\<open>ServerState\<close>; the \<open>shutdown_rx\<close> field is not read by the handler.\<close>

record ('p, 't, 'w, 'r) server_state =
  config :: server_config
  registry :: "('p, 't, 'w, 'r) registry"
  metrics :: server_metrics

subsection \<open>The connection handler\<close>

type_synonym io_error = rust_string

text \<open>
  \<open>timeout(recv_timeout, read_exact(&mut buf))\<close>: the filled buffer, an I/O error or the timeout.
  \<open>timeout(peer_wait_timeout, peer_notify)\<close>: the peer, a closed channel or the timeout.
\<close>

datatype read_outcome = ReadOk "byte list" | ReadErr io_error | ReadTimeout
datatype wait_outcome = WaitOk peer_connection_data | WaitClosed | WaitTimeout

text \<open>Where a phase leaves the handler: returned, or waiting for a peer.\<close>

datatype handler =
    Returned "io_error + unit"
  | AwaitPeer rust_string uuid chan peer_connection_data

type_synonym ('p, 't, 'w, 'r) phase =
  "handler \<times> byte list list \<times> ('p, 't, 'w, 'r) server_state \<times> reg_event list"

text \<open>\<open>stream.write_all(&resp.to_bytes()).await?\<close>, then the rest of the branch.\<close>

definition write_response ::
    "uuid_ops \<Rightarrow> server_response \<Rightarrow> io_error + unit \<Rightarrow> ('p, 't, 'w, 'r) server_state \<Rightarrow> reg_event list
     \<Rightarrow> (('p, 't, 'w, 'r) server_state \<Rightarrow> handler \<times> ('p, 't, 'w, 'r) server_state)
     \<Rightarrow> ('p, 't, 'w, 'r) phase option" where
  "write_response U resp written st ev rest = do {
     bytes \<leftarrow> server_response_to_bytes U resp;
     case written of
       Inl e \<Rightarrow> Some (Returned (Inl e), [bytes], st, ev)
     | Inr _ \<Rightarrow> (let (h, st') = rest st in Some (h, [bytes], st', ev))
   }"

definition return_ok :: "('p, 't, 'w, 'r) server_state \<Rightarrow> handler \<times> ('p, 't, 'w, 'r) server_state" where
  "return_ok st = (Returned (Inr ()), st)"

declare return_ok_def [phase_defs]

definition bump :: "(server_metrics \<Rightarrow> server_metrics) \<Rightarrow> ('p, 't, 'w, 'r) server_state \<Rightarrow> ('p, 't, 'w, 'r) server_state" where
  "bump f st = st\<lparr>metrics := f (metrics st)\<rparr>"

text \<open>From the decoded request to the first response.\<close>

definition handle_registration ::
    "uuid_ops \<Rightarrow> ('p, 't, 'w, 'r) registry_env \<Rightarrow> peer_connection_data \<Rightarrow> client_request \<Rightarrow> io_error + unit
     \<Rightarrow> runtime \<Rightarrow> ('p, 't, 'w, 'r) server_state \<Rightarrow> ('p, 't, 'w, 'r) phase option" where
  "handle_registration U B client_info request written sp st =
     (case registry_register B (pairing_name request) client_info (request_token request) sp (registry st) of
        (result, reg', ev) \<Rightarrow>
          let st = st\<lparr>registry := reg'\<rparr>;
              wait = (\<lambda>token chan. write_response U (response_waiting client_info token) written st ev
                        (\<lambda>st. (AwaitPeer (pairing_name request) token chan client_info, st)))
          in case result of
               Inr (RPaired token peer) \<Rightarrow>
                 write_response U (response_paired client_info peer token) written st ev
                   (\<lambda>st. return_ok (bump pairing_succeeded st))
             | Inr (RWaiting token peer_notify) \<Rightarrow> wait token peer_notify
             | Inr (RResumed token peer_notify) \<Rightarrow> wait token peer_notify
             | Inl e \<Rightarrow> write_response U response_error written st ev return_ok)"

definition handle_request ::
    "uuid_ops \<Rightarrow> ('p, 't, 'w, 'r) registry_env \<Rightarrow> socket_addr \<Rightarrow> read_outcome \<Rightarrow> io_error + unit
     \<Rightarrow> runtime \<Rightarrow> ('p, 't, 'w, 'r) server_state \<Rightarrow> ('p, 't, 'w, 'r) phase option" where
  "handle_request U B peer_addr reading written sp st =
     (case from_socket_addr peer_addr of
        None \<Rightarrow> write_response U response_error written st [] return_ok
      | Some client_info \<Rightarrow>
          (case reading of
             ReadOk buf \<Rightarrow> do {
               decoded \<leftarrow> client_request_from_bytes U buf;
               case decoded of
                 Inl e \<Rightarrow> write_response U response_error written st [] return_ok
               | Inr request \<Rightarrow> handle_registration U B client_info request written sp st
             }
           | ReadErr e \<Rightarrow> Some (Returned (Inl e), [], st, [])
           | ReadTimeout \<Rightarrow> Some (Returned (Inr ()), [], bump timeout_occurred st, [])))"

text \<open>From the end of the wait to the second response.\<close>

definition handle_wait ::
    "uuid_ops \<Rightarrow> ('p, 't, 'w, 'r) registry_env \<Rightarrow> rust_string \<Rightarrow> uuid \<Rightarrow> peer_connection_data \<Rightarrow> wait_outcome
     \<Rightarrow> io_error + unit \<Rightarrow> ('p, 't, 'w, 'r) server_state \<Rightarrow> ('p, 't, 'w, 'r) phase option" where
  "handle_wait U B name token client_info waited written st =
     (case waited of
        WaitOk peer \<Rightarrow>
          write_response U (response_paired client_info peer token) written st []
            (\<lambda>st. return_ok (bump pairing_succeeded st))
      | WaitClosed \<Rightarrow>
          write_response U (response_timeout client_info token) written st []
            (\<lambda>st. return_ok (bump timeout_occurred st))
      | WaitTimeout \<Rightarrow>
          (case registry_unregister B name token (registry st) of
             (_, reg', ev) \<Rightarrow>
               write_response U (response_timeout client_info token) written (st\<lparr>registry := reg'\<rparr>) ev
                 (\<lambda>st. return_ok (bump timeout_occurred st))))"

text \<open>The end of the spawned task: an error of the handler is counted, then the connection.\<close>

definition end_task :: "io_error + unit \<Rightarrow> ('p, 't, 'w, 'r) server_state \<Rightarrow> ('p, 't, 'w, 'r) server_state" where
  "end_task result st =
     bump connection_ended (case result of Inl e \<Rightarrow> bump error_occurred st | Inr _ \<Rightarrow> st)"

subsection \<open>No phase panics\<close>

definition frame :: "uuid_ops \<Rightarrow> server_response \<Rightarrow> byte list" where
  "frame U resp = unwrap_or (server_response_to_bytes U resp) []"

text \<open>The request phase without panics, for the proofs.\<close>

definition after_write ::
    "io_error + unit \<Rightarrow> ('p, 't, 'w, 'r) server_state
     \<Rightarrow> (('p, 't, 'w, 'r) server_state \<Rightarrow> handler \<times> ('p, 't, 'w, 'r) server_state)
     \<Rightarrow> handler \<times> ('p, 't, 'w, 'r) server_state" where
  "after_write written st rest = (case written of Inl e \<Rightarrow> (Returned (Inl e), st) | Inr _ \<Rightarrow> rest st)"

context uuid_codec
begin

lemma to_bytes_frame: "server_response_to_bytes U resp = Some (frame U resp)"
  using server_response_layout [of resp] by (simp add: frame_def unwrap_or_def)

lemma write_response_eq:
  "write_response U resp written st ev rest =
     (case after_write written st rest of (h, st') \<Rightarrow> Some (h, [frame U resp], st', ev))"
  by (simp add: write_response_def to_bytes_frame after_write_def split: sum.splits prod.splits)

lemma frame_decodes:
  assumes "peer_info resp \<noteq> Some (peer_new UNSPECIFIED 0)"
  shows "server_response_from_bytes U (frame U resp) = Some (Inr resp)"
  using server_response_decode_encode [of resp] assms to_bytes_frame [of resp] by (cases resp) auto

lemma frame_length: "length (frame U resp) = 50"
  using server_response_layout [of resp] to_string_length
  by (auto simp: frame_def unwrap_or_def padded_def sizes to_be_bytes_def)

end

lemma after_write_simps [simp]:
  "after_write (Inl e) st rest = (Returned (Inl e), st)" "after_write (Inr u) st rest = rest st"
  by (simp_all add: after_write_def)

lemma bump_sel [simp]: "registry (bump f st) = registry st" "metrics (bump f st) = f (metrics st)"
    "config (bump f st) = config st"
  by (simp_all add: bump_def)

definition outcomes :: "server_metrics \<Rightarrow> u64" where
  "outcomes m = successful_pairings m + timeouts m + errors m"

lemma outcomes_bump [simp]:
  "outcomes (pairing_succeeded m) = outcomes m + 1" "outcomes (timeout_occurred m) = outcomes m + 1"
  "outcomes (error_occurred m) = outcomes m + 1" "outcomes (connection_ended m) = outcomes m"
  "active_connections (pairing_succeeded m) = active_connections m"
  "active_connections (timeout_occurred m) = active_connections m"
  "active_connections (error_occurred m) = active_connections m"
  "active_connections (connection_ended m) = active_connections m - 1"
  by (simp_all add: outcomes_def phase_defs)

lemma metrics_end_task:
  "metrics (end_task res st) = connection_ended (case res of Inl e \<Rightarrow> error_occurred (metrics st) | Inr _ \<Rightarrow> metrics st)"
  by (simp add: end_task_def split: sum.splits)

text \<open>
  How a connection's outcome is counted: when the handler returns from the phase, one of the
  counters for pairings, timeouts and errors goes up by one, except that a client that was
  successfully told \<open>Error\<close> is not counted; while the handler waits, none has changed.
\<close>

definition counted_once ::
    "io_error + unit \<Rightarrow> ('p, 't, 'w, 'r) server_state \<Rightarrow> ('p, 't, 'w, 'r) phase \<Rightarrow> bool" where
  "counted_once written st p = (case p of (h, frames, st', ev) \<Rightarrow>
     length frames \<le> 1 \<and> list_all (\<lambda>f. length f = 50) frames \<and>
     (case h of
        Returned res \<Rightarrow> outcomes (metrics (end_task res st')) =
          outcomes (metrics st) + (if written = Inr () \<and> map hd frames = [status_as_u8 Error] then 0 else 1)
      | AwaitPeer n t c i \<Rightarrow> metrics st' = metrics st \<and> map hd frames = [status_as_u8 Waiting]))"

lemma counted_once_simps:
  "counted_once written st (Returned res, frames, st', ev) \<longleftrightarrow>
     length frames \<le> 1 \<and> list_all (\<lambda>f. length f = 50) frames \<and>
     outcomes (metrics (end_task res st')) =
       outcomes (metrics st) + (if written = Inr () \<and> map hd frames = [status_as_u8 Error] then 0 else 1)"
  "counted_once written st (AwaitPeer n t c i, frames, st', ev) \<longleftrightarrow>
     length frames \<le> 1 \<and> list_all (\<lambda>f. length f = 50) frames \<and>
     metrics st' = metrics st \<and> map hd frames = [status_as_u8 Waiting]"
  by (simp_all add: counted_once_def)

context uuid_codec
begin

lemma frame_status: "hd (frame U resp) = status_as_u8 (status resp)"
  using server_response_layout [of resp] by (auto simp: frame_def unwrap_or_def)

text \<open>Both phases as total functions: the branch taken decides the response and the rest.\<close>

lemma registration_eq:
  assumes "registry_register B (pairing_name req) info (request_token req) sp (registry st) = (x, reg', ev)"
  shows "handle_registration U B info req written sp st =
    (let st' = st\<lparr>registry := reg'\<rparr>;
         (resp, rest) = (case x of
            Inr (RPaired token peer) \<Rightarrow> (response_paired info peer token, \<lambda>st. return_ok (bump pairing_succeeded st))
          | Inr (RWaiting token c) \<Rightarrow> (response_waiting info token, \<lambda>st. (AwaitPeer (pairing_name req) token c info, st))
          | Inr (RResumed token c) \<Rightarrow> (response_waiting info token, \<lambda>st. (AwaitPeer (pairing_name req) token c info, st))
          | Inl e \<Rightarrow> (response_error, return_ok));
         (h, st'') = after_write written st' rest
     in Some (h, [frame U resp], st'', ev))"
  using assms by (simp add: handle_registration_def write_response_eq Let_def
      split: sum.splits registration_result.splits prod.splits)

lemma request_cases:
  obtains (refused) "handle_request U B addr reading written sp st =
      (case after_write written st return_ok of (h, st') \<Rightarrow> Some (h, [frame U response_error], st', []))"
      "(\<forall>i. sa_ip addr \<noteq> V4 i) \<or> (\<exists>buf. reading = ReadOk buf)"
  | (read_error) e i where "reading = ReadErr e" "sa_ip addr = V4 i"
      "handle_request U B addr reading written sp st = Some (Returned (Inl e), [], st, [])"
  | (read_timeout) i where "reading = ReadTimeout" "sa_ip addr = V4 i"
      "handle_request U B addr reading written sp st = Some (Returned (Inr ()), [], bump timeout_occurred st, [])"
  | (registered) buf info req where "reading = ReadOk buf" "from_socket_addr addr = Some info"
      "client_request_from_bytes U buf = Some (Inr req)"
      "handle_request U B addr reading written sp st = handle_registration U B info req written sp st"
proof (cases "from_socket_addr addr")
  case None
  then have "\<forall>i. sa_ip addr \<noteq> V4 i" by (auto simp: from_socket_addr_def split: ip_addr.splits)
  then show thesis using None refused by (simp add: handle_request_def write_response_eq)
next
  case (Some info)
  then obtain i where i: "sa_ip addr = V4 i" by (auto simp: from_socket_addr_def split: ip_addr.splits)
  show thesis
  proof (cases reading)
    case (ReadOk buf)
    obtain d where d: "client_request_from_bytes U buf = Some d"
      by (simp add: client_request_from_bytes_eq)
    show thesis
    proof (cases d)
      case (Inl e)
      then show thesis using Some ReadOk d refused by (simp add: handle_request_def write_response_eq)
    next
      case (Inr req)
      then show thesis using Some ReadOk d registered by (simp add: handle_request_def)
    qed
  next
    case (ReadErr e)
    then show thesis using Some i read_error by (simp add: handle_request_def)
  next
    case ReadTimeout
    then show thesis using Some i read_timeout by (simp add: handle_request_def)
  qed
qed

lemma registration_total:
  "\<exists>p. handle_registration U B info req written sp st = Some p \<and> counted_once written st p \<and> length (fst (snd p)) = 1"
proof -
  obtain x reg' ev where r: "registry_register B (pairing_name req) info (request_token req) sp (registry st) = (x, reg', ev)"
    by (cases "registry_register B (pairing_name req) info (request_token req) sp (registry st)") auto
  show ?thesis
    by (cases x; cases written)
      (auto simp: registration_eq [OF r] counted_once_simps metrics_end_task return_ok_def response_defs Let_def
        frame_status frame_length split: registration_result.splits)
qed

lemma request_total:
  "\<exists>p. handle_request U B addr reading written sp st = Some p \<and> counted_once written st p \<and>
     (fst (snd p) = [] \<longleftrightarrow> (\<exists>i. sa_ip addr = V4 i) \<and> (\<forall>buf. reading \<noteq> ReadOk buf))"
proof (cases rule: request_cases [of B addr reading written sp st])
  case refused
  then show ?thesis
    by (cases written) (auto simp: counted_once_simps metrics_end_task return_ok_def response_defs frame_status frame_length)
next
  case (registered buf info req)
  with registration_total [of B info req written sp st] show ?thesis by auto
qed (auto simp: counted_once_simps metrics_end_task)

lemma wait_total:
  "\<exists>res resp st' ev. handle_wait U B name token info waited written st = Some (Returned res, [frame U resp], st', ev) \<and>
     outcomes (metrics (end_task res st')) = outcomes (metrics st) + 1 \<and>
     resp = (case waited of WaitOk peer \<Rightarrow> response_paired info peer token | _ \<Rightarrow> response_timeout info token)"
  by (cases waited; cases written)
    (auto simp: handle_wait_def write_response_eq metrics_end_task return_ok_def split: prod.splits)

end

subsection \<open>The request phase on the in-memory registry\<close>

context mem_backend
begin

lemma first_request:
  assumes "uuid_codec U" and B: "mem B = E" and st: "registry st = InMemory reg"
    and ok: "mem_ok E reg" and none: "mem_entry E reg (pairing_name req) = None"
    and m: "mem_register E (pairing_name req) info (request_token req) sp reg = (x, reg', ev)"
  shows "handle_registration U B info req written sp st =
    (case after_write written (st\<lparr>registry := InMemory reg'\<rparr>)
        (\<lambda>st. (AwaitPeer (pairing_name req) (new_v4 sp) (new_chan sp) info, st)) of
      (h, st') \<Rightarrow> Some (h, [frame U (response_waiting info (new_v4 sp))], st', []))"
proof -
  have "registry_register B (pairing_name req) info (request_token req) sp (registry st) =
      (Inr (RWaiting (new_v4 sp) (new_chan sp)), InMemory reg', [])"
    using m wait_maps(3,4) [OF ok none m] by (simp add: registry_register_def st B)
  from uuid_codec.registration_eq [OF assms(1) this] show ?thesis by (simp add: Let_def)
qed

lemma second_request:
  assumes "uuid_codec U" and B: "mem B = E" and st: "registry st = InMemory reg"
    and ok: "mem_ok E reg" and e: "mem_entry E reg (pairing_name req) = Some e"
    and tok: "request_token req \<noteq> Some (entry_token e)"
    and m: "mem_register E (pairing_name req) info (request_token req) sp reg = (x, reg', ev)"
  shows "handle_registration U B info req written sp st =
    (case after_write written (st\<lparr>registry := InMemory reg'\<rparr>) (\<lambda>st. return_ok (bump pairing_succeeded st)) of
      (h, st') \<Rightarrow> Some (h, [frame U (response_paired info (connection_info (waiting_client e)) (new_v4 sp))],
        st', send_tx (notify_tx e) info))"
proof -
  have "registry_register B (pairing_name req) info (request_token req) sp (registry st) =
      (Inr (RPaired (new_v4 sp) (connection_info (waiting_client e))), InMemory reg', send_tx (notify_tx e) info)"
    using m pair_maps(3,4) [OF ok e tok m] by (simp add: registry_register_def st B)
  from uuid_codec.registration_eq [OF assms(1) this] show ?thesis by (simp add: Let_def)
qed

end

lemma request_registers:
  "from_socket_addr addr = Some info \<Longrightarrow> client_request_from_bytes U buf = Some (Inr req) \<Longrightarrow>
   handle_request U B addr (ReadOk buf) written sp st = handle_registration U B info req written sp st"
  by (simp add: handle_request_def)

text \<open>Concrete connections for the witnesses.\<close>

definition demo_addr :: "nat \<Rightarrow> socket_addr" where
  "demo_addr k = to_socket_addr (demo_peer k)"

definition demo_buf :: "byte list" where
  "demo_buf = demo_name @ replicate 137 0"

definition demo_server ::
    "((rust_string, pairing_entry) alist, (uuid, rust_string) alist) in_memory_registry
     \<Rightarrow> ((rust_string, pairing_entry) alist, (uuid, rust_string) alist, (rust_string, chan) alist, ref_store) server_state" where
  "demo_server reg = \<lparr>config = server_config_default, registry = InMemory reg, metrics = metrics_new\<rparr>"

lemma demo_request:
  "from_socket_addr (demo_addr k) = Some (demo_peer k)"
  "client_request_from_bytes hyphenated_ops demo_buf = Some (Inr \<lparr>pairing_name = demo_name, request_token = None\<rparr>)"
  by (simp_all add: demo_addr_def from_socket_addr_def to_socket_addr_def demo_buf_def client_request_from_bytes_eq
      sizes decode_request_fields_def parse_null_terminated_string_eq str_def takeWhile_replicate)

lemma ref_registry_mem [simp]: "mem ref_registry_env = alist_env"
  by (simp add: ref_registry_env_def)

subsection \<open>Properties\<close>

text \<open>
  Claim C8. No connection makes its handler panic, whatever bytes arrive and however the reads,
  writes and waits end. The request phase sends at most one frame of 50 bytes, and none exactly
  when an IPv4 client's request could not be read; the wait phase always sends one. When the
  task ends, exactly one of the counters for pairings, timeouts and errors has gone up by one
  on account of the connection, except for clients successfully told \<open>Error\<close>, which no counter
  records.
\<close>

theorem connection_counted_once:
  assumes "uuid_codec U"
  shows "(\<exists>p. handle_request U B addr reading written sp st = Some p \<and> counted_once written st p \<and>
        (fst (snd p) = [] \<longleftrightarrow> (\<exists>i. sa_ip addr = V4 i) \<and> (\<forall>buf. reading \<noteq> ReadOk buf))) \<and>
    (\<exists>res f st' ev. handle_wait U B name token info waited written st = Some (Returned res, [f], st', ev) \<and>
        length f = 50 \<and> outcomes (metrics (end_task res st')) = outcomes (metrics st) + 1)"
proof (rule conjI, rule uuid_codec.request_total [OF assms])
  obtain res resp st' ev where
    "handle_wait U B name token info waited written st = Some (Returned res, [frame U resp], st', ev)"
    "outcomes (metrics (end_task res st')) = outcomes (metrics st) + 1"
    using uuid_codec.wait_total [OF assms] by blast
  with uuid_codec.frame_length [OF assms, of resp] show
    "\<exists>res f st' ev. handle_wait U B name token info waited written st = Some (Returned res, [f], st', ev) \<and>
        length f = 50 \<and> outcomes (metrics (end_task res st')) = outcomes (metrics st) + 1"
    by (intro exI conjI)
qed

theorem connection_counted_once_witness:
  "\<exists>p. handle_request hyphenated_ops ref_registry_env (demo_addr 1) ReadTimeout (Inr ()) (demo_runtime 1) (demo_server demo0)
     = Some p \<and> counted_once (Inr ()) (demo_server demo0) p"
  using connection_counted_once [OF hyphenated.uuid_codec_axioms] by blast

text \<open>
  Claim C34. A first client whose connection breaks before it could be told to wait stays
  registered: its handler ends with an error but does not unregister it. The next client under
  the name is told that it is paired, with the address of the client that is gone, and the
  pairing is counted as a success.
\<close>

theorem vanished_client_is_paired:
  assumes "uuid_codec U" and "mem_backend (mem B)"
    and "registry st = InMemory reg" and "mem_ok (mem B) reg" and "mem_admits (mem B) sp reg"
    and "from_socket_addr addr = Some info" and "client_request_from_bytes U buf = Some (Inr req)"
    and "mem_entry (mem B) reg (pairing_name req) = None"
    and "from_socket_addr addrB = Some infoB" and "client_request_from_bytes U bufB = Some (Inr reqB)"
    and "pairing_name reqB = pairing_name req" and "request_token reqB = None"
    and "handle_request U B addr (ReadOk buf) (Inl e) sp st = Some (h, frames, st1, ev)"
  shows "h = Returned (Inl e) \<and>
    (\<exists>st2 ev2. handle_request U B addrB (ReadOk bufB) (Inr ()) spB (end_task (Inl e) st1) =
        Some (Returned (Inr ()), [frame U (response_paired infoB info (new_v4 spB))], st2, ev2) \<and>
      successful_pairings (metrics st2) = successful_pairings (metrics st) + 1)"
proof -
  obtain x reg1 ev1 where m1: "mem_register (mem B) (pairing_name req) info (request_token req) sp reg = (x, reg1, ev1)"
    by (cases "mem_register (mem B) (pairing_name req) info (request_token req) sp reg") auto
  note maps = mem_backend.wait_maps [OF assms(2,4,8) m1]
  have ok1: "mem_ok (mem B) reg1" by (rule mem_backend.register_keeps_ok [OF assms(2,4,5) m1])
  have one: "h = Returned (Inl e)" "st1 = st\<lparr>registry := InMemory reg1\<rparr>"
    using assms(13) mem_backend.first_request [OF assms(2,1) refl assms(3,4,8) m1, of "Inl e"]
    by (simp_all add: request_registers [OF assms(6,7)])
  let ?st = "end_task (Inl e) st1"
  have st: "registry ?st = InMemory reg1"
    and met: "successful_pairings (metrics ?st) = successful_pairings (metrics st)"
    by (simp_all add: one end_task_def phase_defs)
  obtain en where en: "mem_entry (mem B) reg1 (pairing_name reqB) = Some en" "connection_info (waiting_client en) = info"
    "request_token reqB \<noteq> Some (entry_token en)"
    using assms(11,12) by (simp add: maps(1))
  obtain x2 reg2 ev2 where m2: "mem_register (mem B) (pairing_name reqB) infoB (request_token reqB) spB reg1 = (x2, reg2, ev2)"
    by (cases "mem_register (mem B) (pairing_name reqB) infoB (request_token reqB) spB reg1") auto
  show ?thesis
    using mem_backend.second_request [OF assms(2,1) refl st ok1 en(1,3) m2, of "Inr ()"] one(1) met
    by (simp add: request_registers [OF assms(9,10)] en(2) phase_defs)
qed

theorem vanished_client_is_paired_witness:
  "\<exists>h st1 frames ev st2 ev2.
     handle_request hyphenated_ops ref_registry_env (demo_addr 1) (ReadOk demo_buf) (Inl (str ''reset'')) (demo_runtime 1)
       (demo_server demo0) = Some (h, frames, st1, ev) \<and>
     handle_request hyphenated_ops ref_registry_env (demo_addr 2) (ReadOk demo_buf) (Inr ()) (demo_runtime 2)
       (end_task (Inl (str ''reset'')) st1) =
       Some (Returned (Inr ()), [frame hyphenated_ops (response_paired (demo_peer 2) (demo_peer 1) 2)], st2, ev2)"
proof -
  let ?st = "demo_server demo0"
  have reg: "registry ?st = InMemory demo0" by (simp add: demo_server_def)
  obtain h frames st1 ev where one: "handle_request hyphenated_ops ref_registry_env (demo_addr 1) (ReadOk demo_buf)
      (Inl (str ''reset'')) (demo_runtime 1) ?st = Some (h, frames, st1, ev)"
    using hyphenated.request_total by (metis prod.exhaust)
  have ok: "mem_ok (mem ref_registry_env) demo0" "mem_admits (mem ref_registry_env) (demo_runtime 1) demo0"
    "mem_entry (mem ref_registry_env) demo0 (pairing_name \<lparr>pairing_name = demo_name, request_token = None\<rparr>) = None"
    by (simp_all add: demo0_facts mem_admits_def)
  have E: "mem_backend (mem ref_registry_env)" by (simp add: alist_mem.mem_backend_axioms)
  from vanished_client_is_paired [OF hyphenated.uuid_codec_axioms E reg ok(1,2) demo_request ok(3) demo_request refl _ one,
      where spB = "demo_runtime 2"] one
  show ?thesis by simp blast
qed

text \<open>
  Claim C35. A handler whose wait timed out unregisters by name. If another client waits under the
  name by then, that client is evicted: its entry is removed, its channel is dropped, so it is
  told \<open>Timeout\<close> long before its own time is up, and its token stays behind.
\<close>

theorem timeout_evicts_next_client:
  assumes "uuid_codec U" and "mem_backend (mem B)"
    and "registry st = InMemory reg" and "mem_ok (mem B) reg"
    and "mem_entry (mem B) reg name = Some e" and "entry_token e \<noteq> token"
    and "handle_wait U B name token info WaitTimeout (Inr ()) st = Some (h, frames, st', ev)"
  shows "\<exists>reg' c. registry st' = InMemory reg' \<and> mem_entry (mem B) reg' name = None \<and>
    notify_tx e = Some c \<and> ev = [ChanDrop c] \<and> mem_token (mem B) reg' (entry_token e) = Some name \<and>
    frames = [frame U (response_timeout info token)] \<and> timeouts (metrics st') = timeouts (metrics st) + 1"
proof -
  obtain x reg' ev' where m: "mem_unregister (mem B) name token reg = (x, reg', ev')"
    by (cases "mem_unregister (mem B) name token reg") auto
  note maps = mem_backend.unregister_maps [OF assms(2) m]
  obtain c where c: "notify_tx e = Some c" and tok: "mem_token (mem B) reg (entry_token e) = Some name"
    using mem_backend.ok_entry [OF assms(2,4,5)] by blast
  have "ev' = [ChanDrop c]" using maps(4) assms(5) c by (simp add: drop_tx_def)
  moreover have "mem_token (mem B) reg' (entry_token e) = Some name" using maps(2) assms(5,6) tok by auto
  moreover have "registry_unregister B name token (registry st) = (x, InMemory reg', ev')"
    by (simp add: registry_unregister_def assms(3) m)
  ultimately show ?thesis
    using assms(7) c maps(1) [of name]
    by (simp add: handle_wait_def uuid_codec.write_response_eq [OF assms(1)] phase_defs)
      (auto simp: phase_defs)
qed

theorem timeout_evicts_next_client_witness:
  "\<exists>frames st' ev. handle_wait hyphenated_ops ref_registry_env demo_name 77 (demo_peer 9) WaitTimeout (Inr ()) (demo_server demo1)
     = Some (Returned (Inr ()), frames, st', [ChanDrop 1])"
proof -
  have reg: "registry (demo_server demo1) = InMemory demo1" by (simp add: demo_server_def)
  have E: "mem_backend (mem ref_registry_env)" by (simp add: alist_mem.mem_backend_axioms)
  have ok: "mem_ok (mem ref_registry_env) demo1" "mem_entry (mem ref_registry_env) demo1 demo_name = Some demo_entry"
    "entry_token demo_entry \<noteq> 77"
    by (simp_all add: demo1_facts demo_entry_def)
  obtain x reg' ev' where "registry_unregister ref_registry_env demo_name 77 (registry (demo_server demo1)) = (x, reg', ev')"
    by (cases "registry_unregister ref_registry_env demo_name 77 (registry (demo_server demo1))") auto
  then obtain h frames st' ev where w: "handle_wait hyphenated_ops ref_registry_env demo_name 77 (demo_peer 9) WaitTimeout (Inr ())
      (demo_server demo1) = Some (h, frames, st', ev)" and h: "h = Returned (Inr ())"
    by (simp add: handle_wait_def hyphenated.write_response_eq return_ok_def)
  from timeout_evicts_next_client [OF hyphenated.uuid_codec_axioms E reg ok w] w h show ?thesis
    by (auto simp: demo_entry_def)
qed

end
