(* ===== verification/Accept_Loop.thy ===== *)
theory Accept_Loop
  imports Server
begin

text \<open>
  The accept loop (\<open>run_server\<close> in \<open>server/rust/src/server.rs\<close>) and the tasks it spawns, as a
  transition system. A task is where its handler is suspended; a step is one stretch of code
  between two suspension points of one task, one turn of the accept loop, or one sweep of the
  registry, in any order. The lemmas show that \<open>active_connections\<close> counts the running tasks,
  when the connection limit holds and when it does not, and that a waiting client can always
  be found by its name or has been notified.
\<close>

subsection \<open>Tasks and steps\<close>

datatype task =
    Spawned socket_addr
  | Reading socket_addr
  | Waits rust_string uuid chan peer_connection_data
  | TimedOut rust_string uuid peer_connection_data
  | Ended

record ('p, 't, 'w, 'r) system =
  srv :: "('p, 't, 'w, 'r) server_state"
  tasks :: "task list"
  log :: "reg_event list"
  next_chan :: chan
  sent :: "(nat \<times> byte list) list"
  accepting :: bool

definition system_new :: "server_config \<Rightarrow> ('p, 't, 'w, 'r) registry \<Rightarrow> ('p, 't, 'w, 'r) system" where
  "system_new cfg reg =
     \<lparr>srv = \<lparr>config = cfg, registry = reg, metrics = metrics_new\<rparr>, tasks = [], log = [], next_chan = 0,
      sent = [], accepting = True\<rparr>"

text \<open>One turn of the \<open>select!\<close> loop: which branch completed, and with what.\<close>

datatype accept_event = ShutdownChanged bool | AcceptOk socket_addr | AcceptErr io_error

definition accept_step :: "accept_event \<Rightarrow> ('p, 't, 'w, 'r) system \<Rightarrow> ('p, 't, 'w, 'r) system" where
  "accept_step e s =
     (case e of
        ShutdownChanged stop \<Rightarrow> if stop then s\<lparr>accepting := False\<rparr> else s
      | AcceptOk peer_addr \<Rightarrow>
          if active_connections (metrics (srv s)) \<ge> max_connections (config (srv s)) then s
          else s\<lparr>tasks := tasks s @ [Spawned peer_addr]\<rparr>
      | AcceptErr e \<Rightarrow> s)"

text \<open>The spawned task begins: the connection is counted, then the handler reads.\<close>

definition start_task :: "nat \<Rightarrow> socket_addr \<Rightarrow> ('p, 't, 'w, 'r) system \<Rightarrow> ('p, 't, 'w, 'r) system" where
  "start_task i addr s = s\<lparr>srv := bump connection_started (srv s), tasks := (tasks s)[i := Reading addr]\<rparr>"

text \<open>A phase of the handler has run: it waits, or the task ends.\<close>

definition apply_phase ::
    "nat \<Rightarrow> ('p, 't, 'w, 'r) phase \<Rightarrow> ('p, 't, 'w, 'r) system \<Rightarrow> ('p, 't, 'w, 'r) system" where
  "apply_phase i p s =
     (case p of (h, frames, st', ev) \<Rightarrow>
        s\<lparr>srv := (case h of Returned res \<Rightarrow> end_task res st' | AwaitPeer n t c info \<Rightarrow> st'),
          tasks := (tasks s)[i := (case h of Returned res \<Rightarrow> Ended | AwaitPeer n t c info \<Rightarrow> Waits n t c info)],
          log := log s @ ev, sent := sent s @ map (Pair i) frames\<rparr>)"

text \<open>
  \<open>sent\<close> lists the frames the handlers passed to \<open>write_all\<close>, with the number of the connection;
  \<open>recv\<close> is the receiving half of the channels. The timer of \<open>timeout\<close> ends a wait only while
  the channel has nothing; between the timer and the \<open>unregister\<close> of the handler other tasks may run.
\<close>

inductive server_step ::
    "(reg_event list \<Rightarrow> chan \<Rightarrow> peer_connection_data recv_outcome) \<Rightarrow> uuid_ops
     \<Rightarrow> ('p, 't, 'w, 'r) registry_env \<Rightarrow> ('r \<Rightarrow> rust_string \<Rightarrow> rust_string option)
     \<Rightarrow> ('p, 't, 'w, 'r) system \<Rightarrow> ('p, 't, 'w, 'r) system \<Rightarrow> bool"
  for recv U B view where
  accept: "accepting s \<Longrightarrow> server_step recv U B view s (accept_step e s)"
| start: "i < length (tasks s) \<Longrightarrow> tasks s ! i = Spawned addr \<Longrightarrow>
    server_step recv U B view s (start_task i addr s)"
| request: "i < length (tasks s) \<Longrightarrow> tasks s ! i = Reading addr \<Longrightarrow> new_chan sp = next_chan s \<Longrightarrow>
    registry_admits B view sp (registry (srv s)) \<Longrightarrow>
    handle_request U B addr reading written sp (srv s) = Some p \<Longrightarrow>
    server_step recv U B view s (apply_phase i p (s\<lparr>next_chan := next_chan s + 1\<rparr>))"
| wake: "i < length (tasks s) \<Longrightarrow> tasks s ! i = Waits n t c info \<Longrightarrow>
    recv (log s) c = RecvOk d \<and> waited = WaitOk d \<or> recv (log s) c = RecvClosed \<and> waited = WaitClosed \<Longrightarrow>
    handle_wait U B n t info waited written (srv s) = Some p \<Longrightarrow>
    server_step recv U B view s (apply_phase i p s)"
| timer: "i < length (tasks s) \<Longrightarrow> tasks s ! i = Waits n t c info \<Longrightarrow> recv (log s) c = RecvPending \<Longrightarrow>
    server_step recv U B view s (s\<lparr>tasks := (tasks s)[i := TimedOut n t info]\<rparr>)"
| expire: "i < length (tasks s) \<Longrightarrow> tasks s ! i = TimedOut n t info \<Longrightarrow>
    handle_wait U B n t info WaitTimeout written (srv s) = Some p \<Longrightarrow>
    server_step recv U B view s (apply_phase i p s)"
| sweep: "registry_sweep B now (registry (srv s)) = (reg', ev) \<Longrightarrow>
    server_step recv U B view s (s\<lparr>srv := (srv s)\<lparr>registry := reg'\<rparr>, log := log s @ ev\<rparr>)"

subsection \<open>Counting connections\<close>

fun running :: "task \<Rightarrow> bool" where
  "running (Spawned _) = False"
| "running Ended = False"
| "running _ = True"

definition running_tasks :: "('p, 't, 'w, 'r) system \<Rightarrow> nat" where
  "running_tasks s = length (filter running (tasks s))"

definition unstarted_tasks :: "('p, 't, 'w, 'r) system \<Rightarrow> nat" where
  "unstarted_tasks s = length (filter (\<lambda>k. \<exists>a. k = Spawned a) (tasks s))"

lemma count_update:
  assumes "i < length xs"
  shows "int (length (filter P (xs[i := y]))) =
    int (length (filter P xs)) - (if P (xs ! i) then 1 else 0) + (if P y then 1 else 0)"
proof -
  have xs: "xs = take i xs @ xs ! i # drop (Suc i) xs" using assms by (rule id_take_nth_drop)
  have "filter P (xs[i := y]) = filter P (take i xs) @ (if P y then [y] else []) @ filter P (drop (Suc i) xs)"
    using assms by (simp add: upd_conv_take_nth_drop)
  moreover have "filter P xs = filter P (take i xs) @ (if P (xs ! i) then [xs ! i] else []) @ filter P (drop (Suc i) xs)"
    by (subst xs) simp
  ultimately show ?thesis by simp
qed

definition counters_ok :: "('p, 't, 'w, 'r) system \<Rightarrow> bool" where
  "counters_ok s \<longleftrightarrow>
     active_connections (metrics (srv s)) = word_of_int (int (running_tasks s)) \<and>
     total_connections (metrics (srv s)) = word_of_int (int (length (tasks s)) - int (unstarted_tasks s))"

text \<open>The phases leave the two connection counters and the configuration alone.\<close>

definition same_counters :: "('p, 't, 'w, 'r) server_state \<Rightarrow> ('p, 't, 'w, 'r) server_state \<Rightarrow> bool" where
  "same_counters st st' \<longleftrightarrow> config st' = config st \<and>
     active_connections (metrics st') = active_connections (metrics st) \<and>
     total_connections (metrics st') = total_connections (metrics st)"

lemma same_counters_simps [simp]:
  "same_counters st st" "same_counters st (st\<lparr>registry := r\<rparr>)"
  "same_counters st (bump pairing_succeeded st') \<longleftrightarrow> same_counters st st'"
  "same_counters st (bump timeout_occurred st') \<longleftrightarrow> same_counters st st'"
  "same_counters st (bump error_occurred st') \<longleftrightarrow> same_counters st st'"
  by (auto simp: same_counters_def metrics_defs)

context uuid_codec
begin

lemma registration_counters:
  "handle_registration U B info req written sp st = Some (h, frames, st', ev) \<Longrightarrow> same_counters st st'"
  by (cases "registry_register B (pairing_name req) info (request_token req) sp (registry st)"; cases written)
    (auto simp: registration_eq Let_def return_ok_def split: sum.splits registration_result.splits)

lemma request_counters:
  assumes "handle_request U B addr reading written sp st = Some (h, frames, st', ev)"
  shows "same_counters st st'"
proof (cases rule: request_cases [of B addr reading written sp st])
  case refused
  with assms show ?thesis by (cases written) (auto simp: return_ok_def)
next
  case (registered buf info req)
  then have "handle_registration U B info req written sp st = Some (h, frames, st', ev)" using assms by simp
  then show ?thesis by (rule registration_counters)
qed (use assms in auto)

lemma wait_counters:
  assumes "handle_wait U B n t info waited written st = Some (h, frames, st', ev)"
  shows "same_counters st st' \<and> (\<exists>res. h = Returned res)"
  using assms
  by (cases waited; cases written) (auto simp: handle_wait_def write_response_eq return_ok_def split: prod.splits)

end

lemma apply_phase_counters:
  assumes ok: "counters_ok s" and i: "i < length (tasks s)" "running (tasks s ! i)"
    and p: "p = (h, frames, st', ev)" "same_counters (srv s) st'"
    and s': "srv s1 = srv s" "tasks s1 = tasks s"
  shows "counters_ok (apply_phase i p s1) \<and> config (srv (apply_phase i p s1)) = config (srv s)"
proof -
  let ?t = "case h of Returned res \<Rightarrow> Ended | AwaitPeer n t c info \<Rightarrow> Waits n t c info"
  have run: "int (running_tasks (apply_phase i p s1)) = int (running_tasks s) - (case h of Returned _ \<Rightarrow> 1 | _ \<Rightarrow> 0)"
    using i by (cases h) (simp_all add: running_tasks_def apply_phase_def p s' count_update)
  have "\<not> (\<exists>a. tasks s ! i = Spawned a)" using i(2) by auto
  then have un: "int (unstarted_tasks (apply_phase i p s1)) = int (unstarted_tasks s)"
    using i(1) by (cases h) (simp_all add: unstarted_tasks_def apply_phase_def p s' count_update)
  have len: "length (tasks (apply_phase i p s1)) = length (tasks s)"
    by (simp add: apply_phase_def p s')
  have end_task: "config (end_task res st') = config (srv s)"
      "active_connections (metrics (end_task res st')) = active_connections (metrics (srv s)) - 1"
      "total_connections (metrics (end_task res st')) = total_connections (metrics (srv s))" for res
    using p(2) by (auto simp: end_task_def same_counters_def metrics_defs split: sum.splits)
  show ?thesis
    using ok p(2) end_task unfolding counters_ok_def run un len
    by (cases h) (auto simp: apply_phase_def p same_counters_def)
qed

lemma step_counters:
  assumes "uuid_codec U" and step: "server_step recv U B view s s'" and ok: "counters_ok s"
  shows "counters_ok s' \<and> config (srv s') = config (srv s)"
  using step
proof cases
  case (accept e)
  then show ?thesis
    using ok by (auto simp: accept_step_def counters_ok_def running_tasks_def unstarted_tasks_def
        split: accept_event.splits)
next
  case (start i addr)
  then have "int (running_tasks s') = int (running_tasks s) + 1"
    and "int (unstarted_tasks s') = int (unstarted_tasks s) - 1"
    by (simp_all add: running_tasks_def unstarted_tasks_def start_task_def count_update)
  then show ?thesis
    using ok start(1) by (simp add: counters_ok_def start_task_def metrics_defs)
next
  case (request i addr sp reading written p)
  obtain h frames st' ev where p: "p = (h, frames, st', ev)" by (cases p)
  have "same_counters (srv s) st'" using uuid_codec.request_counters [OF assms(1)] request(6) p by blast
  then show ?thesis
    using apply_phase_counters [OF ok request(2) _ p, of "s\<lparr>next_chan := next_chan s + 1\<rparr>"] request(1,3) by simp
next
  case (wake i n t c info d waited written p)
  obtain h frames st' ev where p: "p = (h, frames, st', ev)" by (cases p)
  have "same_counters (srv s) st'" using uuid_codec.wait_counters [OF assms(1)] wake(5) p by blast
  then show ?thesis using apply_phase_counters [OF ok wake(2) _ p, of s] wake(1,3) by simp
next
  case (timer i n t c info)
  then have "int (running_tasks s') = int (running_tasks s)" "int (unstarted_tasks s') = int (unstarted_tasks s)"
    by (simp_all add: running_tasks_def unstarted_tasks_def count_update)
  then show ?thesis using ok timer(1) by (simp add: counters_ok_def)
next
  case (expire i n t info written p)
  obtain h frames st' ev where p: "p = (h, frames, st', ev)" by (cases p)
  have "same_counters (srv s) st'" using uuid_codec.wait_counters [OF assms(1)] expire(4) p by blast
  then show ?thesis using apply_phase_counters [OF ok expire(2) _ p, of s] expire(1,3) by simp
next
  case (sweep now reg' ev)
  then show ?thesis using ok by (simp add: counters_ok_def running_tasks_def unstarted_tasks_def)
qed

lemma steps_counters:
  assumes "uuid_codec U" and "(server_step recv U B view)\<^sup>*\<^sup>* (system_new cfg reg) s"
  shows "counters_ok s \<and> config (srv s) = cfg"
  using assms(2)
proof (induction rule: rtranclp_induct)
  case base
  show ?case
    by (simp add: counters_ok_def running_tasks_def unstarted_tasks_def system_new_def metrics_new_def)
next
  case (step s s')
  then show ?case using step_counters [OF assms(1) step.hyps(2)] by simp
qed

subsection \<open>The connection limit\<close>

text \<open>Accepted connections that have not ended, started or not.\<close>

definition open_connections :: "('p, 't, 'w, 'r) system \<Rightarrow> nat" where
  "open_connections s = length (filter (\<lambda>k. k \<noteq> Ended) (tasks s))"

lemma open_split: "open_connections s = running_tasks s + unstarted_tasks s"
proof -
  have "length (filter (\<lambda>k. k \<noteq> Ended) ts) = length (filter running ts) + length (filter (\<lambda>k. \<exists>a. k = Spawned a) ts)" for ts
  proof (induction ts)
    case (Cons k ts)
    then show ?case by (cases k) auto
  qed simp
  then show ?thesis by (simp add: open_connections_def running_tasks_def unstarted_tasks_def)
qed

lemma open_update:
  "i < length (tasks s) \<Longrightarrow> tasks s ! i \<noteq> Ended \<Longrightarrow> tasks s' = (tasks s)[i := y] \<Longrightarrow> open_connections s' \<le> open_connections s"
  using count_update [of i "tasks s" "\<lambda>k. k \<noteq> Ended" y] by (auto simp: open_connections_def split: if_splits)

lemma step_open:
  assumes "server_step recv U B view s s'"
  shows "open_connections s' \<le> open_connections s \<and> length (tasks s') = length (tasks s) \<or>
    open_connections s' = Suc (open_connections s) \<and> length (tasks s') = Suc (length (tasks s)) \<and>
    active_connections (metrics (srv s)) < max_connections (config (srv s))"
  using assms
proof cases
  case (accept e)
  then show ?thesis
    by (auto simp: accept_step_def open_connections_def not_le split: accept_event.splits)
next
  case (sweep now reg' ev)
  then show ?thesis by (simp add: open_connections_def)
qed (auto simp: start_task_def apply_phase_def split: prod.splits intro!: open_update)

text \<open>An accept loop that lets every spawned task start before it accepts again.\<close>

definition eager_step where
  "eager_step recv U B view s s' \<longleftrightarrow>
     server_step recv U B view s s' \<and> (length (tasks s) < length (tasks s') \<longrightarrow> unstarted_tasks s = 0)"

lemma eager_limit:
  assumes "uuid_codec U" and "(eager_step recv U B view)\<^sup>*\<^sup>* (system_new cfg reg) s"
  shows "counters_ok s \<and> config (srv s) = cfg \<and> open_connections s \<le> unat (max_connections cfg)"
  using assms(2)
proof (induction rule: rtranclp_induct)
  case base
  show ?case
    by (simp add: counters_ok_def running_tasks_def unstarted_tasks_def open_connections_def system_new_def metrics_new_def)
next
  case (step s s')
  then have ok: "counters_ok s" "config (srv s) = cfg" "open_connections s \<le> unat (max_connections cfg)"
    and st: "server_step recv U B view s s'" "length (tasks s) < length (tasks s') \<longrightarrow> unstarted_tasks s = 0"
    by (simp_all add: eager_step_def)
  from step_open [OF st(1)] have "open_connections s' \<le> unat (max_connections cfg)"
  proof
    assume grow: "open_connections s' = Suc (open_connections s) \<and> length (tasks s') = Suc (length (tasks s)) \<and>
      active_connections (metrics (srv s)) < max_connections (config (srv s))"
    have run: "open_connections s = running_tasks s" using grow st(2) by (simp add: open_split)
    have "running_tasks s < 2 ^ 64"
      using ok(3) run unsigned_less [of "max_connections cfg", where ?'a = nat] by simp
    then have "unat (active_connections (metrics (srv s))) = running_tasks s"
      using ok(1) by (simp add: counters_ok_def unsigned_of_nat take_bit_nat_eq_self)
    with grow ok(2) run show ?thesis by (simp add: word_less_nat_alt)
  qed (use ok(3) in simp)
  with step_counters [OF assms(1) st(1) ok(1)] ok(2) show ?case by simp
qed

text \<open>An accept loop that runs ahead of the tasks it spawned.\<close>

lemma accepts_ahead:
  assumes "0 < max_connections cfg"
  shows "(server_step recv U B view)\<^sup>*\<^sup>* (system_new cfg reg) ((system_new cfg reg)\<lparr>tasks := replicate k (Spawned addr)\<rparr>)"
proof (induction k)
  case (Suc k)
  let ?s = "(system_new cfg reg)\<lparr>tasks := replicate k (Spawned addr)\<rparr>"
  have "accept_step (AcceptOk addr) ?s = (system_new cfg reg)\<lparr>tasks := replicate (Suc k) (Spawned addr)\<rparr>"
    using assms by (simp add: accept_step_def system_new_def metrics_new_def replicate_append_same)
  moreover have "accepting ?s" by (simp add: system_new_def)
  ultimately show ?case
    using Suc server_step.accept [of ?s recv U B view "AcceptOk addr"] by (metis rtranclp.rtrancl_into_rtrancl)
qed (simp add: system_new_def)

lemma starts_all:
  "\<exists>st. (server_step recv U B view)\<^sup>*\<^sup>* (s\<lparr>tasks := replicate k (Spawned addr)\<rparr>)
     (s\<lparr>srv := st, tasks := replicate m (Reading addr) @ replicate (k - m) (Spawned addr)\<rparr>)" if "m \<le> k"
  using that
proof (induction m)
  case 0
  have "s\<lparr>tasks := replicate k (Spawned addr)\<rparr> = s\<lparr>srv := srv s, tasks := replicate k (Spawned addr)\<rparr>" by simp
  then show ?case by (metis append_Nil diff_zero replicate_0 rtranclp.rtrancl_refl)
next
  case (Suc m)
  then obtain st where run: "(server_step recv U B view)\<^sup>*\<^sup>* (s\<lparr>tasks := replicate k (Spawned addr)\<rparr>)
     (s\<lparr>srv := st, tasks := replicate m (Reading addr) @ replicate (k - m) (Spawned addr)\<rparr>)" by auto
  let ?s = "s\<lparr>srv := st, tasks := replicate m (Reading addr) @ replicate (k - m) (Spawned addr)\<rparr>"
  have "replicate (k - m) (Spawned addr) = Spawned addr # replicate (k - Suc m) (Spawned addr)"
    using Suc.prems by (metis Suc_diff_Suc Suc_le_lessD replicate_Suc)
  then have ts: "tasks ?s = replicate m (Reading addr) @ Spawned addr # replicate (k - Suc m) (Spawned addr)" by simp
  then have "(tasks ?s)[m := Reading addr] = replicate (Suc m) (Reading addr) @ replicate (k - Suc m) (Spawned addr)"
    by (simp add: list_update_append replicate_app_Cons_same)
  then have "start_task m addr ?s = s\<lparr>srv := bump connection_started st,
      tasks := replicate (Suc m) (Reading addr) @ replicate (k - Suc m) (Spawned addr)\<rparr>"
    by (simp add: start_task_def)
  moreover have "server_step recv U B view ?s (start_task m addr ?s)"
    by (rule server_step.start) (use ts in \<open>simp_all add: nth_append\<close>)
  ultimately show ?case using run by (metis rtranclp.rtrancl_into_rtrancl)
qed

subsection \<open>Waiting clients can be found\<close>

text \<open>
  On the in-memory registry: every handler that waits for a peer is either still in the
  registry, under its name and with its address, token and channel, or something has happened
  on its channel.
\<close>

definition findable :: "('p, 't, 'w, 'r) registry_env \<Rightarrow> ('p, 't, 'w, 'r) system \<Rightarrow> bool" where
  "findable B s \<longleftrightarrow> (\<exists>reg. registry (srv s) = InMemory reg \<and> mem_ok (mem B) reg \<and>
     (\<forall>n t c info. Waits n t c info \<in> set (tasks s) \<longrightarrow>
        c \<in> event_chan ` set (log s) \<or>
        mem_room (mem B) reg n = Some \<lparr>slot_token = t, slot_info = info, slot_chan = c\<rparr>))"

lemma room_register_keeps:
  "room_register n i t sp R = (r, R', ev) \<Longrightarrow> R m = Some sl \<Longrightarrow> R' m = Some sl \<or> slot_chan sl \<in> event_chan ` set ev"
  by (auto simp: room_register_def split: option.splits if_splits)

lemma room_register_slot:
  assumes "room_register n i t sp R = (r, R', ev)" and "r = RWaiting u c \<or> r = RResumed u c"
  shows "R' n = Some \<lparr>slot_token = u, slot_info = i, slot_chan = c\<rparr>"
proof (cases "R n")
  case None
  with assms have "R' = R(n \<mapsto> \<lparr>slot_token = u, slot_info = i, slot_chan = c\<rparr>)"
    by (auto simp: room_register_def)
  then show ?thesis by simp
next
  case (Some s)
  with assms have "R' = R(n \<mapsto> s\<lparr>slot_info := i, slot_chan := c\<rparr>)" and "slot_token s = u"
    by (auto simp: room_register_def split: if_splits)
  then show ?thesis by simp
qed

lemma room_unregister_keeps:
  "room_unregister n R = (R', ev) \<Longrightarrow> R m = Some sl \<Longrightarrow> R' m = Some sl \<or> slot_chan sl \<in> event_chan ` set ev"
  by (auto simp: room_unregister_def)

lemma room_expire_keeps:
  "room_expire ns R = (R', ev) \<Longrightarrow> R m = Some sl \<Longrightarrow> R' m = Some sl \<or> slot_chan sl \<in> event_chan ` set ev"
proof (induction ns arbitrary: R R' ev)
  case (Cons n ns)
  obtain R1 ev1 where one: "room_unregister n R = (R1, ev1)" by (cases "room_unregister n R")
  obtain R2 ev2 where two: "room_expire ns R1 = (R2, ev2)" by (cases "room_expire ns R1")
  have "R' = R2" "ev = ev1 @ ev2" using Cons.prems(1) one two by simp_all
  with room_unregister_keeps [OF one Cons.prems(2)] Cons.IH [OF two] show ?case by auto
qed simp

text \<open>
  A registry operation under a step: old waiting clients stay or get an event; a task that
  starts to wait holds the slot of its name.
\<close>

lemma findable_step:
  assumes f: "findable B s" and reg: "registry (srv s) = InMemory reg"
    and reg': "registry (srv s') = InMemory reg'" "mem_ok (mem B) reg'" and log: "log s' = log s @ ev"
    and keeps: "\<And>m sl. mem_room (mem B) reg m = Some sl \<Longrightarrow>
      mem_room (mem B) reg' m = Some sl \<or> slot_chan sl \<in> event_chan ` set ev"
    and tasks: "\<And>n t c info. Waits n t c info \<in> set (tasks s') \<Longrightarrow> Waits n t c info \<in> set (tasks s) \<or>
      mem_room (mem B) reg' n = Some \<lparr>slot_token = t, slot_info = info, slot_chan = c\<rparr>"
  shows "findable B s'"
  unfolding findable_def
proof (intro exI conjI allI impI)
  fix n t c info
  assume "Waits n t c info \<in> set (tasks s')"
  from tasks [OF this] show "c \<in> event_chan ` set (log s') \<or>
      mem_room (mem B) reg' n = Some \<lparr>slot_token = t, slot_info = info, slot_chan = c\<rparr>"
  proof
    assume "Waits n t c info \<in> set (tasks s)"
    moreover have "\<forall>n t c info. Waits n t c info \<in> set (tasks s) \<longrightarrow> c \<in> event_chan ` set (log s) \<or>
        mem_room (mem B) reg n = Some \<lparr>slot_token = t, slot_info = info, slot_chan = c\<rparr>"
      using f reg unfolding findable_def by simp
    ultimately consider "c \<in> event_chan ` set (log s)"
      | "mem_room (mem B) reg n = Some \<lparr>slot_token = t, slot_info = info, slot_chan = c\<rparr>" by blast
    then show ?thesis
    proof cases
      case 2
      from keeps [OF this] show ?thesis by (auto simp: log)
    qed (simp add: log image_Un)
  qed blast
qed (fact reg')+

lemma set_update_Waits: "Waits n t c info \<in> set (xs[i := y]) \<Longrightarrow> Waits n t c info \<in> set xs \<or> y = Waits n t c info"
  using set_update_subset_insert [of xs i y] by auto

lemma findable_phase:
  assumes f: "findable B s" and reg: "registry (srv s) = InMemory reg"
    and st: "registry st' = InMemory reg'" "mem_ok (mem B) reg'"
    and keeps: "\<And>m sl. mem_room (mem B) reg m = Some sl \<Longrightarrow>
      mem_room (mem B) reg' m = Some sl \<or> slot_chan sl \<in> event_chan ` set ev"
    and h: "\<And>n t c info. h = AwaitPeer n t c info \<Longrightarrow>
      mem_room (mem B) reg' n = Some \<lparr>slot_token = t, slot_info = info, slot_chan = c\<rparr>"
    and s1: "srv s1 = srv s" "tasks s1 = tasks s" "log s1 = log s"
  shows "findable B (apply_phase i (h, frames, st', ev) s1)"
proof (rule findable_step [OF f reg _ st(2) _ keeps])
  show "registry (srv (apply_phase i (h, frames, st', ev) s1)) = InMemory reg'"
    using st(1) by (auto simp: apply_phase_def end_task_def split: handler.splits sum.splits)
  show "log (apply_phase i (h, frames, st', ev) s1) = log s @ ev"
    by (simp add: apply_phase_def s1)
  show "Waits n t c info \<in> set (tasks s) \<or> mem_room (mem B) reg' n = Some \<lparr>slot_token = t, slot_info = info, slot_chan = c\<rparr>"
    if "Waits n t c info \<in> set (tasks (apply_phase i (h, frames, st', ev) s1))" for n t c info
    using that h by (auto simp: apply_phase_def s1 dest!: set_update_Waits split: handler.splits)
qed

context mem_backend
begin

lemma registration_findable:
  assumes U: "uuid_codec U" and B: "mem B = E" and f: "findable B s" and reg: "registry (srv s) = InMemory reg"
    and ad: "mem_admits E sp reg"
    and step: "handle_registration U B info req written sp (srv s) = Some (h, frames, st', ev)"
    and s1: "srv s1 = srv s" "tasks s1 = tasks s" "log s1 = log s"
  shows "findable B (apply_phase i (h, frames, st', ev) s1)"
proof -
  have ok: "mem_ok E reg" using f reg unfolding findable_def B by simp
  obtain x reg' ev' where m: "mem_register E (pairing_name req) info (request_token req) sp reg = (x, reg', ev')"
    by (cases "mem_register E (pairing_name req) info (request_token req) sp reg") auto
  then have "registry_register B (pairing_name req) info (request_token req) sp (registry (srv s)) = (x, InMemory reg', ev')"
    by (simp add: registry_register_def reg B)
  note eq = uuid_codec.registration_eq [OF U this, of written]
  obtain r where r: "x = Inr r" using m
    by (auto simp: mem_register_def Let_def split: option.splits prod.splits)
  have ok': "mem_ok E reg'" by (rule register_keeps_ok [OF ok ad m])
  have room: "room_register (pairing_name req) info (request_token req) sp (mem_room E reg) = (r, mem_room E reg', ev')"
    using register_refines_room [OF ok m [unfolded r]] .
  have ev: "ev' = ev" and st': "registry st' = InMemory reg'"
    using step unfolding eq by (cases written; auto simp: Let_def r return_ok_def split: registration_result.splits)+
  show ?thesis
  proof (rule findable_phase [OF f reg st' _ _ _ s1])
    show "mem_ok (mem B) reg'" using ok' B by simp
    show "mem_room (mem B) reg' m = Some sl \<or> slot_chan sl \<in> event_chan ` set ev"
      if "mem_room (mem B) reg m = Some sl" for m sl
      using room_register_keeps [OF room] that unfolding B ev by blast
    show "mem_room (mem B) reg' n = Some \<lparr>slot_token = t, slot_info = inf, slot_chan = c\<rparr>"
      if "h = AwaitPeer n t c inf" for n t c inf
    proof -
      have "n = pairing_name req \<and> inf = info \<and> (r = RWaiting t c \<or> r = RResumed t c)"
        using step that unfolding eq
        by (cases written) (auto simp: Let_def r return_ok_def split: registration_result.splits)
      with room_register_slot [OF room] show ?thesis unfolding B by blast
    qed
  qed
qed

lemma request_findable:
  assumes U: "uuid_codec U" and B: "mem B = E" and f: "findable B s" and reg: "registry (srv s) = InMemory reg"
    and ad: "mem_admits E sp reg"
    and step: "handle_request U B addr reading written sp (srv s) = Some (h, frames, st', ev)"
    and s1: "srv s1 = srv s" "tasks s1 = tasks s" "log s1 = log s"
  shows "findable B (apply_phase i (h, frames, st', ev) s1)"
proof -
  have ok: "mem_ok (mem B) reg" using f reg unfolding findable_def by simp
  have idle: ?thesis if "registry st' = InMemory reg" "ev = []" "\<And>n t c info. h \<noteq> AwaitPeer n t c info"
    using findable_phase [OF f reg that(1) ok _ _ s1] that by blast
  show ?thesis
  proof (cases rule: uuid_codec.request_cases [OF U, of B addr reading written sp "srv s",
        case_names refused read_error read_timeout registered])
    case refused
    then show ?thesis using step reg by (intro idle) (cases written; auto simp: return_ok_def)+
  next
    case (registered buf info req)
    then have "handle_registration U B info req written sp (srv s) = Some (h, frames, st', ev)" using step by simp
    then show ?thesis by (rule registration_findable [OF U B f reg ad _ s1])
  next
    case (read_error e ia)
    then show ?thesis using step reg by (intro idle) auto
  next
    case (read_timeout ia)
    then show ?thesis using step reg by (intro idle) auto
  qed
qed

lemma wait_findable:
  assumes U: "uuid_codec U" and B: "mem B = E" and f: "findable B s" and reg: "registry (srv s) = InMemory reg"
    and step: "handle_wait U B n t info waited written (srv s) = Some (h, frames, st', ev)"
  shows "findable B (apply_phase i (h, frames, st', ev) s)"
proof -
  have ok: "mem_ok E reg" using f reg unfolding findable_def B by simp
  obtain x reg' ev' where m: "mem_unregister E n t reg = (x, reg', ev')"
    by (cases "mem_unregister E n t reg") auto
  have un: "registry_unregister B n t (registry (srv s)) = (x, InMemory reg', ev')"
    by (simp add: registry_unregister_def reg B m)
  have h: "h \<noteq> AwaitPeer n' t' c' i'" for n' t' c' i'
    using uuid_codec.wait_counters [OF U step] by auto
  show ?thesis
  proof (cases "waited = WaitTimeout")
    case True
    have st: "registry st' = InMemory reg'" and ev: "ev = ev'"
      using step un unfolding True
      by (cases written; auto simp: handle_wait_def uuid_codec.write_response_eq [OF U] return_ok_def)+
    show ?thesis
      using findable_phase [OF f reg st, of ev h s] unregister_keeps_ok [OF ok m] h
        room_unregister_keeps [OF unregister_refines_room [OF ok m]] unfolding B ev by blast
  next
    case False
    then have st: "registry st' = InMemory reg" and ev: "ev = []"
      using step reg
      by (cases waited; cases written; auto simp: handle_wait_def uuid_codec.write_response_eq [OF U] return_ok_def)+
    show ?thesis using findable_phase [OF f reg st, of ev h s] ok h unfolding B by blast
  qed
qed

lemma step_findable:
  assumes U: "uuid_codec U" and B: "mem B = E" and f: "findable B s" and step: "server_step recv U B view s s'"
  shows "findable B s'"
proof -
  obtain reg where reg: "registry (srv s) = InMemory reg" and ok: "mem_ok E reg"
    using f unfolding findable_def B by blast
  note same = findable_step [OF f reg _ ok [folded B], where ev = "[]"]
  show ?thesis
    using step
  proof cases
    case (accept e)
    then show ?thesis
      by (intro same) (auto simp: accept_step_def reg split: accept_event.splits if_splits)
  next
    case (start i addr)
    then show ?thesis by (intro same) (auto simp: start_task_def reg dest!: set_update_Waits)
  next
    case (request i addr sp reading written p)
    obtain h frames st' ev where p: "p = (h, frames, st', ev)" by (cases p)
    have "mem_admits E sp reg" using request(5) by (simp add: registry_admits_def reg B)
    from request_findable [OF U B f reg this request(6) [unfolded p]] show ?thesis
      unfolding request(1) p by simp
  next
    case (wake i n t c info d waited written p)
    then show ?thesis using wait_findable [OF U B f reg] by (cases p) simp
  next
    case (timer i n t c info)
    then show ?thesis by (intro same) (auto simp: reg dest!: set_update_Waits)
  next
    case (expire i n t info written p)
    then show ?thesis using wait_findable [OF U B f reg] by (cases p) simp
  next
    case (sweep now reg' ev)
    obtain k r' where c: "mem_cleanup_expired E now reg = (k, r', ev)" and r': "reg' = InMemory r'"
      using sweep(2) by (auto simp: registry_sweep_def reg B split: prod.splits)
    then have "mem_expires E reg (map fst (filter (\<lambda>(n, e). expired (pairing_timeout (mem_config reg)) now e)
        (dm_iter (pairings_map E) (pairings reg)))) r' ev"
      unfolding mem_expires_def by blast
    from expires_refines_room [OF ok this] show ?thesis
      by (intro findable_step [OF f reg, of s' r' ev]) (auto simp: sweep(1) r' B dest: room_expire_keeps)
  qed
qed

end

lemma steps_findable:
  assumes "uuid_codec U" and "mem_backend (mem B)"
    and "(server_step recv U B view)\<^sup>*\<^sup>* (system_new cfg (InMemory (mem_new (mem B) rcfg))) s"
  shows "findable B s"
  using assms(3)
proof (induction rule: rtranclp_induct)
  case base
  show ?case
    unfolding findable_def
    by (intro exI [of _ "mem_new (mem B) rcfg"]) (simp add: system_new_def mem_backend.new_ok(1) [OF assms(2)])
next
  case (step s s')
  show ?case by (rule mem_backend.step_findable [OF assms(2,1) refl step.IH step.hyps(2)])
qed

lemma findable_entry:
  assumes "mem_backend (mem B)" and "oneshot recv" and "findable B s"
    and "Waits n t c info \<in> set (tasks s)" and "recv (log s) c = RecvPending"
  obtains reg e where "registry (srv s) = InMemory reg" and "mem_ok (mem B) reg"
    and "mem_entry (mem B) reg n = Some e" and "connection_info (waiting_client e) = info"
    and "entry_token e = t" and "notify_tx e = Some c"
proof -
  have "c \<notin> event_chan ` set (log s)" using oneshot.recv_cases [OF assms(2), of "log s" c] assms(5) by auto
  moreover obtain reg where reg: "registry (srv s) = InMemory reg" "mem_ok (mem B) reg"
    and all: "\<forall>n t c info. Waits n t c info \<in> set (tasks s) \<longrightarrow> c \<in> event_chan ` set (log s) \<or>
      mem_room (mem B) reg n = Some \<lparr>slot_token = t, slot_info = info, slot_chan = c\<rparr>"
    using assms(3) unfolding findable_def by blast
  ultimately have "mem_room (mem B) reg n = Some \<lparr>slot_token = t, slot_info = info, slot_chan = c\<rparr>"
    using assms(4) by blast
  then obtain e where e: "mem_entry (mem B) reg n = Some e"
    and sl: "mem_slot e = \<lparr>slot_token = t, slot_info = info, slot_chan = c\<rparr>"
    by (auto simp: mem_room_def)
  obtain c' where "notify_tx e = Some c'" using mem_backend.ok_entry [OF assms(1) reg(2) e] by blast
  with that [OF reg e] sl show thesis by (simp add: mem_slot_def unwrap_or_def)
qed

subsection \<open>A run with a waiting and a second client\<close>

abbreviation demo_step where
  "demo_step \<equiv> server_step first_event hyphenated_ops ref_registry_env ref_view"

abbreviation demo_start ::
    "((rust_string, pairing_entry) alist, (uuid, rust_string) alist, (rust_string, chan) alist, ref_store) system" where
  "demo_start \<equiv> system_new server_config_default (InMemory (mem_new (mem ref_registry_env) demo_config))"

lemma demo_run:
  "\<exists>s reg. demo_step\<^sup>*\<^sup>* demo_start s \<and>
     tasks s = [Waits demo_name 1 0 (demo_peer 1), Reading (demo_addr 2)] \<and> log s = [] \<and> next_chan s = 1 \<and>
     registry (srv s) = InMemory reg \<and> mem_admits alist_env (demo_runtime 2) reg"
proof -
  let ?sp = "(demo_runtime 1)\<lparr>new_chan := 0\<rparr>"
  let ?req = "\<lparr>pairing_name = demo_name, request_token = None\<rparr>"
  define s1 where "s1 = accept_step (AcceptOk (demo_addr 1)) demo_start"
  define s2 where "s2 = accept_step (AcceptOk (demo_addr 2)) s1"
  define s3 where "s3 = start_task 0 (demo_addr 1) s2"
  define s4 where "s4 = start_task 1 (demo_addr 2) s3"
  note defs = s1_def s2_def s3_def s4_def accept_step_def start_task_def system_new_def metrics_new_def
    server_config_default_def
  have t2: "tasks s2 = [Spawned (demo_addr 1), Spawned (demo_addr 2)]" "accepting s1"
    by (simp_all add: defs)
  have t4: "tasks s4 = [Reading (demo_addr 1), Reading (demo_addr 2)]" "log s4 = []" "next_chan s4 = 0"
    "registry (srv s4) = InMemory demo0"
    by (simp_all add: defs demo0_def)
  have "demo_step demo_start s1" unfolding s1_def by (rule server_step.accept) (simp add: system_new_def)
  moreover have "demo_step s1 s2" unfolding s2_def by (rule server_step.accept [OF t2(2)])
  moreover have "demo_step s2 s3" unfolding s3_def by (rule server_step.start) (simp_all add: t2)
  moreover have "demo_step s3 s4" unfolding s4_def by (rule server_step.start) (simp_all add: s3_def start_task_def t2)
  ultimately have run: "demo_step\<^sup>*\<^sup>* demo_start s4" by (meson converse_rtranclp_into_rtranclp rtranclp.rtrancl_refl)
  have E: "mem_backend (mem ref_registry_env)" by (simp add: alist_mem.mem_backend_axioms)
  obtain x reg ev where m: "mem_register alist_env (pairing_name ?req) (demo_peer 1) (request_token ?req) ?sp demo0 = (x, reg, ev)"
    by (cases "mem_register alist_env (pairing_name ?req) (demo_peer 1) (request_token ?req) ?sp demo0") auto
  have none: "mem_entry alist_env demo0 (pairing_name ?req) = None" by (simp add: demo0_facts)
  note maps = alist_mem.wait_maps [OF demo0_facts(1) none m]
  let ?p = "(AwaitPeer demo_name 1 0 (demo_peer 1), [frame hyphenated_ops (response_waiting (demo_peer 1) 1)],
      (srv s4)\<lparr>registry := InMemory reg\<rparr>, [])"
  have "handle_request hyphenated_ops ref_registry_env (demo_addr 1) (ReadOk demo_buf) (Inr ()) ?sp (srv s4) = Some ?p"
    using alist_mem.first_request [OF hyphenated.uuid_codec_axioms _ t4(4) demo0_facts(1) none m,
        where written = "Inr ()" and B = ref_registry_env]
    by (simp add: request_registers [OF demo_request])
  then have "demo_step s4 (apply_phase 0 ?p (s4\<lparr>next_chan := next_chan s4 + 1\<rparr>))"
    by (intro server_step.request) (simp_all add: t4 registry_admits_def mem_admits_def demo0_facts)
  with run have "demo_step\<^sup>*\<^sup>* demo_start (apply_phase 0 ?p (s4\<lparr>next_chan := next_chan s4 + 1\<rparr>))" by simp
  moreover have "mem_admits alist_env (demo_runtime 2) reg" by (simp add: mem_admits_def maps(2) demo0_facts)
  ultimately show ?thesis by (intro exI conjI) (auto simp: apply_phase_def t4)
qed

subsection \<open>Properties\<close>

text \<open>
  Claim C9. In every reachable state, under every interleaving of connections, \<open>active_connections\<close>
  is the number of connections whose task has begun and not ended, and \<open>total_connections\<close> the
  number whose task has begun (each modulo \<open>2^64\<close>); the counter never drifts, whichever way
  connections end.
\<close>

theorem active_counts_running_tasks:
  assumes "uuid_codec U" and "(server_step recv U B view)\<^sup>*\<^sup>* (system_new cfg reg) s"
  shows "active_connections (metrics (srv s)) = word_of_nat (running_tasks s) \<and>
    total_connections (metrics (srv s)) = word_of_nat (length (tasks s) - unstarted_tasks s)"
proof -
  have "unstarted_tasks s \<le> length (tasks s)" by (simp add: unstarted_tasks_def)
  then show ?thesis
    using steps_counters [OF assms] by (simp add: counters_ok_def of_nat_diff)
qed

theorem active_counts_running_tasks_witness:
  "\<exists>s. demo_step\<^sup>*\<^sup>* demo_start s \<and> length (tasks s) = 2 \<and> active_connections (metrics (srv s)) = 2"
proof -
  obtain s where s: "demo_step\<^sup>*\<^sup>* demo_start s" "tasks s = [Waits demo_name 1 0 (demo_peer 1), Reading (demo_addr 2)]"
    using demo_run by blast
  from active_counts_running_tasks [OF hyphenated.uuid_codec_axioms s(1)] s show ?thesis
    by (intro exI [of _ s]) (simp add: running_tasks_def)
qed

text \<open>
  Claim C26. If every accepted connection's task begins before the next connection is accepted, the
  number of open connections never exceeds \<open>max_connections\<close>.
\<close>

theorem connection_limit_holds_eagerly:
  assumes "uuid_codec U" and "(eager_step recv U B view)\<^sup>*\<^sup>* (system_new cfg reg) s"
  shows "open_connections s \<le> unat (max_connections cfg)"
  using eager_limit [OF assms] by simp

theorem connection_limit_holds_eagerly_witness:
  "\<exists>s. eager_step first_event hyphenated_ops ref_registry_env ref_view demo_start s \<and> open_connections s = 1 \<and>
     1 \<le> unat (max_connections server_config_default)"
proof -
  let ?s = "accept_step (AcceptOk (demo_addr 1)) demo_start"
  have "demo_step demo_start ?s" by (rule server_step.accept) (simp add: system_new_def)
  then have e: "eager_step first_event hyphenated_ops ref_registry_env ref_view demo_start ?s"
    by (simp add: eager_step_def system_new_def unstarted_tasks_def)
  have "open_connections ?s = 1"
    by (simp add: accept_step_def open_connections_def system_new_def metrics_new_def server_config_default_def)
  with e connection_limit_holds_eagerly [OF hyphenated.uuid_codec_axioms r_into_rtranclp [of "eager_step first_event hyphenated_ops ref_registry_env ref_view", OF e]] show ?thesis by auto
qed

text \<open>
  Claim C33. Without that assumption the limit does not hold: the loop compares a counter that a
  task increments only when it first runs, so for any limit and any number \<open>k\<close> there is a run
  with \<open>k\<close> connections open and running at once.
\<close>

theorem connection_limit_overshoot:
  assumes "0 < max_connections cfg"
  shows "\<exists>s. (server_step recv U B view)\<^sup>*\<^sup>* (system_new cfg reg) s \<and> running_tasks s = k"
proof -
  fix addr :: socket_addr
  obtain st where "(server_step recv U B view)\<^sup>*\<^sup>* ((system_new cfg reg)\<lparr>tasks := replicate k (Spawned addr)\<rparr>)
     ((system_new cfg reg)\<lparr>srv := st, tasks := replicate k (Reading addr) @ replicate (k - k) (Spawned addr)\<rparr>)"
    using starts_all [of k k recv U B view addr "system_new cfg reg"] by blast
  with accepts_ahead [OF assms, of recv U B view reg k addr] show ?thesis
    by (intro exI conjI, rule rtranclp_trans) (auto simp: running_tasks_def)
qed

theorem connection_limit_overshoot_witness:
  "\<exists>s. demo_step\<^sup>*\<^sup>* (system_new (server_config_default\<lparr>max_connections := 1\<rparr>)
       (InMemory (mem_new (mem ref_registry_env) demo_config))) s \<and> running_tasks s = 5"
  using connection_limit_overshoot [of "server_config_default\<lparr>max_connections := 1\<rparr>"] by simp

text \<open>
  Claim C2. No waiting client is lost. In every reachable state of a server with the in-memory
  registry, a handler that waits and whose channel is still silent is in the registry: under
  its name, with its client's address, its token and its channel.
\<close>

theorem waiting_client_is_registered:
  assumes "uuid_codec U" and "mem_backend (mem B)" and "oneshot recv"
    and "(server_step recv U B view)\<^sup>*\<^sup>* (system_new cfg (InMemory (mem_new (mem B) rcfg))) s"
    and "Waits n t c info \<in> set (tasks s)" and "recv (log s) c = RecvPending"
  shows "\<exists>reg e. registry (srv s) = InMemory reg \<and> mem_entry (mem B) reg n = Some e \<and>
    connection_info (waiting_client e) = info \<and> entry_token e = t \<and> notify_tx e = Some c"
  by (rule findable_entry [OF assms(2,3) steps_findable [OF assms(1,2,4)] assms(5,6)]) blast

theorem waiting_client_is_registered_witness:
  "\<exists>s reg e. demo_step\<^sup>*\<^sup>* demo_start s \<and> registry (srv s) = InMemory reg \<and>
     mem_entry alist_env reg demo_name = Some e \<and> notify_tx e = Some 0"
proof -
  obtain s where s: "demo_step\<^sup>*\<^sup>* demo_start s" "tasks s = [Waits demo_name 1 0 (demo_peer 1), Reading (demo_addr 2)]" "log s = []"
    using demo_run by blast
  have E: "mem_backend (mem ref_registry_env)" by (simp add: alist_mem.mem_backend_axioms)
  from waiting_client_is_registered [OF hyphenated.uuid_codec_axioms E first_event.oneshot_axioms s(1), of demo_name 1 0 "demo_peer 1"]
  show ?thesis using s by auto
qed

end
