(* ===== verification/Health.thy ===== *)
theory Health
  imports Server
begin

text \<open>
  The HTTP endpoints for load balancers and Prometheus (\<open>server/rust/src/health.rs\<close>): the four
  handlers, the route table and the text of the metrics page. JSON encoding and HTTP itself
  are done by \<open>serde_json\<close> and \<open>axum\<close>; the model stops at the values handed to them. The lemmas
  show that a scraper reads back from the metrics page exactly the server's counters.
\<close>

subsection \<open>Decimal numbers\<close>

text \<open>\<open>Display\<close> of the unsigned integers.\<close>

fun decimal :: "nat \<Rightarrow> rust_string" where
  "decimal n = (if n < 10 then [] else decimal (n div 10)) @ [word_of_nat (48 + n mod 10)]"

declare decimal.simps [simp del]

definition digit_value :: "byte \<Rightarrow> nat option" where
  "digit_value b = (if 48 \<le> unat b \<and> unat b \<le> 57 then Some (unat b - 48) else None)"

fun parse_digits :: "nat \<Rightarrow> rust_string \<Rightarrow> nat option" where
  "parse_digits acc [] = Some acc"
| "parse_digits acc (b # bs) = (case digit_value b of None \<Rightarrow> None | Some d \<Rightarrow> parse_digits (10 * acc + d) bs)"

lemma unat_digit: "d < 10 \<Longrightarrow> unat (word_of_nat (48 + d) :: byte) = 48 + d"
  by (simp add: unat_of_nat del: of_nat_add)

lemma parse_digits_append:
  "parse_digits acc (xs @ ys) = Option.bind (parse_digits acc xs) (\<lambda>a. parse_digits a ys)"
  by (induction acc xs rule: parse_digits.induct) (auto split: option.splits)

lemma decimal_digits: "b \<in> set (decimal n) \<Longrightarrow> 48 \<le> unat b \<and> unat b \<le> 57"
proof (induction n rule: decimal.induct)
  case (1 n)
  have "b = word_of_nat (48 + n mod 10) \<or> \<not> n < 10 \<and> b \<in> set (decimal (n div 10))"
    using "1.prems" by (subst (asm) decimal.simps) (auto split: if_splits)
  then show ?case
  proof
    assume "b = word_of_nat (48 + n mod 10)"
    then show ?thesis using unat_digit [of "n mod 10"] by simp
  qed (use "1.IH" in blast)
qed

lemma parse_decimal: "parse_digits 0 (decimal n) = Some n"
proof (induction n rule: decimal.induct)
  case (1 n)
  have one: "parse_digits acc [word_of_nat (48 + n mod 10)] = Some (10 * acc + n mod 10)" for acc
    using unat_digit [of "n mod 10"] by (simp add: digit_value_def del: of_nat_add)
  show ?case
    by (subst decimal.simps) (use 1 one [of "n div 10"] one [of 0] in \<open>auto simp: parse_digits_append simp del: parse_digits.simps(2)\<close>)
qed

subsection \<open>State and responses\<close>

record ('p, 't, 'w, 'r) health_state =
  h_metrics :: server_metrics
  h_registry :: "('p, 't, 'w, 'r) registry"
  start_time :: instant
  h_server_id :: rust_string

record health_response =
  h_status :: rust_string
  r_server_id :: rust_string
  uptime_secs :: u64
  active_pairings :: nat
  r_metrics :: metrics_snapshot

datatype http_body = NoBody | JsonBody health_response | TextBody rust_string rust_string

type_synonym http_response = "nat \<times> http_body"

definition STATUS_OK :: nat where
  "STATUS_OK = 200"

definition liveness :: http_response where
  "liveness = (STATUS_OK, NoBody)"

text \<open>\<open>readiness\<close> and \<open>health\<close>; \<open>now\<close> is the instant at which \<open>elapsed\<close> is read.\<close>

definition health_body ::
    "string \<Rightarrow> ('p, 't, 'w, 'r) registry_env \<Rightarrow> instant \<Rightarrow> ('p, 't, 'w, 'r) health_state \<Rightarrow> health_response" where
  "health_body what B now st =
     \<lparr>h_status = str what, r_server_id = h_server_id st,
      uptime_secs = as_secs (duration_since now (start_time st)),
      active_pairings = registry_active_count B (h_registry st), r_metrics = snapshot (h_metrics st)\<rparr>"

definition readiness ::
    "('p, 't, 'w, 'r) registry_env \<Rightarrow> instant \<Rightarrow> ('p, 't, 'w, 'r) health_state \<Rightarrow> http_response" where
  "readiness B now st = (STATUS_OK, JsonBody (health_body ''ready'' B now st))"

definition health ::
    "('p, 't, 'w, 'r) registry_env \<Rightarrow> instant \<Rightarrow> ('p, 't, 'w, 'r) health_state \<Rightarrow> http_response" where
  "health B now st = (STATUS_OK, JsonBody (health_body ''healthy'' B now st))"

subsection \<open>The metrics page\<close>

definition newline :: rust_string where
  "newline = [10]"

text \<open>The three lines of one metric in the format string.\<close>

definition metric_block :: "rust_string \<Rightarrow> string \<Rightarrow> string \<Rightarrow> string \<Rightarrow> nat \<Rightarrow> rust_string" where
  \<open>metric_block sid name help kind value =
     str ''# HELP '' @ str name @ str '' '' @ str help @ newline @
     str ''# TYPE '' @ str name @ str '' '' @ str kind @ newline @
     str name @ str '' {server_id="'' @ sid @ str ''"} '' @ decimal value @ newline\<close>

fun join_blocks :: "rust_string list \<Rightarrow> rust_string" where
  "join_blocks [] = []"
| "join_blocks [b] = b"
| "join_blocks (b # bs) = b @ newline @ join_blocks bs"

definition prometheus_text ::
    "('p, 't, 'w, 'r) registry_env \<Rightarrow> instant \<Rightarrow> ('p, 't, 'w, 'r) health_state \<Rightarrow> rust_string" where
  "prometheus_text B now st =
     (let m = snapshot (h_metrics st); block = metric_block (h_server_id st) in
      join_blocks
       [block ''tcpunch_active_connections'' ''Current number of active connections'' ''gauge''
          (unat (snap_active_connections m)),
        block ''tcpunch_total_connections'' ''Total number of connections since start'' ''counter''
          (unat (snap_total_connections m)),
        block ''tcpunch_successful_pairings'' ''Total successful pairings'' ''counter''
          (unat (snap_successful_pairings m)),
        block ''tcpunch_timeouts'' ''Total timeout events'' ''counter'' (unat (snap_timeouts m)),
        block ''tcpunch_errors'' ''Total error events'' ''counter'' (unat (snap_errors m)),
        block ''tcpunch_active_pairings'' ''Current number of active pairing entries'' ''gauge''
          (registry_active_count B (h_registry st)),
        block ''tcpunch_uptime_seconds'' ''Server uptime in seconds'' ''gauge''
          (unat (as_secs (duration_since now (start_time st))))])"

definition prometheus_metrics ::
    "('p, 't, 'w, 'r) registry_env \<Rightarrow> instant \<Rightarrow> ('p, 't, 'w, 'r) health_state \<Rightarrow> http_response" where
  "prometheus_metrics B now st =
     (STATUS_OK, TextBody (str ''text/plain; charset=utf-8'') (prometheus_text B now st))"

text \<open>The route table of \<open>health_router\<close>: what a \<open>GET\<close> of a path is answered with.\<close>

definition health_router ::
    "('p, 't, 'w, 'r) registry_env \<Rightarrow> instant \<Rightarrow> ('p, 't, 'w, 'r) health_state \<Rightarrow> string \<Rightarrow> http_response option" where
  "health_router B now st path =
     (if path = ''/livez'' then Some liveness
      else if path = ''/readyz'' then Some (readiness B now st)
      else if path = ''/health'' then Some (health B now st)
      else if path = ''/metrics'' then Some (prometheus_metrics B now st)
      else None)"

subsection \<open>Scraping the page\<close>

fun lines_of :: "rust_string \<Rightarrow> rust_string list" where
  "lines_of [] = [[]]"
| "lines_of (b # bs) = (if b = 10 then [] # lines_of bs
     else case lines_of bs of [] \<Rightarrow> [[b]] | l # ls \<Rightarrow> (b # l) # ls)"

text \<open>The value of a metric: the number after the last space of the only line that starts with its name.\<close>

definition scrape :: "rust_string \<Rightarrow> rust_string \<Rightarrow> nat option" where
  "scrape name text =
     (case filter (\<lambda>l. take (length name + 1) l = name @ [32]) (lines_of text) of
        [l] \<Rightarrow> parse_digits 0 (rev (takeWhile (\<lambda>b. b \<noteq> 32) (rev l)))
      | _ \<Rightarrow> None)"

lemma lines_of_line: "10 \<notin> set l \<Longrightarrow> lines_of (l @ 10 # rest) = l # lines_of rest"
  by (induction l) auto

lemma takeWhile_until: "z \<notin> set n \<Longrightarrow> takeWhile (\<lambda>b. b \<noteq> z) (n @ z # r) = n"
  by (induction n) auto

lemma starts_with_name:
  assumes "32 \<notin> set name" and "32 \<notin> set name'"
  shows "take (length name + 1) (name' @ 32 # rest) = name @ [32] \<longleftrightarrow> name' = name"
proof
  assume eq: "take (length name + 1) (name' @ 32 # rest) = name @ [32]"
  have "name' @ 32 # rest = name @ 32 # drop (length name + 1) (name' @ 32 # rest)"
    using append_take_drop_id [of "length name + 1" "name' @ 32 # rest"] unfolding eq by simp
  then have "takeWhile (\<lambda>b. b \<noteq> 32) (name' @ 32 # rest) =
      takeWhile (\<lambda>b. b \<noteq> 32) (name @ 32 # drop (length name + 1) (name' @ 32 # rest))" by (rule arg_cong)
  then show "name' = name" unfolding takeWhile_until [OF assms(1)] takeWhile_until [OF assms(2)] .
qed simp

definition sample_line :: "rust_string \<Rightarrow> string \<Rightarrow> nat \<Rightarrow> rust_string" where
  \<open>sample_line sid name value = str name @ 32 # str ''{server_id="'' @ sid @ str ''"} '' @ decimal value\<close>

definition plain :: "string \<Rightarrow> bool" where
  "plain s \<longleftrightarrow> 10 \<notin> set (str s)"

lemma metric_block_lines:
  assumes "10 \<notin> set sid" and "plain name" "plain help" "plain kind"
  shows "\<exists>l1 l2. lines_of (metric_block sid name help kind value @ rest) =
    (35 # l1) # (35 # l2) # sample_line sid name value # lines_of rest"
proof -
  have dec: "10 \<notin> set (decimal value)" using decimal_digits [of 10 "value"] by auto
  let ?l1 = "str '' HELP '' @ str name @ 32 # str help" and ?l2 = "str '' TYPE '' @ str name @ 32 # str kind"
  have page: "metric_block sid name help kind value @ rest =
      (35 # ?l1) @ 10 # (35 # ?l2) @ 10 # sample_line sid name value @ 10 # rest"
    by (simp add: metric_block_def newline_def sample_line_def str_def)
  have l: "10 \<notin> set (35 # ?l1)" "10 \<notin> set (35 # ?l2)" "10 \<notin> set (sample_line sid name value)"
    using assms dec by (auto simp: plain_def sample_line_def str_def)
  have "lines_of (metric_block sid name help kind value @ rest) =
      (35 # ?l1) # (35 # ?l2) # sample_line sid name value # lines_of rest"
    unfolding page lines_of_line [OF l(1)] lines_of_line [OF l(2)] lines_of_line [OF l(3)] by (rule refl)
  then show ?thesis by blast
qed

lemma sample_line_value: "rev (takeWhile (\<lambda>b. b \<noteq> 32) (rev (sample_line sid name value))) = decimal value"
proof -
  have "32 \<notin> set (rev (decimal value))" using decimal_digits [of 32 "value"] by auto
  moreover have "\<exists>r. rev (sample_line sid name value) = rev (decimal value) @ 32 # r"
    by (simp add: sample_line_def str_def)
  ultimately show ?thesis using takeWhile_until [of 32 "rev (decimal value)"] by auto
qed

text \<open>A page made of blocks: a name that occurs once is read back.\<close>

type_synonym metric = "string \<times> string \<times> string \<times> nat"

definition blocks :: "rust_string \<Rightarrow> metric list \<Rightarrow> rust_string list" where
  "blocks sid ms = map (\<lambda>(name, help, kind, value). metric_block sid name help kind value) ms"

lemma page_samples:
  assumes "10 \<notin> set sid" and "list_all (\<lambda>(n, h, k, v). plain n \<and> plain h \<and> plain k \<and> 32 \<notin> set (str n)) ms"
    and name: "hd name \<noteq> 35" "name \<noteq> []" "32 \<notin> set name"
  shows "filter (\<lambda>l. take (length name + 1) l = name @ [32]) (lines_of (join_blocks (blocks sid ms))) =
    map (\<lambda>(n, h, k, v). sample_line sid n v) (filter (\<lambda>(n, h, k, v). str n = name) ms)"
  using assms(2)
proof (induction ms)
  case Nil
  then show ?case by (simp add: blocks_def)
next
  case (Cons m ms)
  obtain n h k v where m: "m = (n, h, k, v)" by (cases m)
  let ?P = "\<lambda>l. take (length name + 1) l = name @ [32]"
  have hash: "\<not> ?P (35 # l)" for l using name by (cases name) auto
  have line: "?P (sample_line sid n v) \<longleftrightarrow> str n = name"
    unfolding sample_line_def by (rule starts_with_name) (use Cons.prems name m in auto)
  have block: "filter ?P (lines_of (metric_block sid n h k v @ rest)) =
      (if str n = name then [sample_line sid n v] else []) @ filter ?P (lines_of rest)" for rest
    using metric_block_lines [OF assms(1), of n h k v rest] Cons.prems hash line by (auto simp: m)
  show ?case
  proof (cases ms)
    case Nil
    then show ?thesis using block [of "[]"] by (simp add: m blocks_def)
  next
    case (Cons m' ms')
    then have "join_blocks (blocks sid (m # ms)) = metric_block sid n h k v @ newline @ join_blocks (blocks sid ms)"
      by (simp add: blocks_def m)
    then show ?thesis
      using block [of "newline @ join_blocks (blocks sid ms)"] Cons.IH Cons.prems
      by (simp add: m newline_def)
  qed
qed

definition page_metrics ::
    "('p, 't, 'w, 'r) registry_env \<Rightarrow> instant \<Rightarrow> ('p, 't, 'w, 'r) health_state \<Rightarrow> metric list" where
  "page_metrics B now st =
     [(''tcpunch_active_connections'', ''Current number of active connections'', ''gauge'',
        unat (active_connections (h_metrics st))),
      (''tcpunch_total_connections'', ''Total number of connections since start'', ''counter'',
        unat (total_connections (h_metrics st))),
      (''tcpunch_successful_pairings'', ''Total successful pairings'', ''counter'',
        unat (successful_pairings (h_metrics st))),
      (''tcpunch_timeouts'', ''Total timeout events'', ''counter'', unat (timeouts (h_metrics st))),
      (''tcpunch_errors'', ''Total error events'', ''counter'', unat (errors (h_metrics st))),
      (''tcpunch_active_pairings'', ''Current number of active pairing entries'', ''gauge'',
        registry_active_count B (h_registry st)),
      (''tcpunch_uptime_seconds'', ''Server uptime in seconds'', ''gauge'',
        unat (as_secs (duration_since now (start_time st))))]"

lemma prometheus_text_blocks: "prometheus_text B now st = join_blocks (blocks (h_server_id st) (page_metrics B now st))"
  by (simp add: prometheus_text_def page_metrics_def blocks_def snapshot_def Let_def)

lemma page_metrics_plain:
  "list_all (\<lambda>(n, h, k, v). plain n \<and> plain h \<and> plain k \<and> 32 \<notin> set (str n)) (page_metrics B now st)"
  by (simp add: page_metrics_def plain_def str_def)

lemma scrape_page:
  assumes "10 \<notin> set (h_server_id st)" and "filter (\<lambda>(n, h, k, v). str n = str name) (page_metrics B now st) = [(n, h, k, v)]"
    and "hd (str name) \<noteq> 35" "str name \<noteq> []" "32 \<notin> set (str name)"
  shows "scrape (str name) (prometheus_text B now st) = Some v"
proof -
  have "filter (\<lambda>l. take (length (str name) + 1) l = str name @ [32]) (lines_of (prometheus_text B now st)) =
      [sample_line (h_server_id st) n v]"
    unfolding prometheus_text_blocks page_samples [OF assms(1) page_metrics_plain assms(3-5)] assms(2) by simp
  then show ?thesis by (simp add: scrape_def sample_line_value parse_decimal)
qed

subsection \<open>Properties\<close>

text \<open>
  Claim C27. The page served at \<open>/metrics\<close> reports the counters: whatever the state, a scraper that
  looks for a metric's name finds exactly one sample and reads from it the exact value of the
  counter, of the registry's \<open>active_count\<close> and of the uptime in seconds.
\<close>

theorem metrics_page_reports_counters:
  assumes "10 \<notin> set (h_server_id st)"
  shows "\<exists>page. health_router B now st ''/metrics'' = Some (200, TextBody (str ''text/plain; charset=utf-8'') page) \<and>
    scrape (str ''tcpunch_active_connections'') page = Some (unat (active_connections (h_metrics st))) \<and>
    scrape (str ''tcpunch_total_connections'') page = Some (unat (total_connections (h_metrics st))) \<and>
    scrape (str ''tcpunch_successful_pairings'') page = Some (unat (successful_pairings (h_metrics st))) \<and>
    scrape (str ''tcpunch_timeouts'') page = Some (unat (timeouts (h_metrics st))) \<and>
    scrape (str ''tcpunch_errors'') page = Some (unat (errors (h_metrics st))) \<and>
    scrape (str ''tcpunch_active_pairings'') page = Some (registry_active_count B (h_registry st)) \<and>
    scrape (str ''tcpunch_uptime_seconds'') page = Some (unat (as_secs (now - start_time st)))"
proof (intro exI conjI)
  show "health_router B now st ''/metrics'' = Some (200, TextBody (str ''text/plain; charset=utf-8'') (prometheus_text B now st))"
    by (simp add: health_router_def prometheus_metrics_def STATUS_OK_def)
qed (rule scrape_page [OF assms]; simp add: page_metrics_def str_def duration_since_def)+

theorem metrics_page_reports_counters_witness:
  "\<exists>page. health_router ref_registry_env (from_secs 7)
       \<lparr>h_metrics = metrics_new\<lparr>timeouts := 12\<rparr>, h_registry = InMemory demo1, start_time = 0, h_server_id = str ''srv''\<rparr> ''/metrics''
     = Some (200, TextBody (str ''text/plain; charset=utf-8'') page) \<and> scrape (str ''tcpunch_timeouts'') page = Some 12"
  using metrics_page_reports_counters [of "\<lparr>h_metrics = metrics_new\<lparr>timeouts := 12\<rparr>, h_registry = InMemory demo1,
      start_time = 0, h_server_id = str ''srv''\<rparr>" ref_registry_env "from_secs 7"]
  by (auto simp: str_def)

end
