(* ===== verification/Main_Prog.thy ===== *)
theory Main_Prog
  imports Accept_Loop Health
begin

text \<open>
  The program (\<open>server/rust/src/main.rs\<close>): the command line, the configurations derived from it,
  the choice of the backend, and the drain loop of the shutdown; the process around them is in
  \<open>Lifecycle\<close>. Parsing the command line (\<open>clap\<close>) and logging are not modelled; the parsed arguments,
  the outcome of connecting to Redis and the values the drain loop reads are arguments. The
  lemmas show what the drain guarantees about connections and what it leaves behind.
\<close>

subsection \<open>Start\<close>

record args =
  arg_port :: u16
  health_port :: u16
  redis_url :: "rust_string option"
  arg_recv_timeout :: u64
  arg_peer_timeout :: u64
  arg_max_connections :: usize
  log_level :: rust_string

text \<open>The defaults of the command line.\<close>

definition args_default :: args where
  "args_default =
     \<lparr>arg_port = 10000, health_port = 10001, redis_url = None, arg_recv_timeout = 5, arg_peer_timeout = 60,
      arg_max_connections = 10000, log_level = str ''info''\<rparr>"

definition main_registry_config :: "args \<Rightarrow> rust_string \<Rightarrow> registry_config" where
  "main_registry_config a sid =
     \<lparr>pairing_timeout = from_secs (arg_peer_timeout a), cleanup_interval = from_secs 30, server_id = sid\<rparr>"

definition main_server_config :: "args \<Rightarrow> server_config" where
  "main_server_config a =
     \<lparr>listen_port = arg_port a, recv_timeout = from_secs (arg_recv_timeout a),
      peer_wait_timeout = from_secs (arg_peer_timeout a), max_connections = arg_max_connections a\<rparr>"

definition main_registry ::
    "('p, 't, 'w, 'r) registry_env \<Rightarrow> args \<Rightarrow> rust_string \<Rightarrow> (rust_string \<Rightarrow> rust_string + 'r)
     \<Rightarrow> registry_error + ('p, 't, 'w, 'r) registry" where
  "main_registry B a sid connect =
     (case redis_url a of
        Some url \<Rightarrow>
          (case redis_new (red B) (main_registry_config a sid) (connect url) of
             Inl e \<Rightarrow> Inl e
           | Inr r \<Rightarrow> Inr (Redis r))
      | None \<Rightarrow> Inr (InMemory (mem_new (mem B) (main_registry_config a sid))))"

text \<open>The server as \<open>main\<close> starts it, with the state its health endpoints report.\<close>

definition main_start ::
    "('p, 't, 'w, 'r) registry_env \<Rightarrow> uuid_ops \<Rightarrow> args \<Rightarrow> uuid \<Rightarrow> (rust_string \<Rightarrow> rust_string + 'r) \<Rightarrow> instant
     \<Rightarrow> registry_error + ('p, 't, 'w, 'r) system \<times> ('p, 't, 'w, 'r) health_state" where
  "main_start B U a server_uuid connect now =
     (let sid = uuid_to_string U server_uuid in
      case main_registry B a sid connect of
        Inl e \<Rightarrow> Inl e
      | Inr reg \<Rightarrow>
          Inr (system_new (main_server_config a) reg,
               \<lparr>h_metrics = metrics_new, h_registry = reg, start_time = now, h_server_id = sid\<rparr>))"

subsection \<open>Shutdown\<close>

text \<open>
  The drain loop: \<open>active_connections\<close> is read once per second until it is zero or the thirty
  seconds of the timer are over; \<open>polls\<close> are the values read until then.
\<close>

datatype drain_end = AllDrained | DrainTimeout

definition drain_timeout :: duration where
  "drain_timeout = from_secs 30"

fun drain :: "usize list \<Rightarrow> drain_end" where
  "drain [] = DrainTimeout"
| "drain (active # polls) = (if active = 0 then AllDrained else drain polls)"

lemma drain_iff: "drain polls = AllDrained \<longleftrightarrow> 0 \<in> set polls"
  by (induction polls) auto

lemma step_stopped:
  assumes "server_step recv U B view s s'" and "\<not> accepting s"
  shows "\<not> accepting s' \<and> length (tasks s') = length (tasks s)"
  using assms
  by cases (auto simp: start_task_def apply_phase_def split: prod.splits)

lemma zero_count:
  assumes "word_of_nat (length (filter P xs)) = (0 :: 64 word)" and "length xs < 2 ^ 64" and "x \<in> set xs"
  shows "\<not> P x"
proof -
  have "length (filter P xs) < 2 ^ 64" using assms(2) length_filter_le [of P xs] by linarith
  then have "unat (word_of_nat (length (filter P xs)) :: 64 word) = length (filter P xs)"
    by (simp add: unsigned_of_nat take_bit_nat_eq_self)
  with assms(1) have "filter P xs = []" by simp
  with assms(3) show ?thesis by (metis filter_empty_conv)
qed

subsection \<open>Properties\<close>

text \<open>
  Once the accept loop has seen the shutdown signal no connection is accepted any more, in
  every continuation of the run.
\<close>

theorem shutdown_stops_accepting:
  assumes "(server_step recv U B view)\<^sup>*\<^sup>* (accept_step (ShutdownChanged True) s) s'"
  shows "\<not> accepting s' \<and> length (tasks s') = length (tasks s)"
  using assms
proof (induction rule: rtranclp_induct)
  case base
  show ?case by (simp add: accept_step_def)
next
  case (step s1 s2)
  then show ?case using step_stopped [OF step.hyps(2)] by simp
qed

theorem shutdown_stops_accepting_witness:
  "\<not> accepting (accept_step (ShutdownChanged True) demo_start) \<and>
   tasks (accept_step (ShutdownChanged True) demo_start) = []"
  using shutdown_stops_accepting [of first_event hyphenated_ops ref_registry_env ref_view demo_start, OF rtranclp.rtrancl_refl]
  by (simp add: system_new_def)

text \<open>
  When the drain loop reads zero, every connection whose task had begun has ended: the
  drain never cuts off a client that is being served. This needs fewer than \<open>2^64\<close> accepted connections.
\<close>

theorem drained_connections_have_ended:
  assumes "uuid_codec U" and "(server_step recv U B view)\<^sup>*\<^sup>* (system_new cfg reg) s"
    and "length (tasks s) < 2 ^ 64" and "drain [active_connections (metrics (srv s))] = AllDrained"
    and "k \<in> set (tasks s)"
  shows "k = Ended \<or> (\<exists>a. k = Spawned a)"
proof -
  have "word_of_nat (length (filter running (tasks s))) = (0 :: 64 word)"
    using steps_counters [OF assms(1,2)] assms(4) by (auto simp: counters_ok_def running_tasks_def split: if_splits)
  from zero_count [OF this assms(3,5)] show ?thesis by (cases k) auto
qed

theorem drained_connections_have_ended_witness:
  "\<exists>s. demo_step\<^sup>*\<^sup>* demo_start s \<and> length (tasks s) = 4 \<and> drain [active_connections (metrics (srv s))] = AllDrained \<and>
     (\<forall>k\<in>set (tasks s). k = Ended \<or> (\<exists>a. k = Spawned a))"
proof -
  let ?s = "demo_start\<lparr>tasks := replicate 4 (Spawned (demo_addr 1))\<rparr>"
  have run: "demo_step\<^sup>*\<^sup>* demo_start ?s"
    by (rule accepts_ahead) (simp add: server_config_default_def)
  have d: "drain [active_connections (metrics (srv ?s))] = AllDrained" "length (tasks ?s) = 4"
    by (simp_all add: system_new_def metrics_new_def)
  from drained_connections_have_ended [OF hyphenated.uuid_codec_axioms run _ d(1)] d(2)
  have "\<forall>k\<in>set (tasks ?s). k = Ended \<or> (\<exists>a. k = Spawned a)" by simp
  with run d show ?thesis by blast
qed

text \<open>
  Claim C40. The drain looks only at the counter, so connections accepted but not yet begun are
  abandoned: for any \<open>k\<close> there is a run in which the loop has stopped accepting, the first poll
  reads zero and the program exits while \<open>k\<close> accepted connections were never served.
\<close>

theorem drain_abandons_unstarted:
  assumes "0 < max_connections cfg"
  shows "\<exists>s. (server_step recv U B view)\<^sup>*\<^sup>* (system_new cfg reg) s \<and> \<not> accepting s \<and>
    drain [active_connections (metrics (srv s))] = AllDrained \<and> unstarted_tasks s = k"
proof -
  fix addr :: socket_addr
  let ?s = "(system_new cfg reg)\<lparr>tasks := replicate k (Spawned addr)\<rparr>"
  have "server_step recv U B view ?s (accept_step (ShutdownChanged True) ?s)"
    by (rule server_step.accept) (simp add: system_new_def)
  with accepts_ahead [OF assms, of recv U B view reg k addr]
  have "(server_step recv U B view)\<^sup>*\<^sup>* (system_new cfg reg) (accept_step (ShutdownChanged True) ?s)"
    by (rule rtranclp.rtrancl_into_rtrancl)
  then show ?thesis
    by (rule_tac exI [of _ "accept_step (ShutdownChanged True) ?s"])
      (simp add: accept_step_def system_new_def metrics_new_def unstarted_tasks_def)
qed

theorem drain_abandons_unstarted_witness:
  "\<exists>s. demo_step\<^sup>*\<^sup>* demo_start s \<and> \<not> accepting s \<and>
     drain [active_connections (metrics (srv s))] = AllDrained \<and> unstarted_tasks s = 3"
  by (rule drain_abandons_unstarted) (simp add: server_config_default_def)

text \<open>
  With the Redis backend \<open>main\<close> needs a peer timeout of at least one second and below
  \<open>2^63\<close> seconds: the program starts with any other value too, but then every client that
  comes first under its name is answered with an error.
\<close>

theorem main_redis_needs_timeout:
  assumes "redis_backend (red B) view clock deadline"
    and "main_registry B a sid connect = Inr (Redis (reg, st))"
    and "arg_peer_timeout a = 0 \<or> 2 ^ 63 \<le> unat (arg_peer_timeout a)"
    and "view st (pairing_key n) = None"
  shows "\<exists>e s' ev. registry_register B n i None sp (Redis (reg, st)) = (Inl e, s', ev)"
proof -
  have cfg: "redis_config reg = main_registry_config a sid"
    using assms(2) by (auto simp: main_registry_def redis_new_def split: option.splits sum.splits)
  let ?t = "pairing_timeout (main_registry_config a sid)"
  have t: "?t = unat (arg_peer_timeout a) * nanos_per_sec"
    by (simp add: main_registry_config_def from_secs_def)
  have "unat (arg_peer_timeout a) < 2 ^ 64" using unsigned_less [of "arg_peer_timeout a", where ?'a = nat] by simp
  then have "?t < 2 ^ 64 * nanos_per_sec" by (simp add: t nanos_per_sec_def)
  from ttl_secs_pos [OF this] assms(3) have "ttl_secs (redis_config reg) \<le> 0"
    unfolding cfg t by (auto simp: nanos_per_sec_def)
  from redis_backend.wait_needs_ttl [OF assms(1) this assms(4), of i sp] show ?thesis
    by (auto simp: registry_register_def redis_register_def)
qed

theorem main_redis_needs_timeout_witness:
  "\<exists>e s' ev. registry_register ref_registry_env demo_name (demo_peer 1) None (demo_runtime 1)
     (Redis (\<lparr>redis_config = main_registry_config (args_default\<lparr>redis_url := Some (str ''redis://db''), arg_peer_timeout := 0\<rparr>) (str ''a''),
              local_waiters = dm_new (waiters_map ref_env)\<rparr>, rdemo_store [] [])) = (Inl e, s', ev)"
proof -
  let ?a = "args_default\<lparr>redis_url := Some (str ''redis://db''), arg_peer_timeout := 0\<rparr>"
  have m: "main_registry ref_registry_env ?a (str ''a'') (\<lambda>url. Inr (rdemo_store [] [])) =
      Inr (Redis (\<lparr>redis_config = main_registry_config ?a (str ''a''), local_waiters = dm_new (waiters_map ref_env)\<rparr>, rdemo_store [] []))"
    by (simp add: main_registry_def redis_new_def ref_registry_env_def)
  have "redis_backend (red ref_registry_env) ref_view now_secs ref_deadline"
    by (simp add: ref_registry_env_def ref_backend.redis_backend_axioms)
  from main_redis_needs_timeout [OF this m] show ?thesis by (simp add: ref_defs)
qed

end
