(* ===== verification/Lifecycle.thy ===== *)
theory Lifecycle
  imports Main_Prog
begin

text \<open>
  The whole process (\<open>main\<close> in \<open>server/rust/src/main.rs\<close>): \<open>main\<close> starts the TCP server and the
  health server as two tasks, waits for a signal, tells the accept loop to stop, drains, aborts
  the two tasks and returns. The state of the server, of the two tasks and of \<open>main\<close> itself move
  in any order; the health endpoints read the same counters and the same registry the
  connections change. A poll of the drain loop that reads zero and the return of \<open>main\<close> after it are
  one step. The lemmas show what the process guarantees from start to exit.
\<close>

subsection \<open>State\<close>

text \<open>A spawned server: not yet bound, serving, ended with an error or with \<open>Ok\<close>, or aborted.\<close>

datatype task_state = Starting | Serving | Failed io_error | Finished | Aborted

text \<open>Where \<open>main\<close> is; \<open>Draining\<close> carries the start of the drain and the instant of the next poll.\<close>

datatype main_state = AwaitSignal | Draining instant instant | Exited drain_end | Panicked

record ('p, 't, 'w, 'r) process =
  net :: "('p, 't, 'w, 'r) system"
  boot :: instant
  process_id :: rust_string
  health_task :: task_state
  server_task :: task_state
  shutdown_tx :: bool
  main_at :: main_state
  clock_now :: instant

definition process_start ::
    "('p, 't, 'w, 'r) registry_env \<Rightarrow> uuid_ops \<Rightarrow> args \<Rightarrow> uuid \<Rightarrow> (rust_string \<Rightarrow> rust_string + 'r) \<Rightarrow> instant
     \<Rightarrow> registry_error + ('p, 't, 'w, 'r) process" where
  "process_start B U a server_uuid connect now =
     (case main_start B U a server_uuid connect now of
        Inl e \<Rightarrow> Inl e
      | Inr (s, h) \<Rightarrow>
          Inr \<lparr>net = s, boot = start_time h, process_id = h_server_id h, health_task = Starting,
               server_task = Starting, shutdown_tx = False, main_at = AwaitSignal, clock_now = now\<rparr>)"

subsection \<open>Operations\<close>

text \<open>\<open>TcpListener::bind(addr).await?\<close>, the first statement of both servers that can fail.\<close>

definition bind_listener :: "io_error + unit \<Rightarrow> task_state" where
  "bind_listener bound = (case bound of Inl e \<Rightarrow> Failed e | Inr _ \<Rightarrow> Serving)"

text \<open>The state both servers share through \<open>Arc\<close>, as the health server sees it.\<close>

definition shared_health :: "('p, 't, 'w, 'r) process \<Rightarrow> ('p, 't, 'w, 'r) health_state" where
  "shared_health P =
     \<lparr>h_metrics = metrics (srv (net P)), h_registry = registry (srv (net P)), start_time = boot P,
      h_server_id = process_id P\<rparr>"

definition run_health_server ::
    "('p, 't, 'w, 'r) registry_env \<Rightarrow> ('p, 't, 'w, 'r) process \<Rightarrow> string \<Rightarrow> http_response option" where
  "run_health_server B P path =
     (if health_task P = Serving then health_router B (clock_now P) (shared_health P) path else None)"

text \<open>
  \<open>shutdown_signal\<close>: the first of the two handlers that completes; \<open>expect\<close> panics when a handler
  cannot be installed.
\<close>

datatype signal_event = CtrlC | Sigterm | CtrlCFailed io_error | SigtermFailed io_error

definition shutdown_signal :: "signal_event \<Rightarrow> unit option" where
  "shutdown_signal e =
     (case e of CtrlC \<Rightarrow> Some () | Sigterm \<Rightarrow> Some () | CtrlCFailed _ \<Rightarrow> None | SigtermFailed _ \<Rightarrow> None)"

definition begin_shutdown :: "('p, 't, 'w, 'r) process \<Rightarrow> ('p, 't, 'w, 'r) process" where
  "begin_shutdown P = P\<lparr>shutdown_tx := True, main_at := Draining (clock_now P) (clock_now P)\<rparr>"

definition abort_task :: "task_state \<Rightarrow> task_state" where
  "abort_task t = (if t = Starting \<or> t = Serving then Aborted else t)"

definition exit_main :: "drain_end \<Rightarrow> ('p, 't, 'w, 'r) process \<Rightarrow> ('p, 't, 'w, 'r) process" where
  "exit_main e P =
     P\<lparr>health_task := abort_task (health_task P), server_task := abort_task (server_task P), main_at := Exited e\<rparr>"

text \<open>One turn of the drain loop.\<close>

definition poll_drain :: "instant \<Rightarrow> ('p, 't, 'w, 'r) process \<Rightarrow> ('p, 't, 'w, 'r) process" where
  "poll_drain began P =
     (case drain [active_connections (metrics (srv (net P)))] of
        AllDrained \<Rightarrow> exit_main AllDrained P
      | DrainTimeout \<Rightarrow> P\<lparr>main_at := Draining began (clock_now P + from_secs 1)\<rparr>)"

text \<open>One turn of the accept loop; leaving the loop ends \<open>run_server\<close> with \<open>Ok\<close>.\<close>

definition server_turn :: "accept_event \<Rightarrow> ('p, 't, 'w, 'r) process \<Rightarrow> ('p, 't, 'w, 'r) process" where
  "server_turn e P =
     P\<lparr>net := accept_step e (net P), server_task := (if e = ShutdownChanged True then Finished else server_task P)\<rparr>"

definition alive :: "('p, 't, 'w, 'r) process \<Rightarrow> bool" where
  "alive P \<longleftrightarrow> (case main_at P of AwaitSignal \<Rightarrow> True | Draining _ _ \<Rightarrow> True | _ \<Rightarrow> False)"

inductive process_step ::
    "(reg_event list \<Rightarrow> chan \<Rightarrow> peer_connection_data recv_outcome) \<Rightarrow> uuid_ops
     \<Rightarrow> ('p, 't, 'w, 'r) registry_env \<Rightarrow> ('r \<Rightarrow> rust_string \<Rightarrow> rust_string option)
     \<Rightarrow> ('p, 't, 'w, 'r) process \<Rightarrow> ('p, 't, 'w, 'r) process \<Rightarrow> bool"
  for recv U B view where
  tick: "alive P \<Longrightarrow> process_step recv U B view P (P\<lparr>clock_now := clock_now P + d\<rparr>)"
| bind_health: "alive P \<Longrightarrow> health_task P = Starting \<Longrightarrow>
    process_step recv U B view P (P\<lparr>health_task := bind_listener bound\<rparr>)"
| bind_server: "alive P \<Longrightarrow> server_task P = Starting \<Longrightarrow>
    process_step recv U B view P (P\<lparr>server_task := bind_listener bound\<rparr>)"
| turn: "alive P \<Longrightarrow> server_task P = Serving \<Longrightarrow> \<forall>b. e = ShutdownChanged b \<longrightarrow> b = shutdown_tx P \<Longrightarrow>
    process_step recv U B view P (server_turn e P)"
| work: "alive P \<Longrightarrow> server_step recv U B view (net P) s \<Longrightarrow> length (tasks s) = length (tasks (net P)) \<Longrightarrow>
    accepting s = accepting (net P) \<Longrightarrow> process_step recv U B view P (P\<lparr>net := s\<rparr>)"
| signal: "main_at P = AwaitSignal \<Longrightarrow> shutdown_signal e = Some () \<Longrightarrow>
    process_step recv U B view P (begin_shutdown P)"
| panic: "main_at P = AwaitSignal \<Longrightarrow> shutdown_signal e = None \<Longrightarrow>
    process_step recv U B view P (P\<lparr>main_at := Panicked\<rparr>)"
| poll: "main_at P = Draining began at \<Longrightarrow> at \<le> clock_now P \<Longrightarrow>
    process_step recv U B view P (poll_drain began P)"
| drain_timer: "main_at P = Draining began at \<Longrightarrow> began + drain_timeout \<le> clock_now P \<Longrightarrow>
    process_step recv U B view P (exit_main DrainTimeout P)"

subsection \<open>Reachable states\<close>

lemma poll_drain_eq:
  "poll_drain began P =
     (if active_connections (metrics (srv (net P))) = 0 then exit_main AllDrained P
      else P\<lparr>main_at := Draining began (clock_now P + from_secs 1)\<rparr>)"
  by (simp add: poll_drain_def)

lemmas process_defs = begin_shutdown_def exit_main_def poll_drain_eq server_turn_def abort_task_def bind_listener_def

text \<open>What holds of the process from the start on.\<close>

definition process_ok ::
    "(reg_event list \<Rightarrow> chan \<Rightarrow> peer_connection_data recv_outcome) \<Rightarrow> uuid_ops
     \<Rightarrow> ('p, 't, 'w, 'r) registry_env \<Rightarrow> ('r \<Rightarrow> rust_string \<Rightarrow> rust_string option)
     \<Rightarrow> ('p, 't, 'w, 'r) process \<Rightarrow> ('p, 't, 'w, 'r) process \<Rightarrow> bool" where
  "process_ok recv U B view P0 P \<longleftrightarrow>
     (server_step recv U B view)\<^sup>*\<^sup>* (net P0) (net P) \<and>
     (server_task P = Starting \<or> server_task P = Serving \<longrightarrow> accepting (net P)) \<and>
     (server_task P = Finished \<longrightarrow> \<not> accepting (net P) \<and> shutdown_tx P) \<and>
     (server_task P = Starting \<or> (\<exists>e. server_task P = Failed e) \<longrightarrow> tasks (net P) = []) \<and>
     (shutdown_tx P \<longleftrightarrow> main_at P \<noteq> AwaitSignal \<and> main_at P \<noteq> Panicked) \<and>
     (main_at P = Exited AllDrained \<longrightarrow> active_connections (metrics (srv (net P))) = 0) \<and>
     process_id P = process_id P0 \<and> boot P = boot P0"

lemma process_step_ok:
  assumes step: "process_step recv U B view P P'" and ok: "process_ok recv U B view P0 P"
  shows "process_ok recv U B view P0 P'"
  using step
proof cases
  case (turn e)
  have one: "server_step recv U B view (net P) (accept_step e (net P))"
    using ok turn by (intro server_step.accept) (simp add: process_ok_def)
  have reach: "(server_step recv U B view)\<^sup>*\<^sup>* (net P0) (accept_step e (net P))"
    using ok one unfolding process_ok_def by (meson rtranclp.rtrancl_into_rtrancl)
  have acc: "accepting (accept_step e (net P)) \<longleftrightarrow> e \<noteq> ShutdownChanged True"
    using ok turn by (auto simp: process_ok_def accept_step_def split: accept_event.splits)
  have "main_at P \<noteq> Exited AllDrained" using turn(2) by (auto simp: alive_def)
  moreover have "e = ShutdownChanged True \<Longrightarrow> shutdown_tx P" using turn(4) by blast
  ultimately show ?thesis
    using ok turn(3) reach acc unfolding process_ok_def turn(1) server_turn_def by (cases "e = ShutdownChanged True") simp_all
next
  case (work s)
  have reach: "(server_step recv U B view)\<^sup>*\<^sup>* (net P0) s"
    using ok work(3) unfolding process_ok_def by (meson rtranclp.rtrancl_into_rtrancl)
  have "main_at P \<noteq> Exited AllDrained" using work(2) by (auto simp: alive_def)
  moreover have "tasks (net P) = [] \<Longrightarrow> tasks s = []" using work(4) by simp
  ultimately show ?thesis
    using ok work(5) reach unfolding process_ok_def work(1) by (simp, blast)
qed (use ok in \<open>auto simp: process_ok_def process_defs alive_def split: sum.splits\<close>)

lemma process_steps_ok:
  assumes "(process_step recv U B view)\<^sup>*\<^sup>* P P'" and "process_ok recv U B view P0 P"
  shows "process_ok recv U B view P0 P'"
  using assms by (induction rule: rtranclp_induct) (auto intro: process_step_ok)

lemma process_start_ok:
  assumes "process_start B U a u connect now = Inr P0"
  shows "process_ok recv U B view P0 P0"
    and "\<exists>reg. main_registry B a (uuid_to_string U u) connect = Inr reg \<and> net P0 = system_new (main_server_config a) reg"
  using assms
  by (auto simp: process_start_def main_start_def process_ok_def system_new_def Let_def split: sum.splits)

lemma process_reachable:
  assumes "process_start B U a u connect now = Inr P0" and "(process_step recv U B view)\<^sup>*\<^sup>* P0 P"
  shows "process_ok recv U B view P0 P"
    and "\<exists>reg. main_registry B a (uuid_to_string U u) connect = Inr reg \<and>
      (server_step recv U B view)\<^sup>*\<^sup>* (system_new (main_server_config a) reg) (net P)"
proof -
  show ok: "process_ok recv U B view P0 P"
    by (rule process_steps_ok [OF assms(2) process_start_ok(1) [OF assms(1)]])
  from process_start_ok(2) [OF assms(1)] ok
  show "\<exists>reg. main_registry B a (uuid_to_string U u) connect = Inr reg \<and>
      (server_step recv U B view)\<^sup>*\<^sup>* (system_new (main_server_config a) reg) (net P)"
    by (auto simp: process_ok_def)
qed

lemma failed_stays:
  assumes "process_step recv U B view P P'" and "server_task P = Failed e"
  shows "server_task P' = Failed e"
  using assms by cases (simp_all add: process_defs)

lemma failed_forever:
  assumes "(process_step recv U B view)\<^sup>*\<^sup>* P P'" and "server_task P = Failed e"
  shows "server_task P' = Failed e"
  using assms by (induction rule: rtranclp_induct) (auto intro: failed_stays)

lemma exited_is_final: "\<not> alive P \<Longrightarrow> \<not> process_step recv U B view P P'"
  by (auto elim!: process_step.cases simp: alive_def)

subsection \<open>The drain\<close>

definition stopped :: "task_state \<Rightarrow> bool" where
  "stopped t \<longleftrightarrow> t \<noteq> Starting \<and> t \<noteq> Serving"

text \<open>The drain that a signal at the instant \<open>since\<close> began, and how it may have ended.\<close>

definition drain_ok :: "instant \<Rightarrow> ('p, 't, 'w, 'r) process \<Rightarrow> bool" where
  "drain_ok since P \<longleftrightarrow>
     (case main_at P of
        Draining began at \<Rightarrow> began = since \<and> at \<le> clock_now P + from_secs 1
      | Exited AllDrained \<Rightarrow> active_connections (metrics (srv (net P))) = 0 \<and> stopped (server_task P) \<and> stopped (health_task P)
      | Exited DrainTimeout \<Rightarrow> since + from_secs 30 \<le> clock_now P \<and> stopped (server_task P) \<and> stopped (health_task P)
      | _ \<Rightarrow> False)"

text \<open>A step in which \<open>main\<close> lets neither of its two timers pass without acting on it.\<close>

definition prompt :: "('p, 't, 'w, 'r) process \<Rightarrow> ('p, 't, 'w, 'r) process \<Rightarrow> bool" where
  "prompt P P' \<longleftrightarrow> clock_now P' = clock_now P \<or>
     (case main_at P of Draining began at \<Rightarrow> clock_now P' \<le> began + from_secs 30 \<and> clock_now P' \<le> at | _ \<Rightarrow> True)"

lemma drain_ok_step:
  assumes step: "process_step recv U B view P P'" and ok: "drain_ok since P"
  shows "drain_ok since P'"
  using step ok
  by cases (auto simp: drain_ok_def process_defs alive_def stopped_def drain_timeout_def
      split: main_state.splits drain_end.splits)

lemma drain_ok_steps:
  assumes "(process_step recv U B view)\<^sup>*\<^sup>* P P'" and "drain_ok since P"
  shows "drain_ok since P'"
  using assms by (induction rule: rtranclp_induct) (auto intro: drain_ok_step)

lemma drain_ok_begin: "drain_ok (clock_now P) (begin_shutdown P)"
  by (simp add: drain_ok_def begin_shutdown_def)

text \<open>The only step that takes \<open>main\<close> from waiting for the signal into the drain.\<close>

lemma signal_step:
  assumes "process_step recv U B view P P'" and "main_at P = AwaitSignal" and "main_at P' \<noteq> AwaitSignal" and "main_at P' \<noteq> Panicked"
  shows "P' = begin_shutdown P"
  using assms by cases (auto simp: server_turn_def)

lemma prompt_clock:
  assumes "(\<lambda>P P'. process_step recv U B view P P' \<and> prompt P P')\<^sup>*\<^sup>* P P'" and "drain_ok since P"
    and "clock_now P \<le> since + from_secs 30"
  shows "drain_ok since P' \<and> clock_now P' \<le> since + from_secs 30"
  using assms(1)
proof (induction rule: rtranclp_induct)
  case (step P1 P2)
  then have ok: "drain_ok since P1" and one: "process_step recv U B view P1 P2" "prompt P1 P2" by simp_all
  have "alive P1" using exited_is_final one(1) by blast
  with ok step.IH one(2) have "clock_now P2 \<le> since + from_secs 30"
    by (auto simp: drain_ok_def prompt_def alive_def split: main_state.splits)
  with drain_ok_step [OF one(1) ok] show ?case by simp
qed (use assms(2,3) in simp)

subsection \<open>A run from start to exit\<close>

abbreviation demo_process_step where
  "demo_process_step \<equiv> process_step first_event hyphenated_ops ref_registry_env ref_view"

definition demo_process ::
    "((rust_string, pairing_entry) alist, (uuid, rust_string) alist, (rust_string, chan) alist, ref_store) process" where
  "demo_process =
     \<lparr>net = system_new (main_server_config args_default)
              (InMemory (mem_new alist_env (main_registry_config args_default (hyphenated 7)))),
      boot = 0, process_id = hyphenated 7, health_task = Starting, server_task = Starting, shutdown_tx = False,
      main_at = AwaitSignal, clock_now = 0\<rparr>"

lemma demo_process_start:
  "process_start ref_registry_env hyphenated_ops args_default 7 (\<lambda>url. Inl url) 0 = Inr demo_process"
  by (simp add: process_start_def main_start_def main_registry_def args_default_def demo_process_def
      ref_registry_env_def hyphenated_ops_def Let_def)

lemma demo_process_sel:
  "alive demo_process" "health_task demo_process = Starting" "server_task demo_process = Starting"
  "main_at demo_process = AwaitSignal" "clock_now demo_process = 0" "\<not> shutdown_tx demo_process"
  by (simp_all add: demo_process_def alive_def)

text \<open>One connection is accepted, sends nothing, and has ended when the signal comes.\<close>

lemma demo_process_run:
  "\<exists>P. demo_process_step\<^sup>*\<^sup>* demo_process P \<and> main_at P = Exited AllDrained \<and> tasks (net P) = [Ended]"
proof -
  define s where "s = accept_step (AcceptOk (demo_addr 1)) (net demo_process)"
  define s' where "s' = start_task 0 (demo_addr 1) s"
  let ?sp = "(demo_runtime 1)\<lparr>new_chan := 0\<rparr>"
  let ?ph = "(Returned (Inr ()), [], bump timeout_occurred (srv s'), [])"
  define s'' where "s'' = apply_phase 0 ?ph (s'\<lparr>next_chan := next_chan s' + 1\<rparr>)"
  define P where "P = demo_process\<lparr>server_task := Serving\<rparr>"
  have t: "tasks s = [Spawned (demo_addr 1)]" "tasks s' = [Reading (demo_addr 1)]" "tasks s'' = [Ended]" "next_chan s' = 0"
    and acc: "accepting s" "accepting s'" "accepting s''" and zero: "active_connections (metrics (srv s'')) = 0"
    and reg: "registry (srv s') = InMemory (mem_new alist_env (main_registry_config args_default (hyphenated 7)))"
    by (simp_all add: s_def s'_def s''_def accept_step_def start_task_def apply_phase_def demo_process_def system_new_def
        metrics_new_def metrics_end_task phase_defs main_server_config_def args_default_def)
  have w1: "demo_step s s'" unfolding s'_def by (rule server_step.start) (simp_all add: t)
  have "mem_token alist_env (mem_new alist_env (main_registry_config args_default (hyphenated 7))) 1 = None"
    by (simp add: mem_new_def mem_token_def alist_mem.t.get_new)
  then have w2: "demo_step s' s''" unfolding s''_def
    by (intro server_step.request [where sp = ?sp and addr = "demo_addr 1" and reading = ReadTimeout and written = "Inr ()"])
      (simp_all add: t reg registry_admits_def mem_admits_def handle_request_def from_socket_addr_def to_socket_addr_def demo_addr_def)
  have "demo_process_step demo_process P"
    using process_step.bind_server [OF demo_process_sel(1,3), of first_event hyphenated_ops ref_registry_env ref_view "Inr ()"]
    by (simp add: P_def bind_listener_def)
  moreover have "server_turn (AcceptOk (demo_addr 1)) P = P\<lparr>net := s\<rparr>"
    by (simp add: server_turn_def s_def P_def demo_process_def)
  then have "demo_process_step P (P\<lparr>net := s\<rparr>)"
    using process_step.turn [of P "AcceptOk (demo_addr 1)" first_event hyphenated_ops ref_registry_env ref_view]
    by (simp add: P_def alive_def demo_process_sel)
  moreover have "demo_process_step (P\<lparr>net := s\<rparr>) (P\<lparr>net := s'\<rparr>)"
    using process_step.work [of "P\<lparr>net := s\<rparr>", OF _ _ _ _] w1 t acc by (fastforce simp: P_def alive_def demo_process_sel)
  moreover have "demo_process_step (P\<lparr>net := s'\<rparr>) (P\<lparr>net := s''\<rparr>)"
    using process_step.work [of "P\<lparr>net := s'\<rparr>", OF _ _ _ _] w2 t acc by (fastforce simp: P_def alive_def demo_process_sel)
  moreover have "demo_process_step (P\<lparr>net := s''\<rparr>) (begin_shutdown (P\<lparr>net := s''\<rparr>))"
    by (rule process_step.signal [where e = Sigterm]) (simp_all add: P_def demo_process_sel shutdown_signal_def)
  moreover have "demo_process_step (begin_shutdown (P\<lparr>net := s''\<rparr>)) (exit_main AllDrained (begin_shutdown (P\<lparr>net := s''\<rparr>)))"
    using process_step.poll [of "begin_shutdown (P\<lparr>net := s''\<rparr>)" 0 0] zero
    by (simp add: poll_drain_eq begin_shutdown_def P_def demo_process_sel)
  ultimately have "demo_process_step\<^sup>*\<^sup>* demo_process (exit_main AllDrained (begin_shutdown (P\<lparr>net := s''\<rparr>)))"
    by (meson converse_rtranclp_into_rtranclp rtranclp.rtrancl_refl)
  moreover have "main_at (exit_main AllDrained (begin_shutdown (P\<lparr>net := s''\<rparr>))) = Exited AllDrained"
    and "tasks (net (exit_main AllDrained (begin_shutdown (P\<lparr>net := s''\<rparr>)))) = [Ended]"
    by (simp_all add: exit_main_def begin_shutdown_def t)
  ultimately show ?thesis by blast
qed

subsection \<open>Properties\<close>

text \<open>
  Claim C32. When the TCP port cannot be bound nobody notices: \<open>main\<close> never looks at the handle of
  the task, so the process keeps running until a signal arrives, accepts no connection in any
  continuation, and its health server (if it could bind) answers both probes with 200, \<open>/readyz\<close>
  with the status \<open>ready\<close>.
\<close>

theorem bind_failure_unnoticed:
  assumes "process_start B U a u connect now = Inr P0" and "(process_step recv U B view)\<^sup>*\<^sup>* P0 P"
    and "server_task P = Failed e" and "(process_step recv U B view)\<^sup>*\<^sup>* P P'"
  shows "tasks (net P') = [] \<and> (\<forall>d. main_at P' = Exited d \<longrightarrow> shutdown_tx P') \<and>
    (health_task P' = Serving \<longrightarrow>
       run_health_server B P' ''/livez'' = Some (200, NoBody) \<and>
       (\<exists>r. run_health_server B P' ''/readyz'' = Some (200, JsonBody r) \<and> h_status r = str ''ready''))"
proof -
  have "process_ok recv U B view P0 P'"
    by (rule process_steps_ok [OF assms(4) process_reachable(1) [OF assms(1,2)]])
  moreover have "server_task P' = Failed e" by (rule failed_forever [OF assms(4,3)])
  ultimately show ?thesis
    by (auto simp: process_ok_def run_health_server_def health_router_def liveness_def readiness_def health_body_def STATUS_OK_def)
qed

theorem bind_failure_unnoticed_witness:
  "\<exists>P. demo_process_step\<^sup>*\<^sup>* demo_process P \<and> server_task P = Failed (str ''address in use'') \<and> tasks (net P) = [] \<and>
     run_health_server ref_registry_env P ''/livez'' = Some (200, NoBody)"
proof -
  let ?P = "demo_process\<lparr>server_task := Failed (str ''address in use'')\<rparr>" and ?P' =
    "demo_process\<lparr>server_task := Failed (str ''address in use''), health_task := Serving\<rparr>"
  have a: "demo_process_step demo_process ?P"
    using process_step.bind_server [OF demo_process_sel(1,3), where bound = "Inl (str ''address in use'')"]
    by (simp add: bind_listener_def)
  have b: "demo_process_step ?P ?P'"
    using process_step.bind_health [of ?P, where bound = "Inr ()"] by (simp add: bind_listener_def alive_def demo_process_sel)
  from bind_failure_unnoticed [OF demo_process_start r_into_rtranclp [of demo_process_step, OF a] _ r_into_rtranclp [of demo_process_step, OF b]]
  have "tasks (net ?P') = [] \<and> run_health_server ref_registry_env ?P' ''/livez'' = Some (200, NoBody)" by simp
  moreover have "demo_process_step\<^sup>*\<^sup>* demo_process ?P'" using a b by (meson converse_rtranclp_into_rtranclp rtranclp.rtrancl_refl)
  ultimately show ?thesis by (intro exI [of _ ?P']) simp
qed

text \<open>
  Claim C14. A signal ends the program in bounded time. Whatever happens after the signal, \<open>main\<close>
  is draining since the instant of the signal, or it has exited for good with both servers
  stopped: with \<open>AllDrained\<close> only if no connection was active, with \<open>DrainTimeout\<close> only if thirty
  seconds have passed since the signal. While it drains the next poll is at most a second away;
  a poll that is due with no connection active ends the program, and so does the timer once
  thirty seconds have passed since the signal, however many polls there were. If \<open>main\<close> acts on
  its timers when they are due, no moment later than thirty seconds after the signal is reached
  before it has exited.
\<close>

theorem shutdown_completes:
  assumes "process_step recv U B view P0 P1" and "main_at P0 = AwaitSignal" and "main_at P1 \<noteq> AwaitSignal"
    and "main_at P1 \<noteq> Panicked" and "(process_step recv U B view)\<^sup>*\<^sup>* P1 P"
  shows "((\<exists>at. main_at P = Draining (clock_now P0) at \<and> at \<le> clock_now P + from_secs 1 \<and>
        (at \<le> clock_now P \<longrightarrow> active_connections (metrics (srv (net P))) = 0 \<longrightarrow>
           (\<exists>P'. process_step recv U B view P P' \<and> main_at P' = Exited AllDrained)) \<and>
        (clock_now P0 + from_secs 30 \<le> clock_now P \<longrightarrow>
           (\<exists>P'. process_step recv U B view P P' \<and> main_at P' = Exited DrainTimeout)))
      \<or> (\<forall>P'. \<not> process_step recv U B view P P') \<and> stopped (server_task P) \<and> stopped (health_task P) \<and>
        (main_at P = Exited AllDrained \<and> active_connections (metrics (srv (net P))) = 0 \<or>
         main_at P = Exited DrainTimeout \<and> clock_now P0 + from_secs 30 \<le> clock_now P))
    \<and> ((\<lambda>P P'. process_step recv U B view P P' \<and> prompt P P')\<^sup>*\<^sup>* P1 P \<longrightarrow>
        clock_now P \<le> clock_now P0 + from_secs 30)"
proof (intro conjI impI)
  have P1: "P1 = begin_shutdown P0" by (rule signal_step [OF assms(1-4)])
  have ok: "drain_ok (clock_now P0) P" by (rule drain_ok_steps [OF assms(5) [unfolded P1] drain_ok_begin])
  show "clock_now P \<le> clock_now P0 + from_secs 30"
    if "(\<lambda>P P'. process_step recv U B view P P' \<and> prompt P P')\<^sup>*\<^sup>* P1 P"
    using prompt_clock [OF that [unfolded P1] drain_ok_begin] by (simp add: begin_shutdown_def)
  show "(\<exists>at. main_at P = Draining (clock_now P0) at \<and> at \<le> clock_now P + from_secs 1 \<and>
        (at \<le> clock_now P \<longrightarrow> active_connections (metrics (srv (net P))) = 0 \<longrightarrow>
           (\<exists>P'. process_step recv U B view P P' \<and> main_at P' = Exited AllDrained)) \<and>
        (clock_now P0 + from_secs 30 \<le> clock_now P \<longrightarrow>
           (\<exists>P'. process_step recv U B view P P' \<and> main_at P' = Exited DrainTimeout)))
      \<or> (\<forall>P'. \<not> process_step recv U B view P P') \<and> stopped (server_task P) \<and> stopped (health_task P) \<and>
        (main_at P = Exited AllDrained \<and> active_connections (metrics (srv (net P))) = 0 \<or>
         main_at P = Exited DrainTimeout \<and> clock_now P0 + from_secs 30 \<le> clock_now P)"
  proof (cases "main_at P")
    case (Draining began at)
    have "process_step recv U B view P (poll_drain began P)" if "at \<le> clock_now P"
      by (rule process_step.poll [OF Draining that])
    moreover have "process_step recv U B view P (exit_main DrainTimeout P)" if "began + from_secs 30 \<le> clock_now P"
      by (rule process_step.drain_timer [OF Draining]) (use that in \<open>simp add: drain_timeout_def\<close>)
    moreover have "main_at (exit_main d P) = Exited d" for d by (simp add: exit_main_def)
    ultimately show ?thesis using ok Draining by (fastforce simp: drain_ok_def poll_drain_eq)
  next
    case (Exited d)
    with exited_is_final [of P] ok show ?thesis by (cases d) (auto simp: drain_ok_def alive_def)
  qed (use ok in \<open>simp_all add: drain_ok_def\<close>)
qed

theorem shutdown_completes_witness:
  "\<exists>P1 P P'. demo_process_step demo_process P1 \<and> demo_process_step\<^sup>*\<^sup>* P1 P \<and> main_at P = Draining 0 (from_secs 0) \<and>
     clock_now P = from_secs 30 \<and> demo_process_step P P' \<and> main_at P' = Exited DrainTimeout"
proof -
  let ?P1 = "begin_shutdown demo_process" and ?P = "(begin_shutdown demo_process)\<lparr>clock_now := from_secs 30\<rparr>"
  have sig: "demo_process_step demo_process ?P1"
    by (rule process_step.signal [where e = CtrlC]) (simp_all add: demo_process_sel shutdown_signal_def)
  have "demo_process_step ?P1 ?P"
    using process_step.tick [of ?P1, where d = "from_secs 30"] by (simp add: begin_shutdown_def alive_def demo_process_sel)
  note run = r_into_rtranclp [of demo_process_step, OF this]
  have at: "main_at ?P1 \<noteq> AwaitSignal" "main_at ?P1 \<noteq> Panicked" "main_at ?P = Draining 0 (from_secs 0)" "clock_now ?P = from_secs 30"
    by (simp_all add: begin_shutdown_def demo_process_sel from_secs_def)
  obtain P' where "demo_process_step ?P P'" "main_at P' = Exited DrainTimeout"
    using shutdown_completes [OF sig demo_process_sel(4) at(1,2) run, THEN conjunct1] at(3) by (auto simp: demo_process_sel)
  with sig run at(3,4) show ?thesis by blast
qed

text \<open>
  Claim C15. A program that exits with all connections drained cuts off no client: every
  connection whose task had begun has ended. This needs fewer than \<open>2^64\<close> accepted connections.
\<close>

theorem exit_after_drain_is_clean:
  assumes "uuid_codec U" and "process_start B U a u connect now = Inr P0"
    and "(process_step recv U B view)\<^sup>*\<^sup>* P0 P" and "main_at P = Exited AllDrained"
    and "length (tasks (net P)) < 2 ^ 64" and "k \<in> set (tasks (net P))"
  shows "k = Ended \<or> (\<exists>addr. k = Spawned addr)"
proof -
  from process_reachable(2) [OF assms(2,3)] obtain reg where
    "(server_step recv U B view)\<^sup>*\<^sup>* (system_new (main_server_config a) reg) (net P)" by blast
  note run = steps_counters [OF assms(1) this]
  have "active_connections (metrics (srv (net P))) = 0"
    using process_reachable(1) [OF assms(2,3)] assms(4) by (simp add: process_ok_def)
  with run have "word_of_nat (length (filter running (tasks (net P)))) = (0 :: 64 word)"
    by (simp add: counters_ok_def running_tasks_def)
  from zero_count [OF this assms(5,6)] show ?thesis by (cases k) auto
qed

theorem exit_after_drain_is_clean_witness:
  "\<exists>P. demo_process_step\<^sup>*\<^sup>* demo_process P \<and> main_at P = Exited AllDrained \<and> tasks (net P) \<noteq> [] \<and>
     list_all (\<lambda>k. k = Ended \<or> (\<exists>addr. k = Spawned addr)) (tasks (net P))"
proof -
  obtain P where P: "demo_process_step\<^sup>*\<^sup>* demo_process P" "main_at P = Exited AllDrained" "tasks (net P) = [Ended]"
    using demo_process_run by blast
  with exit_after_drain_is_clean [OF hyphenated.uuid_codec_axioms demo_process_start P(1,2)] show ?thesis
    by (auto simp: list_all_iff)
qed

text \<open>
  Claim C16. While the health server runs, \<open>/health\<close> reports the live state of the process: the
  number of connections being served, the number of connections that began (each modulo \<open>2^64\<close>),
  the pairings waiting in the registry, and the identity under which the process started.
\<close>

theorem health_reports_live_state:
  assumes "uuid_codec U" and "process_start B U a u connect now = Inr P0"
    and "(process_step recv U B view)\<^sup>*\<^sup>* P0 P" and "health_task P = Serving"
  shows "\<exists>r. run_health_server B P ''/health'' = Some (200, JsonBody r) \<and>
    snap_active_connections (r_metrics r) = word_of_nat (running_tasks (net P)) \<and>
    snap_total_connections (r_metrics r) = word_of_nat (length (tasks (net P)) - unstarted_tasks (net P)) \<and>
    active_pairings r = registry_active_count B (registry (srv (net P))) \<and>
    r_server_id r = uuid_to_string U u"
proof -
  from process_reachable(2) [OF assms(2,3)] obtain reg where
    "(server_step recv U B view)\<^sup>*\<^sup>* (system_new (main_server_config a) reg) (net P)" by blast
  note run = steps_counters [OF assms(1) this]
  have "process_id P = uuid_to_string U u"
    using process_reachable(1) [OF assms(2,3)] assms(2)
    by (auto simp: process_ok_def process_start_def main_start_def Let_def split: sum.splits)
  moreover have "unstarted_tasks (net P) \<le> length (tasks (net P))"
    by (simp add: unstarted_tasks_def length_filter_le)
  ultimately show ?thesis
    using run assms(4)
    by (simp add: run_health_server_def health_router_def health_def health_body_def shared_health_def snapshot_def
        STATUS_OK_def counters_ok_def of_nat_diff)
qed

theorem health_reports_live_state_witness:
  "\<exists>P r. demo_process_step\<^sup>*\<^sup>* demo_process P \<and> run_health_server ref_registry_env P ''/health'' = Some (200, JsonBody r) \<and>
     snap_active_connections (r_metrics r) = 0 \<and> r_server_id r = hyphenated 7"
proof -
  let ?P = "demo_process\<lparr>health_task := Serving\<rparr>"
  have "demo_process_step demo_process ?P"
    using process_step.bind_health [OF demo_process_sel(1,2), where bound = "Inr ()"] by (simp add: bind_listener_def)
  note run = r_into_rtranclp [of demo_process_step, OF this]
  have "running_tasks (net ?P) = 0" by (simp add: running_tasks_def demo_process_def system_new_def)
  moreover have "health_task ?P = Serving" by simp
  note health_reports_live_state [OF hyphenated.uuid_codec_axioms demo_process_start run this]
  ultimately show ?thesis using run by (auto simp: hyphenated_ops_def)
qed

end
