(* ===== verification/Typing.thy ===== *)
theory Typing
  imports Accept_Loop
begin

text \<open>
  A type invariant of the whole server: whatever arrives from the network, the names the
  handlers and the registry hold are the names the protocol allows, and every frame handed to a
  socket is one complete response. The bytes are checked once, by the decoder in \<open>protocol.rs\<close>;
  the lemmas follow the names from there through the handler into both backends and back.
\<close>

definition valid_name :: "rust_string \<Rightarrow> bool" where
  "valid_name n \<longleftrightarrow> n \<noteq> [] \<and> utf8_valid n \<and> 0 \<notin> set n \<and> length n \<le> MAX_PAIRING_NAME"

fun task_typed :: "task \<Rightarrow> bool" where
  "task_typed (Waits n t c info) \<longleftrightarrow> valid_name n"
| "task_typed (TimedOut n t info) \<longleftrightarrow> valid_name n"
| "task_typed _ \<longleftrightarrow> True"

definition registry_names :: "('p, 't, 'w, 'r) registry_env \<Rightarrow> ('p, 't, 'w, 'r) registry \<Rightarrow> rust_string list" where
  "registry_names B self =
     (case self of
        InMemory r \<Rightarrow> map fst (dm_iter (pairings_map (mem B)) (pairings r)) @ map snd (dm_iter (tokens_map (mem B)) (tokens r))
      | Redis (r, st) \<Rightarrow> map fst (dm_iter (waiters_map (red B)) (local_waiters r)))"

definition system_typed :: "('p, 't, 'w, 'r) registry_env \<Rightarrow> ('p, 't, 'w, 'r) system \<Rightarrow> bool" where
  "system_typed B s \<longleftrightarrow>
     list_all task_typed (tasks s) \<and> list_all valid_name (registry_names B (registry (srv s))) \<and>
     list_all (\<lambda>(i, f). i < length (tasks s) \<and> length f = SERVER_RESPONSE_SIZE \<and>
                 status_as_u8 (status_from_u8 (hd f)) = hd f) (sent s)"

subsection \<open>Names in the registry\<close>

context mem_backend
begin

lemma register_names:
  assumes "mem_register E n i rtok sp reg = (x, reg', ev)"
  shows "mem_entry E reg' m \<noteq> None \<Longrightarrow> m = n \<or> mem_entry E reg m \<noteq> None"
    and "mem_token E reg' t = Some m \<Longrightarrow> m = n \<or> mem_token E reg t = Some m"
proof -
  obtain ps where rm: "dm_remove (pairings_map E) n (pairings reg) = (map_option (Pair n) (mem_entry E reg n), ps)"
    and ps: "snd (dm_remove (pairings_map E) n (pairings reg)) = ps"
    by (rule remove_obtain)
  have get: "dm_get (pairings_map E) k ps = (if k = n then None else mem_entry E reg k)" for k
    unfolding ps [symmetric] by (simp add: map_laws)
  show "mem_entry E reg' m \<noteq> None \<Longrightarrow> m = n \<or> mem_entry E reg m \<noteq> None"
    using assms get [of m]
    by (auto simp: mem_register_def rm mem_entry_def p.get_insert p.get_alter Let_def split: option.splits if_splits)
  show "mem_token E reg' t = Some m \<Longrightarrow> m = n \<or> mem_token E reg t = Some m"
    using assms
    by (auto simp: mem_register_def rm mem_token_def t.get_insert t.get_remove Let_def split: option.splits if_splits)
qed

end

lemma redis_register_local:
  assumes "redis_register E n i t sp (reg, st) = (x, (reg', st'), ev)"
  shows "local_waiters reg' = local_waiters reg
    \<or> local_waiters reg' = dm_insert (waiters_map E) n (new_chan sp) (local_waiters reg)
    \<or> local_waiters reg' = snd (dm_remove (waiters_map E) n (local_waiters reg))"
  using assms
  by (auto simp: redis_register_def redis_fresh_def redis_resume_def redis_pair_def redis_wait_def query_def internal_def
      insert_waiter_def Let_def split: option.splits sum.splits prod.splits if_splits)

lemma redis_cleanup_local:
  "redis_cleanup_loop E ns c (reg, st) = (k, (reg', st'), ev) \<Longrightarrow> dashmap (waiters_map E) \<Longrightarrow>
   dm_get (waiters_map E) m (local_waiters reg') \<noteq> None \<Longrightarrow> dm_get (waiters_map E) m (local_waiters reg) \<noteq> None"
proof (induction ns arbitrary: c reg st ev)
  case (Cons n ns)
  obtain reply st1 where r: "r_exists (redis_cmds E) (pairing_key n) st = (reply, st1)"
    by (cases "r_exists (redis_cmds E) (pairing_key n) st")
  show ?case
  proof (cases "case reply of Inl _ \<Rightarrow> False | Inr b \<Rightarrow> b")
    case True
    with Cons r show ?thesis by simp
  next
    case False
    let ?reg = "reg\<lparr>local_waiters := snd (dm_remove (waiters_map E) n (local_waiters reg))\<rparr>"
    from False Cons.prems(1) r obtain ev' where "redis_cleanup_loop E ns (c + 1) (?reg, st1) = (k, (reg', st'), ev')"
      by (auto simp: Let_def split: prod.splits)
    from Cons.IH [OF this Cons.prems(2,3)] show ?thesis
      using dashmap.get_remove [OF Cons.prems(2), of m n "local_waiters reg"] by (auto split: if_splits)
  qed
qed simp

context registry_backend
begin

lemma mem_names_iff:
  "m \<in> set (registry_names B (InMemory r)) \<longleftrightarrow>
     mem_entry (mem B) r m \<noteq> None \<or> (\<exists>t. mem_token (mem B) r t = Some m)"
proof -
  have "m \<in> snd ` set xs \<longleftrightarrow> (\<exists>t. (t, m) \<in> set xs)" for xs :: "(uuid \<times> rust_string) list" by force
  then show ?thesis
    using m.p.keys_iter [of "pairings r"]
    by (auto simp: registry_names_def mem_entry_def mem_token_def m.t.iter_iff)
qed

lemma redis_names_iff:
  "m \<in> set (registry_names B (Redis (r, st))) \<longleftrightarrow> dm_get (waiters_map (red B)) m (local_waiters r) \<noteq> None"
  using r.w.keys_iter [of "local_waiters r"] by (auto simp: registry_names_def)

lemma registry_register_names:
  assumes "registry_register B n i t sp self = (x, self', ev)"
  shows "set (registry_names B self') \<subseteq> insert n (set (registry_names B self))"
proof (cases self)
  case (InMemory r)
  with assms obtain r' where "mem_register (mem B) n i t sp r = (x, r', ev)" and "self' = InMemory r'"
    by (auto simp: registry_register_def split: prod.splits)
  with m.register_names [OF this(1)] show ?thesis
    unfolding subset_iff InMemory by (auto simp: mem_names_iff) blast+
next
  case (Redis s)
  then obtain r st r' st' where s: "s = (r, st)" "self' = Redis (r', st')"
    and reg: "redis_register (red B) n i t sp (r, st) = (x, (r', st'), ev)"
    using assms by (cases s) (auto simp: registry_register_def split: prod.splits)
  show ?thesis
    using redis_register_local [OF reg] unfolding Redis s subset_iff insert_iff redis_names_iff
    by (auto simp: r.w.get_insert r.w.get_remove split: if_splits)
qed

lemma registry_unregister_names:
  assumes "registry_unregister B n t self = (x, self', ev)"
  shows "set (registry_names B self') \<subseteq> set (registry_names B self)"
proof (cases self)
  case (InMemory r)
  with assms obtain r' where "mem_unregister (mem B) n t r = (x, r', ev)" and r': "self' = InMemory r'"
    by (auto simp: registry_unregister_def split: prod.splits)
  note maps = m.unregister_maps [OF this(1)]
  show ?thesis
    unfolding subset_iff InMemory r' mem_names_iff maps(1,2) by (auto split: if_splits)
next
  case (Redis s)
  then obtain r st r' st' where s: "s = (r, st)" "self' = Redis (r', st')"
    and un: "redis_unregister (red B) n t (r, st) = (x, (r', st'), ev)"
    using assms by (cases s) (auto simp: registry_unregister_def split: prod.splits)
  have "local_waiters r' = local_waiters r \<or> local_waiters r' = snd (dm_remove (waiters_map (red B)) n (local_waiters r))"
    using un by (auto simp: redis_unregister_def query_def split: prod.splits sum.splits)
  then show ?thesis
    unfolding Redis s subset_iff redis_names_iff by (auto simp: r.w.get_remove split: if_splits)
qed

lemma registry_sweep_names:
  assumes "registry_sweep B now self = (self', ev)"
  shows "set (registry_names B self') \<subseteq> set (registry_names B self)"
proof (cases self)
  case (InMemory r)
  with assms obtain k r' where "mem_cleanup_expired (mem B) now r = (k, r', ev)" and r': "self' = InMemory r'"
    by (auto simp: registry_sweep_def split: prod.splits)
  note maps = m.cleanup_maps [OF this(1)]
  show ?thesis
    unfolding subset_iff InMemory r' mem_names_iff maps(1,2) by (auto split: if_splits option.splits)
next
  case (Redis s)
  then obtain r st k r' st' where s: "s = (r, st)" "self' = Redis (r', st')"
    and sw: "redis_cleanup_expired (red B) (r, st) = (k, (r', st'), ev)"
    using assms by (cases s) (auto simp: registry_sweep_def split: prod.splits)
  from redis_cleanup_local [OF sw [unfolded redis_cleanup_expired_def] r.w.dashmap_axioms] show ?thesis
    unfolding Redis s subset_iff redis_names_iff by blast
qed

end

subsection \<open>Every step keeps the types\<close>

definition typed_frames :: "byte list list \<Rightarrow> bool" where
  "typed_frames fs \<longleftrightarrow> list_all (\<lambda>f. length f = SERVER_RESPONSE_SIZE \<and> status_as_u8 (status_from_u8 (hd f)) = hd f) fs"

fun typed_handler :: "handler \<Rightarrow> bool" where
  "typed_handler (AwaitPeer n t c info) \<longleftrightarrow> valid_name n"
| "typed_handler (Returned res) \<longleftrightarrow> True"

definition typed_phase :: "('p, 't, 'w, 'r) registry_env \<Rightarrow> ('p, 't, 'w, 'r) phase \<Rightarrow> bool" where
  "typed_phase B p \<longleftrightarrow> (case p of (h, frames, st', ev) \<Rightarrow>
     typed_handler h \<and> typed_frames frames \<and> list_all valid_name (registry_names B (registry st')))"

lemma apply_typed_phase:
  assumes "system_typed B s" and "i < length (tasks s)" and "typed_phase B p"
  shows "system_typed B (apply_phase i p s)"
proof -
  obtain h frames st' ev where p: "p = (h, frames, st', ev)" by (cases p)
  have fin: "registry (end_task res st') = registry st'" for res by (simp add: end_task_def split: sum.splits)
  let ?y = "case h of Returned res \<Rightarrow> Ended | AwaitPeer n t c info \<Rightarrow> Waits n t c info"
  have "task_typed ?y" using assms(3) by (cases h) (simp_all add: typed_phase_def p)
  then have "list_all task_typed ((tasks s)[i := ?y])"
    using assms(1) set_update_subset_insert [of "tasks s" i ?y] by (auto simp: system_typed_def list_all_iff)
  then show ?thesis
    using assms by (cases h) (auto simp: system_typed_def typed_phase_def typed_frames_def apply_phase_def p fin list_all_iff)
qed

context uuid_codec
begin

lemma frame_typed: "typed_frames [frame U resp]"
  using frame_length [of resp] frame_status [of resp] by (simp add: typed_frames_def sizes)

lemma write_typed:
  assumes "write_response U resp written st ev rest = Some p"
    and "\<And>h st'. rest st = (h, st') \<Longrightarrow> typed_handler h \<and> registry st' = registry st"
    and "list_all valid_name (registry_names B (registry st))"
  shows "typed_phase B p"
proof (cases written)
  case (Inl e)
  with assms frame_typed show ?thesis by (auto simp: write_response_eq typed_phase_def)
next
  case (Inr u)
  obtain h st' where "rest st = (h, st')" by (cases "rest st")
  with Inr assms frame_typed show ?thesis by (auto simp: write_response_eq typed_phase_def)
qed

end

locale typed_server = registry_backend B view clock deadline + u: uuid_codec U
  for B :: "('p, 't, 'w, 'r) registry_env" and view clock deadline U
begin

lemma request_typed:
  assumes "handle_request U B addr reading written sp st = Some p"
    and ok: "list_all valid_name (registry_names B (registry st))"
  shows "typed_phase B p"
proof (cases rule: u.request_cases [of B addr reading written sp st])
  case refused
  with assms u.frame_typed show ?thesis
    by (cases written) (auto simp: typed_phase_def return_ok_def)
next
  case (registered buf info req)
  have name: "valid_name (pairing_name req)"
    using decoded_name [OF registered(3)] by (simp add: valid_name_def)
  obtain x reg' ev where r: "registry_register B (pairing_name req) info (request_token req) sp (registry st) = (x, reg', ev)"
    by (cases "registry_register B (pairing_name req) info (request_token req) sp (registry st)")
  have "list_all valid_name (registry_names B reg')"
    using registry_register_names [OF r] ok name by (auto simp: list_all_iff)
  then have w: "write_response U resp written (st\<lparr>registry := reg'\<rparr>) ev rest = Some p \<Longrightarrow>
      (\<And>h st'. rest (st\<lparr>registry := reg'\<rparr>) = (h, st') \<Longrightarrow> typed_handler h \<and> registry st' = reg') \<Longrightarrow> typed_phase B p" for resp rest
    using u.write_typed [of resp written "st\<lparr>registry := reg'\<rparr>" ev rest p B] by simp
  have "handle_registration U B info req written sp st = Some p" using assms(1) registered(4) by simp
  then show ?thesis
    unfolding handle_registration_def r
    by (auto simp: Let_def name return_ok_def split: sum.splits registration_result.splits intro!: w)
qed (use assms in \<open>auto simp: typed_phase_def typed_frames_def\<close>)

lemma wait_typed:
  assumes "handle_wait U B n t info waited written st = Some p"
    and ok: "list_all valid_name (registry_names B (registry st))"
  shows "typed_phase B p"
proof (cases waited)
  case WaitTimeout
  obtain x reg' ev where r: "registry_unregister B n t (registry st) = (x, reg', ev)"
    by (cases "registry_unregister B n t (registry st)")
  have "list_all valid_name (registry_names B reg')"
    using registry_unregister_names [OF r] ok by (auto simp: list_all_iff)
  with assms(1) show ?thesis
    by (auto simp: handle_wait_def WaitTimeout r return_ok_def intro!: u.write_typed)
qed (use assms in \<open>auto simp: handle_wait_def return_ok_def intro!: u.write_typed\<close>)

lemma step_typed:
  assumes step: "server_step recv U B view s s'" and ok: "system_typed B s"
  shows "system_typed B s'"
  using step
proof cases
  case (accept e)
  then show ?thesis
    using ok by (auto simp: accept_step_def system_typed_def list_all_iff split: accept_event.splits if_splits)
next
  case (start i addr)
  then show ?thesis
    using ok set_update_subset_insert [of "tasks s" i "Reading addr"]
    by (auto simp: start_task_def system_typed_def list_all_iff)
next
  case (request i addr sp reading written p)
  have "typed_phase B p"
    by (rule request_typed [OF request(6)]) (use ok in \<open>simp add: system_typed_def\<close>)
  then show ?thesis
    unfolding request(1) by (rule apply_typed_phase [rotated 2]) (use ok request in \<open>simp_all add: system_typed_def\<close>)
next
  case (wake i n t c info d waited written p)
  have "typed_phase B p" by (rule wait_typed [OF wake(5)]) (use ok in \<open>simp add: system_typed_def\<close>)
  with apply_typed_phase [OF ok wake(2)] show ?thesis by (simp add: wake(1))
next
  case (timer i n t c info)
  then have "task_typed (Waits n t c info)" using ok by (auto simp: system_typed_def list_all_length)
  then show ?thesis
    using ok timer set_update_subset_insert [of "tasks s" i "TimedOut n t info"]
    by (auto simp: system_typed_def list_all_iff)
next
  case (expire i n t info written p)
  have "typed_phase B p" by (rule wait_typed [OF expire(4)]) (use ok in \<open>simp add: system_typed_def\<close>)
  with apply_typed_phase [OF ok expire(2)] show ?thesis by (simp add: expire(1))
next
  case (sweep now reg' ev)
  then show ?thesis
    using ok registry_sweep_names [OF sweep(2)] by (auto simp: system_typed_def list_all_iff)
qed

lemma steps_typed:
  assumes "(server_step recv U B view)\<^sup>*\<^sup>* s s'" and "system_typed B s"
  shows "system_typed B s'"
  using assms by (induction rule: rtranclp_induct) (auto intro: step_typed)

end

interpretation ref_typed: typed_server ref_registry_env ref_view now_secs ref_deadline hyphenated_ops
  by unfold_locales

subsection \<open>Properties\<close>

text \<open>
  Claim C10. Whatever bytes the clients send and however the connections, timers and sweeps
  interleave, with either backend, every name held by a waiting handler or by the registry (as a
  key, or behind a token) is non-empty, valid UTF-8, free of NUL bytes and at most 100 bytes
  long, and everything handed to a socket is one response of 50 bytes with a known status, on a
  connection that was accepted.
\<close>

theorem server_state_well_typed:
  assumes "registry_backend B view clock deadline" and "uuid_codec U"
    and "list_all valid_name (registry_names B reg)"
    and "(server_step recv U B view)\<^sup>*\<^sup>* (system_new cfg reg) s"
  shows "system_typed B s"
proof (rule typed_server.steps_typed [OF _ assms(4)])
  show "typed_server B view clock deadline U" using assms(1,2) by (simp add: typed_server_def)
  show "system_typed B (system_new cfg reg)" using assms(3) by (simp add: system_typed_def system_new_def)
qed

theorem server_state_well_typed_witness:
  "\<exists>s. demo_step\<^sup>*\<^sup>* demo_start s \<and> Waits demo_name 1 0 (demo_peer 1) \<in> set (tasks s) \<and>
     system_typed ref_registry_env s \<and> valid_name demo_name"
proof -
  let ?reg = "InMemory (mem_new (mem ref_registry_env) demo_config)"
  have "m \<notin> set (registry_names ref_registry_env ?reg)" for m
    unfolding ref_registry.mem_names_iff using demo0_facts by (simp add: demo0_def)
  then have "list_all valid_name (registry_names ref_registry_env ?reg)" unfolding list_all_iff by blast
  note typed = server_state_well_typed [OF ref_registry.registry_backend_axioms hyphenated.uuid_codec_axioms this]
  obtain s where s: "demo_step\<^sup>*\<^sup>* demo_start s" "tasks s = [Waits demo_name 1 0 (demo_peer 1), Reading (demo_addr 2)]"
    using demo_run by blast
  from typed [OF s(1)] s show ?thesis by (auto simp: system_typed_def)
qed

end
