(* ===== verification/Mem_Steps.thy ===== *)
theory Mem_Steps
  imports In_Memory
begin

text \<open>
  The calls on the in-memory registry cut into steps. \<open>register\<close>, \<open>unregister\<close> and
  \<open>cleanup_expired\<close> take \<open>&self\<close> and run on several worker threads at once; only each single
  \<open>DashMap\<close> call in them is atomic. Every call is a program counter with the locals that
  matter, and one function that performs the next statement. The lemmas show that a call that
  runs without interruption does what the operation of \<open>In_Memory\<close> does.
\<close>

subsection \<open>Steps of one call\<close>

text \<open>Which shard a key belongs to is decided by the crate's hash function.\<close>

record shards =
  shard_count :: nat
  pairing_shard :: "rust_string \<Rightarrow> nat"
  token_shard :: "uuid \<Rightarrow> nat"

text \<open>The statement of \<open>register\<close> that runs next, with the locals that matter to it.\<close>

datatype register_pc =
    RGet \<comment> \<open>\<open>tokens.get(&token)\<close>, if there is a token\<close>
  | RGetMut uuid \<comment> \<open>\<open>pairings.get_mut(pairing_name)\<close>, with \<open>stored_name\<close> borrowed\<close>
  | RRemove \<comment> \<open>\<open>pairings.remove(pairing_name)\<close>\<close>
  | RNotify pairing_entry \<comment> \<open>\<open>tx.send(client_info)\<close>\<close>
  | RForget pairing_entry \<comment> \<open>\<open>tokens.remove(&peer_token)\<close>\<close>
  | RInsert \<comment> \<open>\<open>pairings.insert(..)\<close>, the channel is made\<close>
  | RIssue \<comment> \<open>\<open>tokens.insert(..)\<close>\<close>
  | RDone registration_result

datatype unregister_pc =
    URemove
  | UForget pairing_entry
  | UDone

text \<open>The sweep: the shard it is about to lock or has locked, the keys it has yet to visit there, \<open>cleaned\<close>.\<close>

datatype cleanup_pc =
    SShard nat nat
  | SVisit nat "rust_string list" nat
  | SForget nat rust_string pairing_entry "rust_string list" nat
  | SErase nat rust_string "rust_string list" nat
  | SDone nat

datatype thread =
    Registering rust_string peer_connection_data "uuid option" runtime register_pc
  | Unregistering rust_string uuid unregister_pc
  | Sweeping instant cleanup_pc

definition replaced :: "pairing_entry option \<Rightarrow> reg_event list" where
  "replaced old = (case old of None \<Rightarrow> [] | Some entry \<Rightarrow> drop_tx (notify_tx entry))"

fun register_step ::
    "('p, 't) mem_env \<Rightarrow> rust_string \<Rightarrow> peer_connection_data \<Rightarrow> uuid option \<Rightarrow> runtime
     \<Rightarrow> register_pc \<Rightarrow> ('p, 't) in_memory_registry
     \<Rightarrow> register_pc \<times> ('p, 't) in_memory_registry \<times> reg_event list" where
  "register_step E n i rtok sp RGet reg =
     (case rtok of
        None \<Rightarrow> (RRemove, reg, [])
      | Some token \<Rightarrow>
          (if dm_get (tokens_map E) token (tokens reg) = Some n then RGetMut token else RRemove, reg, []))"
| "register_step E n i rtok sp (RGetMut token) reg =
     (case dm_get (pairings_map E) n (pairings reg) of
        None \<Rightarrow> (RRemove, reg, [])
      | Some entry \<Rightarrow>
          (if entry_token entry = token
           then (RDone (RResumed token (new_chan sp)),
                 reg\<lparr>pairings := dm_alter (pairings_map E) n
                       (\<lambda>e. e\<lparr>waiting_client := (waiting_client e)\<lparr>connection_info := i\<rparr>,
                              notify_tx := Some (new_chan sp)\<rparr>) (pairings reg)\<rparr>,
                 drop_tx (notify_tx entry))
           else (RRemove, reg, [])))"
| "register_step E n i rtok sp RRemove reg =
     (case dm_remove (pairings_map E) n (pairings reg) of
        (Some (_, entry), ps) \<Rightarrow> (RNotify entry, reg\<lparr>pairings := ps\<rparr>, [])
      | (None, ps) \<Rightarrow> (RInsert, reg\<lparr>pairings := ps\<rparr>, []))"
| "register_step E n i rtok sp (RNotify entry) reg =
     (RForget entry, reg, send_tx (notify_tx entry) i)"
| "register_step E n i rtok sp (RForget entry) reg =
     (RDone (RPaired (new_v4 sp) (connection_info (waiting_client entry))),
      reg\<lparr>tokens := snd (dm_remove (tokens_map E) (entry_token entry) (tokens reg))\<rparr>, [])"
| "register_step E n i rtok sp RInsert reg =
     (RIssue,
      reg\<lparr>pairings := dm_insert (pairings_map E) n
            \<lparr>waiting_client =
               \<lparr>connection_info = i, reconnect_token = new_v4 sp,
                client_server_id = server_id (mem_config reg), registered_at = utc_now sp\<rparr>,
             notify_tx = Some (new_chan sp), created_at = instant_now sp\<rparr> (pairings reg)\<rparr>,
      replaced (dm_get (pairings_map E) n (pairings reg)))"
| "register_step E n i rtok sp RIssue reg =
     (RDone (RWaiting (new_v4 sp) (new_chan sp)),
      reg\<lparr>tokens := dm_insert (tokens_map E) (new_v4 sp) n (tokens reg)\<rparr>, [])"
| "register_step E n i rtok sp (RDone r) reg = (RDone r, reg, [])"

fun unregister_step ::
    "('p, 't) mem_env \<Rightarrow> rust_string \<Rightarrow> uuid \<Rightarrow> unregister_pc \<Rightarrow> ('p, 't) in_memory_registry
     \<Rightarrow> unregister_pc \<times> ('p, 't) in_memory_registry \<times> reg_event list" where
  "unregister_step E n token URemove reg =
     (case dm_remove (pairings_map E) n (pairings reg) of
        (Some (_, entry), ps) \<Rightarrow>
          (if entry_token entry = token then (UForget entry, reg\<lparr>pairings := ps\<rparr>, [])
           else (UDone, reg\<lparr>pairings := ps\<rparr>, drop_tx (notify_tx entry)))
      | (None, ps) \<Rightarrow> (UDone, reg\<lparr>pairings := ps\<rparr>, []))"
| "unregister_step E n token (UForget entry) reg =
     (UDone, reg\<lparr>tokens := snd (dm_remove (tokens_map E) token (tokens reg))\<rparr>,
      drop_tx (notify_tx entry))"
| "unregister_step E n token UDone reg = (UDone, reg, [])"

definition shard_names ::
    "('p, 't) mem_env \<Rightarrow> shards \<Rightarrow> nat \<Rightarrow> ('p, 't) in_memory_registry \<Rightarrow> rust_string list" where
  "shard_names E S k reg =
     filter (\<lambda>n. pairing_shard S n = k) (map fst (dm_iter (pairings_map E) (pairings reg)))"

fun cleanup_step ::
    "('p, 't) mem_env \<Rightarrow> shards \<Rightarrow> instant \<Rightarrow> cleanup_pc \<Rightarrow> ('p, 't) in_memory_registry
     \<Rightarrow> cleanup_pc \<times> ('p, 't) in_memory_registry \<times> reg_event list" where
  "cleanup_step E S now (SShard k cleaned) reg =
     (if k < shard_count S then SVisit k (shard_names E S k reg) cleaned else SDone cleaned, reg, [])"
| "cleanup_step E S now (SVisit k [] cleaned) reg = (SShard (Suc k) cleaned, reg, [])"
| "cleanup_step E S now (SVisit k (n # ns) cleaned) reg =
     (case dm_get (pairings_map E) n (pairings reg) of
        None \<Rightarrow> (SVisit k ns cleaned, reg, [])
      | Some entry \<Rightarrow>
          (if duration_since now (created_at entry) > pairing_timeout (mem_config reg)
           then SForget k n entry ns cleaned else SVisit k ns cleaned, reg, []))"
| "cleanup_step E S now (SForget k n entry ns cleaned) reg =
     (SErase k n ns (cleaned + 1),
      reg\<lparr>tokens := snd (dm_remove (tokens_map E) (entry_token entry) (tokens reg))\<rparr>, [])"
| "cleanup_step E S now (SErase k n ns cleaned) reg =
     (case dm_remove (pairings_map E) n (pairings reg) of
        (old, ps) \<Rightarrow> (SVisit k ns cleaned, reg\<lparr>pairings := ps\<rparr>, replaced (map_option snd old)))"
| "cleanup_step E S now (SDone cleaned) reg = (SDone cleaned, reg, [])"

fun thread_step ::
    "('p, 't) mem_env \<Rightarrow> shards \<Rightarrow> thread \<Rightarrow> ('p, 't) in_memory_registry
     \<Rightarrow> thread \<times> ('p, 't) in_memory_registry \<times> reg_event list" where
  "thread_step E S (Registering n i rtok sp pc) reg =
     map_prod (Registering n i rtok sp) id (register_step E n i rtok sp pc reg)"
| "thread_step E S (Unregistering n token pc) reg =
     map_prod (Unregistering n token) id (unregister_step E n token pc reg)"
| "thread_step E S (Sweeping now pc) reg =
     map_prod (Sweeping now) id (cleanup_step E S now pc reg)"

lemma thread_step_cases [consumes 1, case_names Register Unregister Sweep]:
  assumes "thread_step E S th reg = (th', reg', ev)"
  obtains (Register) n i rtok sp pc pc' where "th = Registering n i rtok sp pc" "th' = Registering n i rtok sp pc'"
      "register_step E n i rtok sp pc reg = (pc', reg', ev)"
  | (Unregister) n t pc pc' where "th = Unregistering n t pc" "th' = Unregistering n t pc'"
      "unregister_step E n t pc reg = (pc', reg', ev)"
  | (Sweep) now pc pc' where "th = Sweeping now pc" "th' = Sweeping now pc'"
      "cleanup_step E S now pc reg = (pc', reg', ev)"
  using assms by (cases th) (auto simp: map_prod_def split: prod.splits)

fun finished :: "thread \<Rightarrow> bool" where
  "finished (Registering n i rtok sp pc) \<longleftrightarrow> (case pc of RDone r \<Rightarrow> True | _ \<Rightarrow> False)"
| "finished (Unregistering n token pc) \<longleftrightarrow> (case pc of UDone \<Rightarrow> True | _ \<Rightarrow> False)"
| "finished (Sweeping now pc) \<longleftrightarrow> (case pc of SDone k \<Rightarrow> True | _ \<Rightarrow> False)"

text \<open>A call that nobody interrupts.\<close>

fun run_alone ::
    "('p, 't) mem_env \<Rightarrow> shards \<Rightarrow> nat \<Rightarrow> thread \<Rightarrow> ('p, 't) in_memory_registry
     \<Rightarrow> thread \<times> ('p, 't) in_memory_registry \<times> reg_event list" where
  "run_alone E S 0 th reg = (th, reg, [])"
| "run_alone E S (Suc k) th reg =
     (let (th', reg', ev) = thread_step E S th reg;
          (th'', reg'', ev') = run_alone E S k th' reg'
      in (th'', reg'', ev @ ev'))"

lemma run_alone_finished: "finished th \<Longrightarrow> run_alone E S k th reg = (th, reg, [])"
proof (induction k)
  case (Suc k)
  then have "thread_step E S th reg = (th, reg, [])"
    by (cases th) (auto split: register_pc.splits unregister_pc.splits cleanup_pc.splits)
  with Suc show ?case by simp
qed simp

context mem_backend
begin

text \<open>From \<open>pairings.remove\<close> on, \<open>register\<close> pairs or waits.\<close>

lemma run_from_remove:
  assumes "mem_reconnect_entry E reg n rtok = None"
  shows "run_alone E S (Suc (Suc (Suc k))) (Registering n i rtok sp RRemove) reg =
     map_prod (\<lambda>r. Registering n i rtok sp (RDone (projr r))) id (mem_register E n i rtok sp reg)"
proof -
  obtain ps where rm: "dm_remove (pairings_map E) n (pairings reg) = (map_option (Pair n) (mem_entry E reg n), ps)"
    and ps: "snd (dm_remove (pairings_map E) n (pairings reg)) = ps"
    by (rule remove_obtain)
  have "dm_get (pairings_map E) n ps = None"
    unfolding ps [symmetric] by (simp add: p.get_remove)
  with assms(1) rm show ?thesis
    by (cases "mem_entry E reg n") (simp_all add: mem_register_def run_alone_finished replaced_def Let_def)
qed

lemma run_register:
  "run_alone E S 5 (Registering n i rtok sp RGet) reg =
     map_prod (\<lambda>r. Registering n i rtok sp (RDone (projr r))) id (mem_register E n i rtok sp reg)"
proof (cases "mem_reconnect_entry E reg n rtok")
  case (Some te)
  then obtain e where "rtok = Some (entry_token e)" "te = (entry_token e, e)"
    "dm_get (tokens_map E) (entry_token e) (tokens reg) = Some n"
    "dm_get (pairings_map E) n (pairings reg) = Some e"
    by (auto simp: mem_reconnect_entry_def split: bind_splits if_splits)
  with Some show ?thesis
    by (simp add: mem_register_def run_alone_finished eval_nat_numeral)
next
  case None
  note tail = run_from_remove [OF None, of S]
  show ?thesis
  proof (cases rtok)
    case None': None
    then show ?thesis using tail [of 1] by (simp add: eval_nat_numeral split: prod.splits)
  next
    case (Some t)
    show ?thesis
    proof (cases "dm_get (tokens_map E) t (tokens reg) = Some n")
      case True
      then have "thread_step E S (Registering n i rtok sp (RGetMut t)) reg = (Registering n i rtok sp RRemove, reg, [])"
        using None Some by (auto simp: mem_reconnect_entry_def split: option.splits if_splits)
      with True Some show ?thesis using tail [of 0] by (simp add: eval_nat_numeral split: prod.splits)
    next
      case False
      with Some show ?thesis using tail [of 1] by (simp add: eval_nat_numeral split: prod.splits)
    qed
  qed
qed

lemma run_unregister:
  "run_alone E S 2 (Unregistering n t URemove) reg =
     map_prod (\<lambda>r. Unregistering n t UDone) id (mem_unregister E n t reg)"
  by (cases rule: remove_obtain [of n reg], cases "mem_entry E reg n")
    (simp_all add: eval_nat_numeral mem_unregister_def)

end

text \<open>What a sweep has done once it has visited the names of a set.\<close>

definition overdue ::
    "('p, 't) mem_env \<Rightarrow> instant \<Rightarrow> rust_string set \<Rightarrow> ('p, 't) in_memory_registry
     \<Rightarrow> rust_string \<Rightarrow> pairing_entry \<Rightarrow> bool" where
  "overdue E now N reg n e \<longleftrightarrow>
     n \<in> N \<and> mem_entry E reg n = Some e \<and> expired (pairing_timeout (mem_config reg)) now e"

definition swept ::
    "('p, 't) mem_env \<Rightarrow> instant \<Rightarrow> rust_string set \<Rightarrow> ('p, 't) in_memory_registry
     \<Rightarrow> ('p, 't) in_memory_registry \<Rightarrow> nat \<Rightarrow> reg_event list \<Rightarrow> bool" where
  "swept E now N reg reg' cleaned ev \<longleftrightarrow>
     mem_config reg' = mem_config reg \<and>
     (\<forall>n. mem_entry E reg' n = (if \<exists>e. overdue E now N reg n e then None else mem_entry E reg n)) \<and>
     (\<forall>t. mem_token E reg' t =
        (if \<exists>n e. overdue E now N reg n e \<and> entry_token e = t then None else mem_token E reg t)) \<and>
     cleaned = card {n. \<exists>e. overdue E now N reg n e} \<and>
     set ev = {ChanDrop c | n e c. overdue E now N reg n e \<and> notify_tx e = Some c}"

lemma sweptD:
  assumes "swept E now N reg reg' cleaned ev"
  shows "mem_config reg' = mem_config reg"
    and "mem_entry E reg' n = (if \<exists>e. overdue E now N reg n e then None else mem_entry E reg n)"
    and "mem_token E reg' t =
        (if \<exists>n e. overdue E now N reg n e \<and> entry_token e = t then None else mem_token E reg t)"
    and "cleaned = card {n. \<exists>e. overdue E now N reg n e}"
    and "set ev = {ChanDrop c | n e c. overdue E now N reg n e \<and> notify_tx e = Some c}"
  using assms unfolding swept_def by auto

context mem_backend
begin

lemma finite_overdue: "finite {n. \<exists>e. overdue E now N reg n e}"
proof (rule finite_subset)
  show "{n. \<exists>e. overdue E now N reg n e} \<subseteq> {n. dm_get (pairings_map E) n (pairings reg) \<noteq> None}"
    by (auto simp: overdue_def mem_entry_def)
qed (rule p.finite_keys)

lemma swept_empty: "swept E now {} reg reg 0 []"
  by (simp add: swept_def overdue_def)

lemma swept_trans:
  assumes A: "swept E now N reg ra a ea" and B: "swept E now M ra rb b eb" and dis: "N \<inter> M = {}"
  shows "swept E now (N \<union> M) reg rb (a + b) (ea @ eb)"
proof -
  have later: "overdue E now M ra n e \<longleftrightarrow> overdue E now M reg n e" for n e
    using dis sweptD(1,2) [OF A] by (auto simp: overdue_def)
  have union: "overdue E now (N \<union> M) reg n e \<longleftrightarrow> overdue E now N reg n e \<or> overdue E now M reg n e" for n e
    by (auto simp: overdue_def)
  have "{n. \<exists>e. overdue E now (N \<union> M) reg n e} = {n. \<exists>e. overdue E now N reg n e} \<union> {n. \<exists>e. overdue E now M reg n e}"
    unfolding union by blast
  moreover have "{n. \<exists>e. overdue E now N reg n e} \<inter> {n. \<exists>e. overdue E now M reg n e} = {}"
    using dis by (auto simp: overdue_def)
  ultimately have "card {n. \<exists>e. overdue E now (N \<union> M) reg n e} = a + b"
    unfolding sweptD(4) [OF A] sweptD(4) [OF B] later by (simp add: card_Un_disjoint finite_overdue)
  moreover have "mem_entry E rb n = (if \<exists>e. overdue E now (N \<union> M) reg n e then None else mem_entry E reg n)" for n
    unfolding sweptD(2) [OF B] sweptD(2) [OF A] later union by auto
  moreover have "mem_token E rb t =
      (if \<exists>n e. overdue E now (N \<union> M) reg n e \<and> entry_token e = t then None else mem_token E reg t)" for t
    unfolding sweptD(3) [OF B] sweptD(3) [OF A] later union by auto
  moreover have "set (ea @ eb) = {ChanDrop c | n e c. overdue E now (N \<union> M) reg n e \<and> notify_tx e = Some c}"
    unfolding set_append sweptD(5) [OF B] sweptD(5) [OF A] later union by blast
  ultimately show ?thesis
    using sweptD(1) [OF A] sweptD(1) [OF B] by (simp add: swept_def)
qed

lemma run_alone_append:
  assumes "run_alone E S j th reg = (th', reg', ev)" and "run_alone E S k th' reg' = (th'', reg'', ev')"
  shows "run_alone E S (j + k) th reg = (th'', reg'', ev @ ev')"
  using assms by (induction j arbitrary: th reg ev) (auto split: prod.splits)

text \<open>One entry is visited: kept, or removed with its token.\<close>

lemma run_visit_entry:
  "\<exists>k reg' cleaned ev. run_alone E S k (Sweeping now (SVisit s (n # ns) c)) reg
       = (Sweeping now (SVisit s ns (c + cleaned)), reg', ev) \<and> swept E now {n} reg reg' cleaned ev"
proof (cases "\<exists>e. overdue E now {n} reg n e")
  case True
  then obtain e where e: "mem_entry E reg n = Some e" "expired (pairing_timeout (mem_config reg)) now e"
    by (auto simp: overdue_def)
  have only: "overdue E now {n} reg m e' \<longleftrightarrow> m = n \<and> e' = e" for m e'
    using e by (auto simp: overdue_def)
  let ?reg = "reg\<lparr>tokens := snd (dm_remove (tokens_map E) (entry_token e) (tokens reg)),
                  pairings := snd (dm_remove (pairings_map E) n (pairings reg))\<rparr>"
  have "run_alone E S (Suc (Suc (Suc 0))) (Sweeping now (SVisit s (n # ns) c)) reg =
      (Sweeping now (SVisit s ns (c + 1)), ?reg, drop_tx (notify_tx e))"
    using e by (cases rule: remove_obtain [of n reg])
      (simp add: mem_entry_def expired_def replaced_def)
  moreover have "swept E now {n} reg ?reg 1 (drop_tx (notify_tx e))"
    unfolding swept_def only by (auto simp: map_laws drop_tx_def split: option.splits)
  ultimately show ?thesis by blast
next
  case False
  then have "run_alone E S 1 (Sweeping now (SVisit s (n # ns) c)) reg = (Sweeping now (SVisit s ns (c + 0)), reg, [])"
    by (auto simp: overdue_def mem_entry_def expired_def split: option.splits)
  moreover have "\<not> overdue E now {n} reg m e" for m e
    using False by (auto simp: overdue_def)
  then have "swept E now {n} reg reg 0 []" by (simp add: swept_def)
  ultimately show ?thesis by blast
qed

lemma run_visit:
  assumes "distinct ns"
  shows "\<exists>k reg' cleaned ev. run_alone E S k (Sweeping now (SVisit s ns c)) reg
       = (Sweeping now (SVisit s [] (c + cleaned)), reg', ev) \<and> swept E now (set ns) reg reg' cleaned ev"
  using assms
proof (induction ns arbitrary: c reg)
  case Nil
  have "run_alone E S 0 (Sweeping now (SVisit s [] c)) reg = (Sweeping now (SVisit s [] (c + 0)), reg, [])"
    by simp
  then show ?case using swept_empty by (metis list.set(1))
next
  case (Cons n ns)
  obtain k ra a ea where A: "run_alone E S k (Sweeping now (SVisit s (n # ns) c)) reg
       = (Sweeping now (SVisit s ns (c + a)), ra, ea)" "swept E now {n} reg ra a ea"
    using run_visit_entry by blast
  obtain k' rb b eb where B: "run_alone E S k' (Sweeping now (SVisit s ns (c + a))) ra
       = (Sweeping now (SVisit s [] (c + a + b)), rb, eb)" "swept E now (set ns) ra rb b eb"
    using Cons by (metis distinct.simps(2))
  have "swept E now (set (n # ns)) reg rb (a + b) (ea @ eb)"
    using swept_trans [OF A(2) B(2)] Cons.prems by simp
  with run_alone_append [OF A(1) B(1)] show ?case by (metis add.assoc)
qed

lemma swept_present:
  "(\<And>n. mem_entry E reg n \<noteq> None \<Longrightarrow> n \<in> N \<longleftrightarrow> n \<in> M) \<Longrightarrow> swept E now N reg = swept E now M reg"
proof -
  assume "\<And>n. mem_entry E reg n \<noteq> None \<Longrightarrow> n \<in> N \<longleftrightarrow> n \<in> M"
  then have "overdue E now N reg = overdue E now M reg"
    by (auto simp: overdue_def fun_eq_iff)
  then show ?thesis by (simp add: swept_def fun_eq_iff)
qed

lemma shard_names_iff: "n \<in> set (shard_names E S k reg) \<longleftrightarrow> pairing_shard S n = k \<and> mem_entry E reg n \<noteq> None"
  using p.keys_iter [of "pairings reg"] by (auto simp: shard_names_def mem_entry_def)

lemma shard_names_distinct: "distinct (shard_names E S k reg)"
  by (simp add: shard_names_def p.iter_distinct)

lemma run_shards:
  "k \<le> shard_count S \<Longrightarrow>
   \<exists>j reg' cleaned ev. run_alone E S j (Sweeping now (SShard k c)) reg
       = (Sweeping now (SShard (shard_count S) (c + cleaned)), reg', ev)
     \<and> swept E now {n. k \<le> pairing_shard S n \<and> pairing_shard S n < shard_count S} reg reg' cleaned ev"
proof (induction "shard_count S - k" arbitrary: k c reg)
  case 0
  then have k: "k = shard_count S" by simp
  have "run_alone E S 0 (Sweeping now (SShard k c)) reg = (Sweeping now (SShard (shard_count S) (c + 0)), reg, [])"
    by (simp add: k)
  moreover have "{n. k \<le> pairing_shard S n \<and> pairing_shard S n < shard_count S} = {}" by (auto simp: k)
  ultimately show ?case using swept_empty by metis
next
  case (Suc d)
  then have k: "k < shard_count S" by simp
  let ?ns = "shard_names E S k reg" and ?rest = "{n. Suc k \<le> pairing_shard S n \<and> pairing_shard S n < shard_count S}"
  obtain j ra a ea where A: "run_alone E S j (Sweeping now (SVisit k ?ns c)) reg
       = (Sweeping now (SVisit k [] (c + a)), ra, ea)" "swept E now (set ?ns) reg ra a ea"
    using run_visit [OF shard_names_distinct] by blast
  obtain l rb b eb where B: "run_alone E S l (Sweeping now (SShard (Suc k) (c + a))) ra
       = (Sweeping now (SShard (shard_count S) (c + a + b)), rb, eb)" "swept E now ?rest ra rb b eb"
  proof -
    have "d = shard_count S - Suc k" "Suc k \<le> shard_count S" using Suc.hyps(2) k by simp_all
    from Suc.hyps(1) [OF this] show ?thesis using that by blast
  qed
  have lock: "run_alone E S 1 (Sweeping now (SShard k c)) reg = (Sweeping now (SVisit k ?ns c), reg, [])"
    and unlock: "run_alone E S 1 (Sweeping now (SVisit k [] (c + a))) ra = (Sweeping now (SShard (Suc k) (c + a)), ra, [])"
    using k by simp_all
  have "swept E now (set ?ns \<union> ?rest) reg rb (a + b) (ea @ eb)"
    by (rule swept_trans [OF A(2) B(2)]) (auto simp: shard_names_iff)
  also have "swept E now (set ?ns \<union> ?rest) reg =
      swept E now {n. k \<le> pairing_shard S n \<and> pairing_shard S n < shard_count S} reg"
    using k by (intro swept_present) (auto simp: shard_names_iff)
  finally have "swept E now {n. k \<le> pairing_shard S n \<and> pairing_shard S n < shard_count S} reg rb (a + b) (ea @ eb)" .
  with run_alone_append [OF lock run_alone_append [OF A(1) run_alone_append [OF unlock B(1)]]]
  show ?case unfolding append_Nil add.assoc by blast
qed

lemma cleanup_swept:
  assumes "mem_cleanup_expired E now reg = (cleaned, reg', ev)"
  shows "swept E now UNIV reg reg' cleaned ev"
proof -
  note maps = cleanup_maps [OF assms]
  let ?es = "filter (\<lambda>(n, e). expired (pairing_timeout (mem_config reg)) now e) (dm_iter (pairings_map E) (pairings reg))"
  have es: "(n, e) \<in> set ?es \<longleftrightarrow> overdue E now UNIV reg n e" for n e
    by (auto simp: overdue_def mem_entry_def p.iter_iff)
  have "distinct (map fst ?es)" using p.iter_distinct distinct_map_filter by blast
  moreover have "fst ` set ?es = {n. \<exists>e. overdue E now UNIV reg n e}"
    unfolding es [symmetric] by (auto simp: fst_image_iff)
  ultimately have "cleaned = card {n. \<exists>e. overdue E now UNIV reg n e}"
    unfolding maps(3) by (rule distinct_keys_card)
  moreover have "set ev = {ChanDrop c | n e c. overdue E now UNIV reg n e \<and> notify_tx e = Some c}"
  proof -
    have "set ev = (\<Union>x\<in>set ?es. set (drop_tx (notify_tx (snd x))))"
      unfolding maps(4) by (simp add: case_prod_unfold)
    also have "\<dots> = {ChanDrop c | n e c. (n, e) \<in> set ?es \<and> notify_tx e = Some c}"
      by (auto simp: drop_tx_def split: option.splits) force+
    finally show ?thesis unfolding es .
  qed
  moreover have "mem_entry E reg' n = (if \<exists>e. overdue E now UNIV reg n e then None else mem_entry E reg n)" for n
    unfolding maps(1) overdue_def by (auto split: option.splits)
  moreover have "mem_token E reg' t =
      (if \<exists>n e. overdue E now UNIV reg n e \<and> entry_token e = t then None else mem_token E reg t)" for t
    unfolding maps(2) overdue_def by auto
  ultimately show ?thesis using maps(5) by (simp add: swept_def)
qed

lemma swept_unique:
  assumes "swept E now N reg ra a ea" and "swept E now N reg rb b eb"
  shows "mem_entry E ra = mem_entry E rb \<and> mem_token E ra = mem_token E rb \<and> a = b \<and> set ea = set eb"
  using sweptD [OF assms(1)] sweptD [OF assms(2)] by (simp add: fun_eq_iff)

lemma run_cleanup:
  assumes "\<And>n. pairing_shard S n < shard_count S"
  shows "\<exists>k reg' cleaned ev. run_alone E S k (Sweeping now (SShard 0 0)) reg = (Sweeping now (SDone cleaned), reg', ev)
     \<and> swept E now UNIV reg reg' cleaned ev"
proof -
  have all: "{n. 0 \<le> pairing_shard S n \<and> pairing_shard S n < shard_count S} = UNIV" using assms by simp
  obtain j ra a ea where A: "run_alone E S j (Sweeping now (SShard 0 0)) reg
      = (Sweeping now (SShard (shard_count S) (0 + a)), ra, ea)" "swept E now UNIV reg ra a ea"
    using run_shards [of 0 S now 0 reg] unfolding all by blast
  have "run_alone E S 1 (Sweeping now (SShard (shard_count S) (0 + a))) ra = (Sweeping now (SDone a), ra, [])"
    by simp
  from run_alone_append [OF A(1) this] A(2) show ?thesis by (metis append_Nil2)
qed

lemma register_Inr: "\<exists>r reg' ev. mem_register E n i rtok sp reg = (Inr r, reg', ev)"
  by (simp add: mem_register_def Let_def split: option.splits prod.splits)

end

subsection \<open>Uninterrupted calls\<close>

text \<open>
  A call that is not interrupted does what the operations on the whole registry do:
  \<open>register\<close> and \<open>unregister\<close> end in the same state with the same result and events, and the
  sweep, which visits the shards one after the other, removes the same entries and tokens,
  reports the same number and drops the same channels.
\<close>

theorem mem_calls_alone:
  assumes "mem_backend E" and "\<forall>n. pairing_shard S n < shard_count S"
  shows "(run_alone E S 5 (Registering n i rtok sp RGet) reg = (Registering n i rtok sp (RDone r), reg', ev)
       \<longleftrightarrow> mem_register E n i rtok sp reg = (Inr r, reg', ev))
    \<and> (run_alone E S 2 (Unregistering n t URemove) reg = (Unregistering n t UDone, reg', ev)
       \<longleftrightarrow> mem_unregister E n t reg = (Inr (), reg', ev))
    \<and> (mem_cleanup_expired E now reg = (k, reg', ev) \<longrightarrow>
        (\<exists>steps reg'' ev'. run_alone E S steps (Sweeping now (SShard 0 0)) reg = (Sweeping now (SDone k), reg'', ev')
          \<and> mem_entry E reg'' = mem_entry E reg' \<and> mem_token E reg'' = mem_token E reg' \<and> set ev' = set ev))"
proof (intro conjI impI)
  show "run_alone E S 5 (Registering n i rtok sp RGet) reg = (Registering n i rtok sp (RDone r), reg', ev)
       \<longleftrightarrow> mem_register E n i rtok sp reg = (Inr r, reg', ev)"
    using mem_backend.register_Inr [OF assms(1), of n i rtok sp reg]
    by (auto simp: mem_backend.run_register [OF assms(1)])
  show "run_alone E S 2 (Unregistering n t URemove) reg = (Unregistering n t UDone, reg', ev)
       \<longleftrightarrow> mem_unregister E n t reg = (Inr (), reg', ev)"
    by (cases "mem_unregister E n t reg")
      (auto simp: mem_backend.run_unregister [OF assms(1)] mem_unregister_def split: prod.splits option.splits)
next
  assume whole: "mem_cleanup_expired E now reg = (k, reg', ev)"
  obtain steps reg'' l ev' where run: "run_alone E S steps (Sweeping now (SShard 0 0)) reg = (Sweeping now (SDone l), reg'', ev')"
    and sw: "swept E now UNIV reg reg'' l ev'"
    using mem_backend.run_cleanup [OF assms(1)] assms(2) by metis
  from mem_backend.swept_unique [OF assms(1) sw mem_backend.cleanup_swept [OF assms(1) whole]] run
  show "\<exists>steps reg'' ev'. run_alone E S steps (Sweeping now (SShard 0 0)) reg = (Sweeping now (SDone k), reg'', ev')
      \<and> mem_entry E reg'' = mem_entry E reg' \<and> mem_token E reg'' = mem_token E reg' \<and> set ev' = set ev"
    by blast
qed

definition demo_shards :: shards where
  "demo_shards = \<lparr>shard_count = 4, pairing_shard = (\<lambda>n. length n mod 4), token_shard = (\<lambda>t. unat t mod 4)\<rparr>"

theorem mem_calls_alone_witness:
  "\<exists>reg' ev. run_alone alist_env demo_shards 5 (Registering demo_name (demo_peer 2) None (demo_runtime 2) RGet) demo1
     = (Registering demo_name (demo_peer 2) None (demo_runtime 2) (RDone (RPaired 2 (demo_peer 1))), reg', ev)"
proof -
  have shards: "\<forall>n. pairing_shard demo_shards n < shard_count demo_shards" by (simp add: demo_shards_def)
  have e: "mem_entry alist_env demo1 demo_name = Some demo_entry" by (simp add: demo1_facts)
  have "\<exists>reg' ev. mem_register alist_env demo_name (demo_peer 2) None (demo_runtime 2) demo1
      = (Inr (RPaired 2 (demo_peer 1)), reg', ev)"
    using alist_mem.register_pair [OF demo1_facts(1) e, of None "demo_peer 2" "demo_runtime 2"]
    by (simp add: demo_entry_def demo_runtime_def)
  with mem_calls_alone [OF alist_mem.mem_backend_axioms shards] show ?thesis by blast
qed

end
