(* ===== verification/Mem_Concurrent.thy ===== *)
theory Mem_Concurrent
  imports Mem_Steps "HOL-Library.Multiset"
begin

text \<open>
  The in-memory backend under concurrency: any number of calls, each advancing one statement at
  a time, in every order the locks of the two maps allow. A \<open>DashMap\<close> is an array of shards,
  each behind a readers-writer lock: \<open>get\<close> keeps a read guard and \<open>get_mut\<close> a write guard while
  the returned reference lives, and \<open>retain\<close> keeps the write guard of a shard while it visits
  the shard's entries. The lemmas say what survives every interleaving (a channel is used at
  most once, and who is introduced to whom) and what does not (two first clients can miss each
  other, and a reconnecting client and a sweep can block each other for good).
\<close>

subsection \<open>Guards\<close>

text \<open>The shards of the two maps are the locks; a guard is shared or exclusive.\<close>

datatype lock = PairingLock nat | TokenLock nat

datatype guard = ReadGuard lock | WriteGuard lock

fun guard_lock :: "guard \<Rightarrow> lock" where
  "guard_lock (ReadGuard l) = l"
| "guard_lock (WriteGuard l) = l"

fun excludes :: "guard option \<Rightarrow> guard option \<Rightarrow> bool" where
  "excludes (Some (ReadGuard l)) (Some (ReadGuard l')) \<longleftrightarrow> False"
| "excludes (Some g) (Some g') \<longleftrightarrow> guard_lock g = guard_lock g'"
| "excludes _ _ \<longleftrightarrow> False"

text \<open>The guard a call keeps between its steps, and the one its next step has to take.\<close>

fun holds :: "shards \<Rightarrow> thread \<Rightarrow> guard option" where
  "holds S (Registering n i rtok sp (RGetMut token)) = Some (ReadGuard (TokenLock (token_shard S token)))"
| "holds S (Sweeping now (SVisit k ns c)) = Some (WriteGuard (PairingLock k))"
| "holds S (Sweeping now (SForget k n e ns c)) = Some (WriteGuard (PairingLock k))"
| "holds S (Sweeping now (SErase k n ns c)) = Some (WriteGuard (PairingLock k))"
| "holds S _ = None"

fun wants :: "shards \<Rightarrow> thread \<Rightarrow> guard option" where
  "wants S (Registering n i rtok sp pc) =
     (case pc of
        RGet \<Rightarrow> map_option (\<lambda>token. ReadGuard (TokenLock (token_shard S token))) rtok
      | RGetMut token \<Rightarrow> Some (WriteGuard (PairingLock (pairing_shard S n)))
      | RRemove \<Rightarrow> Some (WriteGuard (PairingLock (pairing_shard S n)))
      | RNotify entry \<Rightarrow> None
      | RForget entry \<Rightarrow> Some (WriteGuard (TokenLock (token_shard S (entry_token entry))))
      | RInsert \<Rightarrow> Some (WriteGuard (PairingLock (pairing_shard S n)))
      | RIssue \<Rightarrow> Some (WriteGuard (TokenLock (token_shard S (new_v4 sp))))
      | RDone r \<Rightarrow> None)"
| "wants S (Unregistering n token pc) =
     (case pc of
        URemove \<Rightarrow> Some (WriteGuard (PairingLock (pairing_shard S n)))
      | UForget entry \<Rightarrow> Some (WriteGuard (TokenLock (token_shard S token)))
      | UDone \<Rightarrow> None)"
| "wants S (Sweeping now pc) =
     (case pc of
        SShard k c \<Rightarrow> if k < shard_count S then Some (WriteGuard (PairingLock k)) else None
      | SForget k n entry ns c \<Rightarrow> Some (WriteGuard (TokenLock (token_shard S (entry_token entry))))
      | _ \<Rightarrow> None)"

subsection \<open>Interleaved calls\<close>

record ('p, 't) mem_system =
  shared :: "('p, 't) in_memory_registry"
  threads :: "thread list"
  chan_log :: "reg_event list"

text \<open>The calls on the registry begin at their first statement.\<close>

fun begins :: "thread \<Rightarrow> bool" where
  "begins (Registering n i rtok sp pc) \<longleftrightarrow> pc = RGet"
| "begins (Unregistering n token pc) \<longleftrightarrow> pc = URemove"
| "begins (Sweeping now pc) \<longleftrightarrow> pc = SShard 0 0"

text \<open>The channels an entry, a call or the registry may still use.\<close>

definition entry_chans :: "pairing_entry option \<Rightarrow> chan multiset" where
  "entry_chans e = (case Option.bind e notify_tx of None \<Rightarrow> {#} | Some c \<Rightarrow> {#c#})"

definition map_chans :: "('p, 't) mem_env \<Rightarrow> ('p, 't) in_memory_registry \<Rightarrow> chan multiset" where
  "map_chans E reg = (\<Sum>(n, e)\<leftarrow>dm_iter (pairings_map E) (pairings reg). entry_chans (Some e))"

fun thread_chans :: "thread \<Rightarrow> chan multiset" where
  "thread_chans (Registering n i rtok sp pc) =
     (case pc of
        RNotify entry \<Rightarrow> entry_chans (Some entry)
      | RForget entry \<Rightarrow> {#}
      | RIssue \<Rightarrow> {#}
      | RDone r \<Rightarrow> {#}
      | _ \<Rightarrow> {#new_chan sp#})"
| "thread_chans (Unregistering n token pc) =
     (case pc of UForget entry \<Rightarrow> entry_chans (Some entry) | _ \<Rightarrow> {#})"
| "thread_chans (Sweeping now pc) = {#}"

definition event_chans :: "reg_event list \<Rightarrow> chan multiset" where
  "event_chans ev = mset (map event_chan ev)"

definition system_chans :: "('p, 't) mem_env \<Rightarrow> ('p, 't) mem_system \<Rightarrow> chan multiset" where
  "system_chans E st =
     map_chans E (shared st) + sum_list (map thread_chans (threads st)) + event_chans (chan_log st)"

definition runnable :: "shards \<Rightarrow> thread list \<Rightarrow> nat \<Rightarrow> bool" where
  "runnable S ts i \<longleftrightarrow> i < length ts \<and> \<not> finished (ts ! i) \<and>
     list_all (\<lambda>j. j \<noteq> i \<longrightarrow> \<not> excludes (holds S (ts ! j)) (wants S (ts ! i))) [0..<length ts]"

definition advance :: "('p, 't) mem_env \<Rightarrow> shards \<Rightarrow> nat \<Rightarrow> ('p, 't) mem_system \<Rightarrow> ('p, 't) mem_system" where
  "advance E S i st =
     (case thread_step E S (threads st ! i) (shared st) of
        (th, reg, ev) \<Rightarrow> \<lparr>shared = reg, threads = (threads st)[i := th], chan_log = chan_log st @ ev\<rparr>)"

text \<open>
  Any call that is not blocked may take its next step. A new call may begin at any time;
  \<open>oneshot::channel()\<close> gives it a channel nobody else has.
\<close>

inductive mem_advance ::
    "('p, 't) mem_env \<Rightarrow> shards \<Rightarrow> ('p, 't) mem_system \<Rightarrow> ('p, 't) mem_system \<Rightarrow> bool" for E S where
  advance: "runnable S (threads st) i \<Longrightarrow> mem_advance E S st (advance E S i st)"

inductive mem_run ::
    "('p, 't) mem_env \<Rightarrow> shards \<Rightarrow> ('p, 't) mem_system \<Rightarrow> ('p, 't) mem_system \<Rightarrow> bool" for E S st where
  start: "mem_run E S st st"
| step: "mem_run E S st st' \<Longrightarrow> mem_advance E S st' st'' \<Longrightarrow> mem_run E S st st''"
| call: "mem_run E S st st' \<Longrightarrow> begins th \<Longrightarrow> set_mset (thread_chans th) \<inter> set_mset (system_chans E st') = {} \<Longrightarrow>
    mem_run E S st (st'\<lparr>threads := threads st' @ [th]\<rparr>)"

inductive_cases mem_advanceE [elim!]: "mem_advance E S st st'"

definition mem_system_new :: "('p, 't) mem_env \<Rightarrow> registry_config \<Rightarrow> ('p, 't) mem_system" where
  "mem_system_new E config = \<lparr>shared = mem_new E config, threads = [], chan_log = []\<rparr>"

subsection \<open>Every channel is used at most once\<close>

lemma entry_chans_simps [simp]:
  "entry_chans None = {#}"
  "notify_tx e = None \<Longrightarrow> entry_chans (Some e) = {#}"
  "notify_tx e = Some c \<Longrightarrow> entry_chans (Some e) = {#c#}"
  by (simp_all add: entry_chans_def)

lemma event_chans_simps [simp]:
  "event_chans [] = {#}"
  "event_chans (ev @ ev') = event_chans ev + event_chans ev'"
  "event_chans (drop_tx (notify_tx e)) = entry_chans (Some e)"
  "event_chans (send_tx (notify_tx e) i) = entry_chans (Some e)"
  "event_chans (replaced x) = entry_chans x"
  by (auto simp: event_chans_def entry_chans_def drop_tx_def send_tx_def replaced_def split: option.splits)

lemma distinct_if_counts: "(\<And>x. count (mset xs) x \<le> 1) \<Longrightarrow> distinct xs"
proof (induction xs)
  case (Cons x xs)
  have "count (mset xs) y \<le> 1" for y
    using Cons.prems [of y] by (cases "x = y") (simp_all add: count_eq_zero_iff [THEN iffD2])
  moreover have "count (mset xs) x = 0" using Cons.prems [of x] by simp
  ultimately show ?case using Cons.IH by simp
qed simp

context mem_backend
begin

lemma map_chans_sum:
  assumes "finite K" and "{n. mem_entry E reg n \<noteq> None} \<subseteq> K"
  shows "map_chans E reg = (\<Sum>n\<in>K. entry_chans (mem_entry E reg n))"
proof -
  let ?es = "dm_iter (pairings_map E) (pairings reg)"
  have "map_chans E reg = sum_list (map (\<lambda>n. entry_chans (mem_entry E reg n)) (map fst ?es))"
    unfolding map_chans_def map_map
    by (rule arg_cong [where f = sum_list], rule map_cong)
      (auto simp: mem_entry_def p.iter_iff)
  also have "\<dots> = (\<Sum>n\<in>set (map fst ?es). entry_chans (mem_entry E reg n))"
    by (rule sum.distinct_set_conv_list [OF p.iter_distinct, symmetric])
  also have "set (map fst ?es) = {n. mem_entry E reg n \<noteq> None}"
    by (simp add: p.keys_iter mem_entry_def)
  also have "(\<Sum>n\<in>\<dots>. entry_chans (mem_entry E reg n)) = (\<Sum>n\<in>K. entry_chans (mem_entry E reg n))"
    by (rule sum.mono_neutral_left) (use assms in auto)
  finally show ?thesis .
qed

lemma map_chans_update:
  assumes "\<And>m. m \<noteq> n \<Longrightarrow> mem_entry E reg' m = mem_entry E reg m"
  shows "map_chans E reg' + entry_chans (mem_entry E reg n) = map_chans E reg + entry_chans (mem_entry E reg' n)"
proof -
  let ?K = "insert n ({m. mem_entry E reg m \<noteq> None} \<union> {m. mem_entry E reg' m \<noteq> None})"
  have fin: "finite ?K"
    using p.finite_keys [of "pairings reg"] p.finite_keys [of "pairings reg'"]
    by (simp add: mem_entry_def del: not_None_eq)
  have "map_chans E r = entry_chans (mem_entry E r n) + (\<Sum>m\<in>?K - {n}. entry_chans (mem_entry E r m))"
    if "r = reg \<or> r = reg'" for r
  proof -
    have "map_chans E r = (\<Sum>m\<in>?K. entry_chans (mem_entry E r m))"
      by (rule map_chans_sum [OF fin]) (use that in auto)
    then show ?thesis by (simp only: sum.remove [OF fin insertI1])
  qed
  moreover have "(\<Sum>m\<in>?K - {n}. entry_chans (mem_entry E reg m)) = (\<Sum>m\<in>?K - {n}. entry_chans (mem_entry E reg' m))"
    by (rule sum.cong) (simp_all add: assms)
  ultimately show ?thesis by simp
qed

lemma map_chans_entry:
  assumes "mem_entry E reg n = Some e" and "notify_tx e = Some c"
  shows "0 < count (map_chans E reg) c"
proof -
  let ?reg = "reg\<lparr>pairings := snd (dm_remove (pairings_map E) n (pairings reg))\<rparr>"
  have "mem_entry E ?reg m = (if m = n then None else mem_entry E reg m)" for m by (simp add: map_laws)
  then have "map_chans E ?reg + {#c#} = map_chans E reg"
    using map_chans_update [of n ?reg reg] assms by simp
  then show ?thesis by (metis count_add_mset union_mset_add_mset_right zero_less_Suc add_mset_add_single)
qed

lemma map_chans_tokens [simp]: "map_chans E (reg\<lparr>tokens := ts\<rparr>) = map_chans E reg"
  by (simp add: map_chans_def)

lemma map_chans_remove:
  "map_chans E (reg\<lparr>pairings := snd (dm_remove (pairings_map E) n (pairings reg))\<rparr>) + entry_chans (mem_entry E reg n)
     = map_chans E reg"
  using map_chans_update [of n "reg\<lparr>pairings := snd (dm_remove (pairings_map E) n (pairings reg))\<rparr>" reg]
  by (simp add: map_laws)

lemma map_chans_insert:
  "map_chans E (reg\<lparr>pairings := dm_insert (pairings_map E) n e (pairings reg)\<rparr>) + entry_chans (mem_entry E reg n)
     = map_chans E reg + entry_chans (Some e)"
  using map_chans_update [of n "reg\<lparr>pairings := dm_insert (pairings_map E) n e (pairings reg)\<rparr>" reg]
  by (simp add: map_laws)

lemma map_chans_alter:
  "map_chans E (reg\<lparr>pairings := dm_alter (pairings_map E) n g (pairings reg)\<rparr>) + entry_chans (mem_entry E reg n)
     = map_chans E reg + entry_chans (map_option g (mem_entry E reg n))"
  using map_chans_update [of n "reg\<lparr>pairings := dm_alter (pairings_map E) n g (pairings reg)\<rparr>" reg]
  by (simp add: map_laws)

lemma register_chans:
  assumes "register_step E n i rtok sp pc reg = (pc', reg', ev)"
  shows "map_chans E reg' + thread_chans (Registering n i rtok sp pc') + event_chans ev
     \<subseteq># map_chans E reg + thread_chans (Registering n i rtok sp pc)"
proof (cases pc)
  case RRemove
  with assms show ?thesis
    using map_chans_remove [where reg = reg and n = n]
    by (cases rule: remove_obtain [of n reg], cases "mem_entry E reg n") (auto simp: ac_simps)
next
  case RInsert
  with assms show ?thesis
    using map_chans_insert [where reg = reg and n = n] by (auto simp: mem_entry_def ac_simps)
next
  case (RGetMut t)
  with assms show ?thesis
    using map_chans_alter [where reg = reg and n = n and g = "\<lambda>e. e\<lparr>waiting_client := (waiting_client e)\<lparr>connection_info := i\<rparr>,
                              notify_tx := Some (new_chan sp)\<rparr>"]
    by (auto simp: mem_entry_def ac_simps split: option.splits if_splits)
qed (use assms in \<open>auto split: option.splits if_splits\<close>)

lemma unregister_chans:
  assumes "unregister_step E n t pc reg = (pc', reg', ev)"
  shows "map_chans E reg' + thread_chans (Unregistering n t pc') + event_chans ev
     \<subseteq># map_chans E reg + thread_chans (Unregistering n t pc)"
proof (cases pc)
  case URemove
  with assms show ?thesis
    using map_chans_remove [where reg = reg and n = n]
    by (cases rule: remove_obtain [of n reg], cases "mem_entry E reg n") (auto split: if_splits)
qed (use assms in auto)

lemma cleanup_chans:
  assumes "cleanup_step E S now pc reg = (pc', reg', ev)"
  shows "map_chans E reg' + event_chans ev \<subseteq># map_chans E reg"
proof (cases "\<exists>k n ns c. pc = SErase k n ns c")
  case True
  then obtain k n ns c where "pc = SErase k n ns c" by blast
  with assms show ?thesis
    using map_chans_remove [where reg = reg and n = n]
    by (cases rule: remove_obtain [of n reg], cases "mem_entry E reg n") auto
next
  case False
  with assms show ?thesis
    by (cases "(E, S, now, pc, reg)" rule: cleanup_step.cases) (auto split: option.splits)
qed

lemma thread_step_chans:
  assumes "thread_step E S th reg = (th', reg', ev)"
  shows "map_chans E reg' + thread_chans th' + event_chans ev \<subseteq># map_chans E reg + thread_chans th"
  using assms
proof (cases rule: thread_step_cases)
  case (Register n i rtok sp pc pc')
  show ?thesis using register_chans [OF Register(3)] by (simp only: Register(1,2))
next
  case (Unregister n t pc pc')
  show ?thesis using unregister_chans [OF Unregister(3)] by (simp only: Unregister(1,2))
next
  case (Sweep now pc pc')
  show ?thesis using cleanup_chans [OF Sweep(3)] by (simp add: Sweep(1,2))
qed

lemma advance_chans:
  assumes "mem_advance E S st st'"
  shows "system_chans E st' \<subseteq># system_chans E st"
  using assms
proof
  fix i
  assume i: "runnable S (threads st) i" and st': "st' = advance E S i st"
  obtain th reg ev where step: "thread_step E S (threads st ! i) (shared st) = (th, reg, ev)"
    by (cases "thread_step E S (threads st ! i) (shared st)") auto
  have "i < length (threads st)" using i by (simp add: runnable_def)
  then have split: "threads st = take i (threads st) @ threads st ! i # drop (Suc i) (threads st)"
    and upd: "(threads st)[i := th] = take i (threads st) @ th # drop (Suc i) (threads st)"
    by (simp_all add: id_take_nth_drop upd_conv_take_nth_drop)
  let ?rest = "sum_list (map thread_chans (take i (threads st))) + sum_list (map thread_chans (drop (Suc i) (threads st)))"
  have "sum_list (map thread_chans (threads st)) = thread_chans (threads st ! i) + ?rest"
    by (subst split) simp
  moreover have "sum_list (map thread_chans ((threads st)[i := th])) = thread_chans th + ?rest"
    by (subst upd) simp
  ultimately show ?thesis
    using thread_step_chans [OF step]
    by (simp add: system_chans_def st' advance_def step ac_simps)
qed

lemma run_chans:
  assumes "mem_run E S st st'" and "\<And>c. count (system_chans E st) c \<le> 1"
  shows "count (system_chans E st') c \<le> 1"
  using assms(1)
proof (induction rule: mem_run.induct)
  case (step st' st'')
  from advance_chans [OF step.hyps(2)] have "count (system_chans E st'') c \<le> count (system_chans E st') c"
    by (rule mset_subset_eq_count)
  with step.IH show ?case by simp
next
  case (call st' th)
  have "count (thread_chans th) c \<le> 1" using call.hyps(2) by (cases th) auto
  moreover have "count (thread_chans th) c = 0 \<or> count (system_chans E st') c = 0"
    using call.hyps(3) by (auto simp: count_eq_zero_iff)
  ultimately show ?case
    using call.IH by (auto simp: system_chans_def)
qed (rule assms(2))

end

subsection \<open>Who is introduced to whom\<close>

fun published :: "register_pc \<Rightarrow> bool" where
  "published RIssue \<longleftrightarrow> True"
| "published (RDone (RWaiting token c)) \<longleftrightarrow> True"
| "published (RDone (RResumed token c)) \<longleftrightarrow> True"
| "published _ \<longleftrightarrow> False"

text \<open>A call of \<open>register\<close> put this address and this channel into the entry of the name.\<close>

fun registers_as :: "rust_string \<Rightarrow> peer_connection_data \<Rightarrow> chan \<Rightarrow> thread \<Rightarrow> bool" where
  "registers_as n info c (Registering m i rtok sp pc) \<longleftrightarrow> m = n \<and> i = info \<and> new_chan sp = c \<and> published pc"
| "registers_as n info c _ \<longleftrightarrow> False"

definition backed :: "thread list \<Rightarrow> rust_string \<Rightarrow> pairing_entry \<Rightarrow> bool" where
  "backed ts n e \<longleftrightarrow>
     (\<exists>c. notify_tx e = Some c \<and> list_ex (registers_as n (connection_info (waiting_client e)) c) ts)"

definition introduced ::
    "thread list \<Rightarrow> reg_event list \<Rightarrow> rust_string \<Rightarrow> peer_connection_data \<Rightarrow> peer_connection_data \<Rightarrow> bool" where
  "introduced ts log n info peer \<longleftrightarrow> (\<exists>c. list_ex (registers_as n peer c) ts \<and> ChanSend c info \<in> set log)"

fun thread_ok :: "thread list \<Rightarrow> reg_event list \<Rightarrow> thread \<Rightarrow> bool" where
  "thread_ok ts log (Registering n i rtok sp (RNotify e)) \<longleftrightarrow> backed ts n e"
| "thread_ok ts log (Registering n i rtok sp (RForget e)) \<longleftrightarrow>
     introduced ts log n i (connection_info (waiting_client e))"
| "thread_ok ts log (Registering n i rtok sp (RDone (RPaired token peer))) \<longleftrightarrow> introduced ts log n i peer"
| "thread_ok ts log _ \<longleftrightarrow> True"

definition entries_backed :: "('p, 't) mem_env \<Rightarrow> thread list \<Rightarrow> ('p, 't) in_memory_registry \<Rightarrow> bool" where
  "entries_backed E ts reg \<longleftrightarrow> (\<forall>n e. mem_entry E reg n = Some e \<longrightarrow> backed ts n e)"

text \<open>More calls and more events keep what is known of a call.\<close>

definition extends :: "thread list \<Rightarrow> thread list \<Rightarrow> bool" where
  "extends ts ts' \<longleftrightarrow> (\<forall>n info c. list_ex (registers_as n info c) ts \<longrightarrow> list_ex (registers_as n info c) ts')"

lemma backed_mono: "extends ts ts' \<Longrightarrow> backed ts n e \<Longrightarrow> backed ts' n e"
  by (auto simp: backed_def extends_def)

lemma introduced_mono: "extends ts ts' \<Longrightarrow> introduced ts log n i peer \<Longrightarrow> introduced ts' (log @ ev) n i peer"
  by (auto simp: introduced_def extends_def)

lemma thread_ok_mono: "extends ts ts' \<Longrightarrow> thread_ok ts log th \<Longrightarrow> thread_ok ts' (log @ ev) th"
  by (cases "(ts, log, th)" rule: thread_ok.cases) (auto intro: backed_mono introduced_mono)

lemma extends_append: "extends ts (ts @ ts')"
  by (simp add: extends_def)

lemma registers_as_step:
  assumes "thread_step E S th reg = (th', reg', ev)" and "registers_as n info c th"
  shows "registers_as n info c th'"
  using assms
  by (cases "(n, info, c, th)" rule: registers_as.cases) (auto elim!: published.elims)

lemma extends_update:
  assumes "thread_step E S (ts ! i) reg = (th', reg', ev)" and "i < length ts"
  shows "extends ts (ts[i := th'])"
  unfolding extends_def
proof (intro allI impI)
  fix n info c
  assume "list_ex (registers_as n info c) ts"
  then obtain j where j: "j < length ts" "registers_as n info c (ts ! j)"
    by (auto simp: list_ex_iff in_set_conv_nth)
  then have "registers_as n info c (ts[i := th'] ! j)"
    using registers_as_step [OF assms(1)] by (cases "i = j") simp_all
  then show "list_ex (registers_as n info c) (ts[i := th'])"
    using nth_mem [of j "ts[i := th']"] j(1) unfolding list_ex_iff by auto
qed

context mem_backend
begin

lemma removed_obtain:
  obtains ps where "dm_remove (pairings_map E) n (pairings reg) = (map_option (Pair n) (mem_entry E reg n), ps)"
    and "\<And>m ts. mem_entry E (reg\<lparr>pairings := ps\<rparr>) m = (if m = n then None else mem_entry E reg m)"
  using remove_obtain [of n reg] by (metis in_memory_registry.select_convs(2) in_memory_registry.surjective
      in_memory_registry.update_convs(2) mem_entry_def p.get_remove)

lemma register_introduces:
  assumes step: "register_step E n i rtok sp pc reg = (pc', reg', ev)"
    and ext: "extends ts ts'" and own: "Registering n i rtok sp pc' \<in> set ts'"
    and ok: "thread_ok ts log (Registering n i rtok sp pc)" and regs: "entries_backed E ts reg"
  shows "thread_ok ts' (log @ ev) (Registering n i rtok sp pc') \<and> entries_backed E ts' reg'"
proof -
  have old: "mem_entry E reg m = Some e \<Longrightarrow> backed ts' m e" for m e
    using regs backed_mono [OF ext] by (auto simp: entries_backed_def)
  have mine: "published pc' \<Longrightarrow> list_ex (registers_as n i (new_chan sp)) ts'"
    using own unfolding list_ex_iff by (metis registers_as.simps(1))
  show ?thesis
  proof (cases pc)
    case RRemove
    then show ?thesis
      using step old by (cases rule: removed_obtain [of n reg], cases "mem_entry E reg n")
        (auto simp: entries_backed_def split: if_splits)
  next
    case RInsert
    then show ?thesis
      using step old mine by (auto simp: entries_backed_def map_laws backed_def split: if_splits)
  next
    case (RGetMut t)
    then show ?thesis
      using step old mine
      by (auto simp: entries_backed_def map_laws backed_def split: option.splits if_splits)
  next
    case (RNotify e)
    then obtain c where c: "notify_tx e = Some c" "list_ex (registers_as n (connection_info (waiting_client e)) c) ts"
      using ok by (auto simp: backed_def)
    then have "introduced ts' (log @ [ChanSend c i]) n i (connection_info (waiting_client e))"
      using ext by (auto simp: introduced_def extends_def)
    with RNotify show ?thesis
      using step old c(1) by (auto simp: entries_backed_def send_tx_def)
  next
    case (RForget e)
    then show ?thesis
      using step old ok introduced_mono [OF ext, of log n i _ ev] by (auto simp: entries_backed_def map_laws)
  next
    case (RDone r)
    then show ?thesis
      using step old ok thread_ok_mono [OF ext, of log "Registering n i rtok sp pc" ev]
      by (auto simp: entries_backed_def)
  qed (use step old in \<open>auto simp: entries_backed_def map_laws split: option.splits if_splits\<close>)
qed

lemma unregister_introduces:
  assumes "unregister_step E n t pc reg = (pc', reg', ev)" and "entries_backed E ts reg"
  shows "entries_backed E ts reg'"
proof (cases pc)
  case URemove
  with assms show ?thesis
    by (cases rule: removed_obtain [of n reg], cases "mem_entry E reg n")
      (auto simp: entries_backed_def split: if_splits)
qed (use assms in \<open>auto simp: entries_backed_def map_laws\<close>)

lemma cleanup_introduces:
  assumes "cleanup_step E S now pc reg = (pc', reg', ev)" and "entries_backed E ts reg"
  shows "entries_backed E ts reg'"
proof (cases "\<exists>k n ns c. pc = SErase k n ns c")
  case True
  then obtain k n ns c where "pc = SErase k n ns c" by blast
  with assms show ?thesis
    by (cases rule: removed_obtain [of n reg]) (auto simp: entries_backed_def split: if_splits)
next
  case False
  with assms show ?thesis
    by (cases "(E, S, now, pc, reg)" rule: cleanup_step.cases)
      (auto simp: entries_backed_def map_laws split: option.splits)
qed

lemma thread_step_introduces:
  assumes step: "thread_step E S th reg = (th', reg', ev)"
    and ext: "extends ts ts'" and own: "th' \<in> set ts'"
    and ok: "thread_ok ts log th" and regs: "entries_backed E ts reg"
  shows "thread_ok ts' (log @ ev) th' \<and> entries_backed E ts' reg'"
  using step
proof (cases rule: thread_step_cases)
  case (Register n i rtok sp pc pc')
  show ?thesis
    using register_introduces [OF Register(3) ext] own ok regs by (simp add: Register(1,2))
next
  case (Unregister n t pc pc')
  show ?thesis
    using unregister_introduces [OF Unregister(3) regs] ext
    by (auto simp: Unregister(2) entries_backed_def intro: backed_mono)
next
  case (Sweep now pc pc')
  show ?thesis
    using cleanup_introduces [OF Sweep(3) regs] ext
    by (auto simp: Sweep(2) entries_backed_def intro: backed_mono)
qed

lemma run_introduces:
  assumes "mem_run E S st st'"
    and "list_all (thread_ok (threads st) (chan_log st)) (threads st)" and "entries_backed E (threads st) (shared st)"
  shows "list_all (thread_ok (threads st') (chan_log st')) (threads st') \<and> entries_backed E (threads st') (shared st')"
  using assms(1)
proof (induction rule: mem_run.induct)
  case (step st' st'')
  from step.hyps(2) show ?case
  proof
    fix i
    assume run: "runnable S (threads st') i" and st'': "st'' = advance E S i st'"
    let ?ts = "threads st'"
    obtain th reg ev where one: "thread_step E S (?ts ! i) (shared st') = (th, reg, ev)"
      by (cases "thread_step E S (?ts ! i) (shared st')") auto
    have i: "i < length ?ts" using run by (simp add: runnable_def)
    then have own: "th \<in> set (?ts[i := th])" by (simp add: set_update_memI)
    note ext = extends_update [OF one i]
    have oks: "\<forall>th\<in>set ?ts. thread_ok ?ts (chan_log st') th" using step.IH by (simp add: list_all_iff)
    have "thread_ok (?ts[i := th]) (chan_log st' @ ev) th \<and> entries_backed E (?ts[i := th]) reg"
      by (rule thread_step_introduces [OF one ext own]) (use oks i step.IH in auto)
    moreover have "thread_ok (?ts[i := th]) (chan_log st' @ ev) th'" if "th' \<in> set ?ts" for th'
      using thread_ok_mono [OF ext] oks that by blast
    ultimately show ?case
      using set_update_subset_insert [of ?ts i th]
      by (auto simp: st'' advance_def one list_all_iff)
  qed
next
  case (call st' th)
  have "thread_ok ts log th" for ts log using call.hyps(2) by (cases th) auto
  with call.IH show ?case
    using thread_ok_mono [OF extends_append, of "threads st'" "chan_log st'" _ "[th]" "[]"]
      backed_mono [OF extends_append, of "threads st'" _ _ "[th]"]
    by (auto simp: list_all_iff entries_backed_def)
qed (use assms(2,3) in simp)

end

subsection \<open>Schedules and blocked calls\<close>

text \<open>The state a schedule leads to, if every call it names can run when its turn comes.\<close>

fun run_schedule ::
    "('p, 't) mem_env \<Rightarrow> shards \<Rightarrow> nat list \<Rightarrow> ('p, 't) mem_system \<Rightarrow> ('p, 't) mem_system option" where
  "run_schedule E S [] st = Some st"
| "run_schedule E S (i # is) st =
     (if runnable S (threads st) i then run_schedule E S is (advance E S i st) else None)"

lemma run_schedule_run: "run_schedule E S is st = Some st' \<Longrightarrow> (mem_advance E S)\<^sup>*\<^sup>* st st'"
  by (induction "is" arbitrary: st)
    (auto split: if_splits intro: converse_rtranclp_into_rtranclp [of "mem_advance E S", OF mem_advance.advance])

lemma advances_run:
  assumes "(mem_advance E S)\<^sup>*\<^sup>* st st'"
  shows "mem_run E S st st'"
  using assms by (induction rule: rtranclp_induct) (rule mem_run.start, rule mem_run.step)

definition deadlocked :: "shards \<Rightarrow> thread list \<Rightarrow> nat \<Rightarrow> nat \<Rightarrow> bool" where
  "deadlocked S ts i j \<longleftrightarrow> i \<noteq> j \<and> i < length ts \<and> j < length ts \<and>
     excludes (holds S (ts ! j)) (wants S (ts ! i)) \<and> excludes (holds S (ts ! i)) (wants S (ts ! j))"

lemma deadlocked_not_runnable:
  assumes "deadlocked S ts i j"
  shows "\<not> runnable S ts i" and "\<not> runnable S ts j"
  using assms by (auto simp: deadlocked_def runnable_def list_all_iff)

lemma advance_threads:
  "threads (advance E S k st) = (threads st)[k := fst (thread_step E S (threads st ! k) (shared st))]"
  by (simp add: advance_def split: prod.splits)

text \<open>Two calls that wait for each other wait forever, whatever else runs or is called.\<close>

lemma deadlocked_forever:
  assumes "mem_run E S st st'" and dead: "deadlocked S (threads st) i j"
  shows "deadlocked S (threads st') i j \<and> threads st' ! i = threads st ! i \<and> threads st' ! j = threads st ! j"
  using assms(1)
proof (induction rule: mem_run.induct)
  case (step st' st'')
  from step.hyps(2) show ?case
  proof
    fix k
    assume "runnable S (threads st') k" and st'': "st'' = advance E S k st'"
    then have "k \<noteq> i" "k \<noteq> j" using deadlocked_not_runnable step.IH by blast+
    with step.IH show ?case by (auto simp: st'' advance_threads deadlocked_def)
  qed
next
  case (call st' th)
  then show ?case by (auto simp: deadlocked_def nth_append)
qed (simp add: dead)

text \<open>When no call can run, two of them have taken the guards in opposite order.\<close>

lemma reconnect_excludes:
  "excludes (holds S (Registering n i rtok sp pc)) g \<longleftrightarrow>
     (\<exists>t. pc = RGetMut t \<and> g = Some (WriteGuard (TokenLock (token_shard S t))))"
  by (cases pc; cases g; cases "the g") auto

lemma unregister_excludes: "\<not> excludes (holds S (Unregistering n t pc)) g"
  by simp

lemma sweep_excludes:
  "excludes (holds S (Sweeping now pc)) g \<Longrightarrow>
     (\<exists>k. map_option guard_lock g = Some (PairingLock k)) \<and> (wants S (Sweeping now pc) = None \<or> (\<exists>k n e ns c. pc = SForget k n e ns c))
     \<and> \<not> finished (Sweeping now pc)"
  by (cases pc; cases g; cases "the g") auto

definition reconnecting :: "thread \<Rightarrow> bool" where
  "reconnecting th \<longleftrightarrow> (case th of Registering n i rtok sp (RGetMut t) \<Rightarrow> True | _ \<Rightarrow> False)"

definition forgetting :: "thread \<Rightarrow> bool" where
  "forgetting th \<longleftrightarrow> (case th of Sweeping now (SForget k n e ns c) \<Rightarrow> True | _ \<Rightarrow> False)"

lemma excludes_cases:
  assumes "excludes (holds S a) (wants S b)"
  shows "\<not> finished a" and "reconnecting a \<or> wants S a = None \<or> forgetting a"
    and "reconnecting b \<Longrightarrow> \<not> reconnecting a" and "forgetting b \<Longrightarrow> reconnecting a"
  using assms
  by (cases a; force simp: reconnect_excludes reconnecting_def forgetting_def
      dest: sweep_excludes split: thread.splits register_pc.splits cleanup_pc.splits)+

lemma stuck_inversion:
  assumes stuck: "\<And>i. \<not> runnable S ts i" and th: "th \<in> set ts" "\<not> finished th"
  shows "(\<exists>a\<in>set ts. reconnecting a) \<and> (\<exists>b\<in>set ts. forgetting b)"
proof -
  have blocked: "\<exists>a\<in>set ts. excludes (holds S a) (wants S b)" if h: "b \<in> set ts" "\<not> finished b" for b
  proof -
    obtain i where "i < length ts" "ts ! i = b" using h(1) by (auto simp: in_set_conv_nth)
    with stuck [of i] h(2) show ?thesis by (auto simp: runnable_def list_all_iff)
  qed
  have holder: "reconnecting a \<or> forgetting a" if "a \<in> set ts" "excludes (holds S a) (wants S b)" for a b
    using blocked [OF that(1) excludes_cases(1) [OF that(2)]] excludes_cases(2) [OF that(2)] by (auto elim: excludes.elims)
  obtain a where a: "a \<in> set ts" "excludes (holds S a) (wants S th)" using blocked th by blast
  obtain b where b: "b \<in> set ts" "excludes (holds S b) (wants S a)"
    using blocked [OF a(1) excludes_cases(1) [OF a(2)]] by blast
  show ?thesis
    using holder [OF a] holder [OF b] excludes_cases(3,4) [OF b(2)] a(1) b(1) by blast
qed

text \<open>Every step brings its call closer to its end.\<close>

fun thread_rank :: "shards \<Rightarrow> thread \<Rightarrow> nat \<times> nat \<times> nat" where
  "thread_rank S (Registering n i rtok sp pc) =
     (0, 0, case pc of RGet \<Rightarrow> 5 | RGetMut t \<Rightarrow> 4 | RRemove \<Rightarrow> 3 | RNotify e \<Rightarrow> 2 | RForget e \<Rightarrow> 1
                     | RInsert \<Rightarrow> 2 | RIssue \<Rightarrow> 1 | RDone r \<Rightarrow> 0)"
| "thread_rank S (Unregistering n t pc) =
     (0, 0, case pc of URemove \<Rightarrow> 2 | UForget e \<Rightarrow> 1 | UDone \<Rightarrow> 0)"
| "thread_rank S (Sweeping now pc) =
     (case pc of
        SShard k c \<Rightarrow> (2 * (shard_count S - k) + 1, 0, 0)
      | SVisit k ns c \<Rightarrow> (max 2 (2 * (shard_count S - k)), length ns, 0)
      | SForget k n e ns c \<Rightarrow> (max 2 (2 * (shard_count S - k)), length ns, 2)
      | SErase k n ns c \<Rightarrow> (max 2 (2 * (shard_count S - k)), length ns, 1)
      | SDone c \<Rightarrow> (0, 0, 0))"

abbreviation rank_order :: "((nat \<times> nat \<times> nat) \<times> (nat \<times> nat \<times> nat)) set" where
  "rank_order \<equiv> less_than <*lex*> less_than <*lex*> less_than"

lemma register_rank:
  "\<not> finished (Registering n i rtok sp pc) \<Longrightarrow> register_step E n i rtok sp pc reg = (pc', reg', ev) \<Longrightarrow>
   (thread_rank S (Registering n i rtok sp pc'), thread_rank S (Registering n i rtok sp pc)) \<in> rank_order"
  by (cases pc) (auto split: option.splits if_splits prod.splits)

lemma unregister_rank:
  "\<not> finished (Unregistering n t pc) \<Longrightarrow> unregister_step E n t pc reg = (pc', reg', ev) \<Longrightarrow>
   (thread_rank S (Unregistering n t pc'), thread_rank S (Unregistering n t pc)) \<in> rank_order"
  by (cases pc) (auto split: option.splits if_splits prod.splits)

lemma cleanup_rank:
  "\<not> finished (Sweeping now pc) \<Longrightarrow> cleanup_step E S now pc reg = (pc', reg', ev) \<Longrightarrow>
   (thread_rank S (Sweeping now pc'), thread_rank S (Sweeping now pc)) \<in> rank_order"
  by (cases "(E, S, now, pc, reg)" rule: cleanup_step.cases)
    (auto split: option.splits if_splits prod.splits)

lemma thread_step_rank:
  assumes fin: "\<not> finished th" and step: "thread_step E S th reg = (th', reg', ev)"
  shows "(thread_rank S th', thread_rank S th) \<in> rank_order"
  using step
proof (cases rule: thread_step_cases)
  case (Register n i rtok sp pc pc')
  show ?thesis using register_rank [OF _ Register(3)] fin unfolding Register(1,2) by blast
next
  case (Unregister n t pc pc')
  show ?thesis using unregister_rank [OF _ Unregister(3)] fin unfolding Unregister(1,2) by blast
next
  case (Sweep now pc pc')
  show ?thesis using cleanup_rank [OF _ Sweep(3)] fin unfolding Sweep(1,2) by blast
qed

lemma advance_terminates: "wf {(st', st). mem_advance E S st st'}"
proof (rule wf_subset)
  show "wf (inv_image (mult1 rank_order) (\<lambda>st. mset (map (thread_rank S) (threads st))))"
    by (intro wf_inv_image wf_mult1 wf_lex_prod wf_less_than)
  show "{(st', st). mem_advance E S st st'} \<subseteq>
      inv_image (mult1 rank_order) (\<lambda>st. mset (map (thread_rank S) (threads st)))"
  proof (rule subrelI)
    fix st' st
    assume "(st', st) \<in> {(st', st). mem_advance E S st st'}"
    then obtain i where i: "runnable S (threads st) i" "st' = advance E S i st" by blast
    let ?ts = "threads st"
    obtain th reg ev where step: "thread_step E S (?ts ! i) (shared st) = (th, reg, ev)"
      by (cases "thread_step E S (?ts ! i) (shared st)") auto
    have len: "i < length ?ts" and "\<not> finished (?ts ! i)" using i(1) by (auto simp: runnable_def)
    note rank = thread_step_rank [OF this(2) step]
    let ?M = "mset (map (thread_rank S) ?ts) - {#thread_rank S (?ts ! i)#}"
    have "mset (map (thread_rank S) ?ts) = add_mset (thread_rank S (?ts ! i)) ?M"
      using len by (simp add: nth_mem)
    moreover have "mset (map (thread_rank S) (threads st')) = ?M + {#thread_rank S th#}"
      using len by (simp add: i(2) advance_threads step map_update mset_update)
    ultimately show "(st', st) \<in> inv_image (mult1 rank_order) (\<lambda>st. mset (map (thread_rank S) (threads st)))"
      unfolding in_inv_image using rank by (intro mult1I) auto
  qed
qed

text \<open>Calls that cannot meet in opposite order: no sweep, or no reconnect token.\<close>

fun sweeps :: "thread \<Rightarrow> bool" where
  "sweeps (Sweeping now pc) \<longleftrightarrow> True"
| "sweeps _ \<longleftrightarrow> False"

fun tokenless :: "thread \<Rightarrow> bool" where
  "tokenless (Registering n i rtok sp pc) \<longleftrightarrow> rtok = None \<and> (\<forall>t. pc \<noteq> RGetMut t)"
| "tokenless _ \<longleftrightarrow> True"

lemma sweeps_step: "thread_step E S th reg = (th', reg', ev) \<Longrightarrow> sweeps th' = sweeps th"
  by (cases rule: thread_step_cases) auto

lemma tokenless_step:
  assumes "thread_step E S th reg = (th', reg', ev)" and "tokenless th"
  shows "tokenless th'"
  using assms(1)
proof (cases rule: thread_step_cases)
  case (Register n i rtok sp pc pc')
  with assms(2) show ?thesis by (cases pc) (auto split: option.splits if_splits prod.splits)
qed auto

lemma advances_all:
  assumes "(mem_advance E S)\<^sup>*\<^sup>* st st'" and "list_all P (threads st)"
    and keeps: "\<And>th reg th' reg' ev. thread_step E S th reg = (th', reg', ev) \<Longrightarrow> P th \<Longrightarrow> P th'"
  shows "list_all P (threads st')"
  using assms(1,2)
proof (induction rule: rtranclp_induct)
  case (step st' st'')
  from step.hyps(2) show ?case
  proof
    fix i
    assume i: "runnable S (threads st') i" "st'' = advance E S i st'"
    have "P (threads st' ! i)"
      using i(1) step by (auto simp: runnable_def list_all_length)
    then have "P (fst (thread_step E S (threads st' ! i) (shared st')))"
      using keeps by (metis prod.collapse)
    moreover have "\<forall>th\<in>set (threads st'). P th" using step by (simp add: list_all_iff)
    ultimately show ?thesis
      unfolding i(2) advance_threads list_all_iff
      using set_update_subset_insert [of "threads st'" i] by blast
  qed
qed simp

lemma calls_return:
  assumes "list_all (Not \<circ> sweeps) (threads st) \<or> list_all tokenless (threads st)"
    and "(mem_advance E S)\<^sup>*\<^sup>* st st'"
  shows "(\<exists>st''. mem_advance E S st' st'') \<or> list_all finished (threads st')"
proof (rule ccontr)
  assume none: "\<not> ?thesis"
  then obtain th where "th \<in> set (threads st')" "\<not> finished th" by (auto simp: list_all_iff)
  moreover have "\<not> runnable S (threads st') i" for i using none mem_advance.advance by blast
  ultimately obtain a b where "a \<in> set (threads st')" "reconnecting a" "b \<in> set (threads st')" "forgetting b"
    using stuck_inversion by blast
  moreover have "\<not> tokenless a" "sweeps b"
    using \<open>reconnecting a\<close> \<open>forgetting b\<close>
    by (auto simp: reconnecting_def forgetting_def split: thread.splits register_pc.splits)
  ultimately show False
    using assms(1) advances_all [OF assms(2), of "Not \<circ> sweeps"] advances_all [OF assms(2), of tokenless]
    by (auto simp: list_all_iff sweeps_step tokenless_step)
qed

text \<open>Once a sweep is caught in a deadlock nobody gets into the shard it holds.\<close>

fun shut_out :: "shards \<Rightarrow> nat \<Rightarrow> thread \<Rightarrow> bool" where
  "shut_out S k (Registering n i rtok sp pc) \<longleftrightarrow>
     (pairing_shard S n = k \<longrightarrow> pc = RGet \<or> (\<exists>t. pc = RGetMut t) \<or> pc = RRemove)"
| "shut_out S k (Unregistering n t pc) \<longleftrightarrow> (pairing_shard S n = k \<longrightarrow> pc = URemove)"
| "shut_out S k (Sweeping now pc) \<longleftrightarrow> True"

lemma shut_out_step:
  assumes "thread_step E S th reg = (th', reg', ev)" and "shut_out S k th"
    and "\<not> excludes (Some (WriteGuard (PairingLock k))) (wants S th)"
  shows "shut_out S k th'"
  using assms(1)
proof (cases rule: thread_step_cases)
  case (Register n i rtok sp pc pc')
  with assms(2,3) show ?thesis by (cases pc) (auto split: option.splits if_splits prod.splits)
next
  case (Unregister n t pc pc')
  with assms(2,3) show ?thesis by (cases pc) (auto split: option.splits if_splits prod.splits)
qed simp

lemma deadlock_shuts_out:
  assumes "mem_run E S st st'" and dead: "deadlocked S (threads st) i j"
    and lock: "holds S (threads st ! j) = Some (WriteGuard (PairingLock k))"
    and new: "length (threads st) \<le> m" "m < length (threads st')"
  shows "shut_out S k (threads st' ! m)"
  using assms(1) new(2)
proof (induction rule: mem_run.induct)
  case start
  with new show ?case by simp
next
  case (step st' st'')
  note dead' = deadlocked_forever [OF step.hyps(1) dead]
  from step.hyps(2) show ?case
  proof
    fix l
    assume l: "runnable S (threads st') l" "st'' = advance E S l st'"
    then have m: "m < length (threads st')" using step.prems by (simp add: advance_threads)
    obtain th reg ev where one: "thread_step E S (threads st' ! l) (shared st') = (th, reg, ev)"
      by (cases "thread_step E S (threads st' ! l) (shared st')") auto
    have "l \<noteq> j" using l(1) dead' deadlocked_not_runnable by blast
    then have "\<not> excludes (Some (WriteGuard (PairingLock k))) (wants S (threads st' ! l))"
      using l(1) dead' lock by (auto simp: runnable_def deadlocked_def list_all_iff)
    then have "l = m \<Longrightarrow> shut_out S k th" using shut_out_step [OF one] step.IH [OF m] by blast
    then show ?thesis using step.IH [OF m] m one by (cases "l = m") (auto simp: l(2) advance_threads)
  qed
next
  case (call st' th)
  have "shut_out S k th" using call.hyps(2) by (cases th) auto
  with call.IH call.prems show ?case by (cases "m < length (threads st')") (auto simp: nth_append less_Suc_eq)
qed

subsection \<open>Two schedules\<close>

definition calls_on :: "('p, 't) in_memory_registry \<Rightarrow> thread list \<Rightarrow> ('p, 't) mem_system" where
  "calls_on reg ts = \<lparr>shared = reg, threads = ts, chan_log = []\<rparr>"

text \<open>Both first clients look before either has inserted its entry.\<close>

definition race_schedule :: "nat list" where
  "race_schedule = [0, 1, 0, 1, 0, 0, 1, 1]"

text \<open>The client finds its token; then the sweep reaches the client's entry.\<close>

definition inversion_schedule :: "nat \<Rightarrow> nat list" where
  "inversion_schedule k = [0] @ replicate (2 * k) 1 @ [1, 1]"

definition fresh_entry :: "('p, 't) in_memory_registry \<Rightarrow> peer_connection_data \<Rightarrow> runtime \<Rightarrow> pairing_entry" where
  "fresh_entry reg i sp =
     \<lparr>waiting_client =
        \<lparr>connection_info = i, reconnect_token = new_v4 sp,
         client_server_id = server_id (mem_config reg), registered_at = utc_now sp\<rparr>,
      notify_tx = Some (new_chan sp), created_at = instant_now sp\<rparr>"

lemma distinct_in_singleton: "distinct xs \<Longrightarrow> set xs \<subseteq> {x} \<Longrightarrow> xs = (if x \<in> set xs then [x] else [])"
  by (cases xs) (auto simp: subset_singleton_iff)

context mem_backend
begin

lemma race:
  assumes "mem_entry E reg n = None"
  shows "\<exists>reg'. run_schedule E S race_schedule (calls_on reg [Registering n i None a RGet, Registering n j None b RGet])
      = Some \<lparr>shared = reg', threads = [Registering n i None a (RDone (RWaiting (new_v4 a) (new_chan a))),
                                       Registering n j None b (RDone (RWaiting (new_v4 b) (new_chan b)))],
              chan_log = [ChanDrop (new_chan a)]\<rparr>
    \<and> (\<forall>m. mem_entry E reg' m = (if m = n then Some (fresh_entry reg j b) else mem_entry E reg m))
    \<and> (\<forall>t. mem_token E reg' t = (if t = new_v4 a \<or> t = new_v4 b then Some n else mem_token E reg t))"
proof -
  obtain ps where rm: "dm_remove (pairings_map E) n (pairings reg) = (None, ps)"
    and get: "\<And>m. dm_get (pairings_map E) m ps = mem_entry E reg m"
    using remove_obtain [of n reg] assms by (metis mem_entry_def option.map_disc_iff p.get_remove)
  obtain qs where rm': "dm_remove (pairings_map E) n ps = (None, qs)"
    and get': "\<And>m. dm_get (pairings_map E) m qs = mem_entry E reg m"
    using p.remove_eq [of n ps] get assms by (metis option.map_disc_iff p.get_remove)
  show ?thesis
    using assms
    by (simp add: race_schedule_def calls_on_def runnable_def advance_def upt_rec rm rm' get' replaced_def
        drop_tx_def fresh_entry_def map_laws)
qed

lemma only_shard_names:
  assumes "mem_entry E reg n = Some e" and "\<And>m. mem_entry E reg m \<noteq> None \<Longrightarrow> m = n"
  shows "shard_names E S k reg = (if pairing_shard S n = k then [n] else [])"
proof -
  have "set (shard_names E S k reg) \<subseteq> {n}" using assms(2) by (simp add: shard_names_iff subset_iff)
  with distinct_in_singleton [OF shard_names_distinct] assms(1) show ?thesis
    by (metis option.distinct(1) shard_names_iff)
qed

text \<open>The sweep passes the shards before the one it will be caught in.\<close>

lemma sweep_passes:
  assumes "j + k \<le> pairing_shard S n" and "pairing_shard S n < shard_count S"
    and "\<And>k. k \<noteq> pairing_shard S n \<Longrightarrow> shard_names E S k reg = []"
  shows "run_schedule E S (replicate (2 * k) 1)
      (calls_on reg [Registering n i (Some t) sp (RGetMut t), Sweeping now (SShard j 0)])
    = Some (calls_on reg [Registering n i (Some t) sp (RGetMut t), Sweeping now (SShard (j + k) 0)])"
  using assms(1)
proof (induction k arbitrary: j)
  case (Suc k)
  then have "shard_names E S j reg = []" "j < shard_count S" using assms(2) assms(3) [of j] by simp_all
  with Suc.IH [of "Suc j"] Suc.prems show ?case
    by (simp add: calls_on_def runnable_def advance_def upt_rec)
qed simp

lemma run_schedule_append:
  "run_schedule E S (is @ js) st = Option.bind (run_schedule E S is st) (run_schedule E S js)"
  by (induction "is" arbitrary: st) auto

lemma inversion:
  fixes i :: peer_connection_data and sp :: runtime
  assumes "mem_entry E reg n = Some e" and "\<And>m. mem_entry E reg m \<noteq> None \<Longrightarrow> m = n"
    and "mem_token E reg (entry_token e) = Some n"
    and "pairing_timeout (mem_config reg) < duration_since now (created_at e)"
    and "pairing_shard S n < shard_count S"
  defines "A \<equiv> Registering n i (Some (entry_token e)) sp"
  shows "run_schedule E S (inversion_schedule (pairing_shard S n)) (calls_on reg [A RGet, Sweeping now (SShard 0 0)])
    = Some (calls_on reg [A (RGetMut (entry_token e)), Sweeping now (SForget (pairing_shard S n) n e [] 0)])"
proof -
  have names: "shard_names E S k reg = (if pairing_shard S n = k then [n] else [])" for k
    using assms(1,2) by (rule only_shard_names)
  have "run_schedule E S [0] (calls_on reg [A RGet, Sweeping now (SShard 0 0)])
      = Some (calls_on reg [A (RGetMut (entry_token e)), Sweeping now (SShard 0 0)])"
    using assms(3) by (simp add: A_def calls_on_def runnable_def advance_def upt_rec mem_token_def)
  moreover have "run_schedule E S (replicate (2 * pairing_shard S n) 1)
        (calls_on reg [A (RGetMut (entry_token e)), Sweeping now (SShard 0 0)])
      = Some (calls_on reg [A (RGetMut (entry_token e)), Sweeping now (SShard (pairing_shard S n) 0)])"
    using sweep_passes [of 0 "pairing_shard S n" S n reg] assms(5) by (simp add: A_def names)
  moreover have "run_schedule E S [1, 1] (calls_on reg [A (RGetMut (entry_token e)), Sweeping now (SShard (pairing_shard S n) 0)])
      = Some (calls_on reg [A (RGetMut (entry_token e)), Sweeping now (SForget (pairing_shard S n) n e [] 0)])"
    using assms(1,4,5) by (simp add: A_def calls_on_def runnable_def advance_def upt_rec names mem_entry_def)
  ultimately show ?thesis
    unfolding inversion_schedule_def run_schedule_append by simp
qed

text \<open>One client after the other: they meet.\<close>

lemma meeting:
  assumes "mem_entry E reg n = None"
  shows "\<exists>reg'. run_schedule E S [0, 0, 0, 0, 1, 1, 1, 1]
        (calls_on reg [Registering n i None a RGet, Registering n j None b RGet])
      = Some \<lparr>shared = reg', threads = [Registering n i None a (RDone (RWaiting (new_v4 a) (new_chan a))),
                                       Registering n j None b (RDone (RPaired (new_v4 b) i))],
              chan_log = [ChanSend (new_chan a) j]\<rparr>"
proof -
  obtain ps where rm: "dm_remove (pairings_map E) n (pairings reg) = (None, ps)"
    and get: "\<And>m. dm_get (pairings_map E) m ps = mem_entry E reg m"
    using remove_obtain [of n reg] assms by (metis mem_entry_def option.map_disc_iff p.get_remove)
  let ?ps = "dm_insert (pairings_map E) n (fresh_entry reg i a) ps"
  obtain qs where "dm_remove (pairings_map E) n ?ps = (Some (n, fresh_entry reg i a), qs)"
    using p.remove_eq [of n ?ps] by (simp add: p.get_insert)
  with rm get assms show ?thesis
    by (simp add: calls_on_def runnable_def advance_def upt_rec replaced_def send_tx_def fresh_entry_def)
qed

lemma system_chans_new: "system_chans E (mem_system_new E config) = {#}"
proof -
  have "dm_iter (pairings_map E) (dm_new (pairings_map E)) = []"
    using p.keys_iter [of "dm_new (pairings_map E)"] by (simp add: p.get_new)
  then show ?thesis
    by (simp add: system_chans_def mem_system_new_def mem_new_def map_chans_def event_chans_def)
qed

lemma run_two_calls:
  assumes "new_chan a \<noteq> new_chan b"
  shows "mem_run E S (mem_system_new E config)
    (calls_on (mem_new E config) [Registering n i t a RGet, Registering m j u b RGet])"
proof -
  let ?st = "(mem_system_new E config)\<lparr>threads := threads (mem_system_new E config) @ [Registering n i t a RGet]\<rparr>"
  have one: "mem_run E S (mem_system_new E config) ?st"
    by (intro mem_run.call mem_run.start) (simp_all add: system_chans_new)
  have "system_chans E ?st = {#new_chan a#}"
    using system_chans_new [of config] by (simp add: system_chans_def mem_system_new_def)
  then have "mem_run E S (mem_system_new E config) (?st\<lparr>threads := threads ?st @ [Registering m j u b RGet]\<rparr>)"
    using assms by (intro mem_run.call [OF one]) simp_all
  then show ?thesis by (simp add: mem_system_new_def calls_on_def)
qed

lemma run_trans: "mem_run E S st' st'' \<Longrightarrow> mem_run E S st st' \<Longrightarrow> mem_run E S st st''"
  by (induction rule: mem_run.induct) (assumption, metis mem_run.step, metis mem_run.call)

lemma run_schedule_calls:
  assumes "new_chan a \<noteq> new_chan b"
    and "run_schedule E S is (calls_on (mem_new E config) [Registering n i t a RGet, Registering m j u b RGet]) = Some st"
  shows "mem_run E S (mem_system_new E config) st"
  by (rule run_trans [OF advances_run [OF run_schedule_run [OF assms(2)]] run_two_calls [OF assms(1)]])

lemma new_counts: "count (system_chans E (mem_system_new E config)) c \<le> 1"
  by (simp add: system_chans_new)

lemma run_counts: "mem_run E S (mem_system_new E config) st \<Longrightarrow> count (system_chans E st) c \<le> 1"
  by (erule run_chans) (rule new_counts)

lemma log_counts:
  "mem_run E S (mem_system_new E config) st \<Longrightarrow> count (mset (map event_chan (chan_log st))) c \<le> 1"
  using run_counts [of S config st c] by (simp add: system_chans_def event_chans_def)

lemma new_introduced:
  "list_all (thread_ok (threads (mem_system_new E config)) (chan_log (mem_system_new E config)))
     (threads (mem_system_new E config))"
  "entries_backed E (threads (mem_system_new E config)) (shared (mem_system_new E config))"
  by (simp_all add: mem_system_new_def entries_backed_def mem_new_def map_laws)

end

subsection \<open>Properties\<close>

text \<open>
  Claim C4. However the calls of any number of clients and sweeps interleave, at most one thing
  ever happens on a notification channel, a send or a drop, and nothing has happened yet on
  the channel of a client whose entry is in the registry.
\<close>

theorem mem_interleaved_single_use:
  assumes "mem_backend E" and "mem_run E S (mem_system_new E config) st"
  shows "distinct (map event_chan (chan_log st))
    \<and> (mem_entry E (shared st) n = Some e \<longrightarrow> notify_tx e = Some c \<longrightarrow> c \<notin> event_chan ` set (chan_log st))"
proof -
  note one = mem_backend.run_counts [OF assms] and log = mem_backend.log_counts [OF assms]
  have "distinct (map event_chan (chan_log st))" by (rule distinct_if_counts) (rule log)
  moreover have "c \<notin> event_chan ` set (chan_log st)" if h: "mem_entry E (shared st) n = Some e" "notify_tx e = Some c"
  proof
    assume "c \<in> event_chan ` set (chan_log st)"
    then have "0 < count (event_chans (chan_log st)) c" by (simp add: event_chans_def)
    moreover note mem_backend.map_chans_entry [OF assms(1) h]
    ultimately show False using one [of c] unfolding system_chans_def count_union by linarith
  qed
  ultimately show ?thesis by blast
qed

theorem mem_interleaved_single_use_witness:
  "\<exists>st. mem_run alist_env demo_shards (mem_system_new alist_env demo_config) st \<and>
     chan_log st = [ChanDrop 1] \<and> distinct (map event_chan (chan_log st)) \<and>
     (\<exists>e. mem_entry alist_env (shared st) demo_name = Some e \<and> notify_tx e = Some 2 \<and> 2 \<notin> event_chan ` set (chan_log st))"
proof -
  let ?a = "demo_runtime 1" and ?b = "demo_runtime 2" and ?reg = "mem_new alist_env demo_config"
  have none: "mem_entry alist_env ?reg demo_name = None" using demo0_facts(3) by (simp add: demo0_def)
  obtain st where sched: "run_schedule alist_env demo_shards race_schedule
      (calls_on ?reg [Registering demo_name (demo_peer 1) None ?a RGet, Registering demo_name (demo_peer 2) None ?b RGet]) = Some st"
    and st: "chan_log st = [ChanDrop (new_chan ?a)]" "mem_entry alist_env (shared st) demo_name = Some (fresh_entry ?reg (demo_peer 2) ?b)"
    using alist_mem.race [OF none, of demo_shards "demo_peer 1" ?a "demo_peer 2" ?b] by auto
  have run: "mem_run alist_env demo_shards (mem_system_new alist_env demo_config) st"
    by (rule alist_mem.run_schedule_calls [OF _ sched]) (simp add: demo_runtime_def)
  from mem_interleaved_single_use [OF alist_mem.mem_backend_axioms run, of demo_name _ 2] run st show ?thesis
    by (auto simp: fresh_entry_def demo_runtime_def)
qed

text \<open>
  Claim C3. However the calls interleave, a client that is told it is paired was given the
  address of another client that registered or resumed under the same name, and its own
  address was sent on the channel of exactly that client, on which nothing else is sent.
\<close>

theorem mem_interleaved_introduction:
  assumes "mem_backend E" and "mem_run E S (mem_system_new E config) st"
    and "i < length (threads st)" and "threads st ! i = Registering n info rtok sp (RDone (RPaired token peer))"
  shows "\<exists>j c. j < length (threads st) \<and> j \<noteq> i \<and> registers_as n peer c (threads st ! j) \<and>
    ChanSend c info \<in> set (chan_log st) \<and> (\<forall>x. ChanSend c x \<in> set (chan_log st) \<longrightarrow> x = info) \<and>
    ChanDrop c \<notin> set (chan_log st)"
proof -
  have "thread_ok (threads st) (chan_log st) (threads st ! i)"
    using mem_backend.run_introduces [OF assms(1,2) mem_backend.new_introduced [OF assms(1)]] assms(3)
    by (simp add: list_all_length)
  then obtain c where c: "list_ex (registers_as n peer c) (threads st)" "ChanSend c info \<in> set (chan_log st)"
    by (auto simp: assms(4) introduced_def)
  then obtain j where j: "j < length (threads st)" "registers_as n peer c (threads st ! j)"
    by (auto simp: list_ex_iff in_set_conv_nth)
  have "distinct (map event_chan (chan_log st))"
    by (rule distinct_if_counts) (rule mem_backend.log_counts [OF assms(1,2)])
  then have "e = ChanSend c info" if "e \<in> set (chan_log st)" "event_chan e = c" for e
    using that c(2) by (metis distinct_map event_chan.simps(1) inj_on_def)
  then have "\<forall>x. ChanSend c x \<in> set (chan_log st) \<longrightarrow> x = info" "ChanDrop c \<notin> set (chan_log st)"
    by fastforce+
  moreover have "j \<noteq> i" using j(2) assms(4) by auto
  ultimately show ?thesis using c(2) j by blast
qed

theorem mem_interleaved_introduction_witness:
  "\<exists>st j c. mem_run alist_env demo_shards (mem_system_new alist_env demo_config) st \<and> j \<noteq> 1 \<and>
     registers_as demo_name (demo_peer 1) c (threads st ! j) \<and> ChanSend c (demo_peer 2) \<in> set (chan_log st)"
proof -
  let ?a = "demo_runtime 1" and ?b = "demo_runtime 2" and ?reg = "mem_new alist_env demo_config"
  have none: "mem_entry alist_env ?reg demo_name = None" using demo0_facts(3) by (simp add: demo0_def)
  obtain st where sched: "run_schedule alist_env demo_shards [0, 0, 0, 0, 1, 1, 1, 1]
      (calls_on ?reg [Registering demo_name (demo_peer 1) None ?a RGet, Registering demo_name (demo_peer 2) None ?b RGet]) = Some st"
    and st: "length (threads st) = 2"
      "threads st ! 1 = Registering demo_name (demo_peer 2) None ?b (RDone (RPaired (new_v4 ?b) (demo_peer 1)))"
    using alist_mem.meeting [OF none, of demo_shards "demo_peer 1" ?a "demo_peer 2" ?b] by auto
  have run: "mem_run alist_env demo_shards (mem_system_new alist_env demo_config) st"
    by (rule alist_mem.run_schedule_calls [OF _ sched]) (simp add: demo_runtime_def)
  from mem_interleaved_introduction [OF alist_mem.mem_backend_axioms run _ st(2)] run st(1) show ?thesis by auto
qed

text \<open>
  Claim C28. Two clients that ask for a free name at the same time can miss each other: both
  find no entry, both insert one, and both are told to wait. The second insertion replaces the
  first client's entry and drops its channel, so nobody who comes later can reach it; its token
  stays in the token map without an entry.
\<close>

theorem mem_first_clients_race:
  assumes "mem_backend E" and "mem_ok E reg" and "mem_entry E reg n = None"
    and "mem_admits E a reg" and "new_v4 a \<noteq> new_v4 b"
  shows "\<exists>st. (mem_advance E S)\<^sup>*\<^sup>* (calls_on reg [Registering n i None a RGet, Registering n j None b RGet]) st
    \<and> threads st = [Registering n i None a (RDone (RWaiting (new_v4 a) (new_chan a))),
                    Registering n j None b (RDone (RWaiting (new_v4 b) (new_chan b)))]
    \<and> chan_log st = [ChanDrop (new_chan a)]
    \<and> map_option entry_token (mem_entry E (shared st) n) = Some (new_v4 b)
    \<and> stale_token E (shared st) (new_v4 a) n"
proof -
  let ?start = "calls_on reg [Registering n i None a RGet, Registering n j None b RGet]"
  obtain st where run: "run_schedule E S race_schedule ?start = Some st"
    and st: "threads st = [Registering n i None a (RDone (RWaiting (new_v4 a) (new_chan a))),
                    Registering n j None b (RDone (RWaiting (new_v4 b) (new_chan b)))]"
      "chan_log st = [ChanDrop (new_chan a)]"
      "\<forall>m. mem_entry E (shared st) m = (if m = n then Some (fresh_entry reg j b) else mem_entry E reg m)"
      "\<forall>t. mem_token E (shared st) t = (if t = new_v4 a \<or> t = new_v4 b then Some n else mem_token E reg t)"
    using mem_backend.race [OF assms(1,3), of S i a j b] by auto
  have "entry_token e \<noteq> new_v4 a" if "mem_entry E reg m = Some e" for m e
    using mem_backend.ok_entry [OF assms(1,2) that] assms(4) by (auto simp: mem_admits_def)
  then have "stale_token E (shared st) (new_v4 a) n"
    unfolding mem_backend.stale_token_iff [OF assms(1)] using st(3,4) assms(5) by (auto simp: fresh_entry_def)
  then show ?thesis
    using run_schedule_run [OF run] st by (auto simp: fresh_entry_def)
qed

theorem mem_first_clients_race_witness:
  "\<exists>st. (mem_advance alist_env demo_shards)\<^sup>*\<^sup>*
       (calls_on demo0 [Registering demo_name (demo_peer 1) None (demo_runtime 1) RGet,
                        Registering demo_name (demo_peer 2) None (demo_runtime 2) RGet]) st
     \<and> chan_log st = [ChanDrop 1] \<and> stale_token alist_env (shared st) 1 demo_name"
proof -
  have "mem_admits alist_env (demo_runtime 1) demo0" by (simp add: mem_admits_def demo0_facts)
  moreover have "new_v4 (demo_runtime 1) \<noteq> new_v4 (demo_runtime 2)" by (simp add: demo_runtime_def)
  ultimately show ?thesis
    using mem_first_clients_race [OF alist_mem.mem_backend_axioms demo0_facts(1) demo0_facts(3),
        where a = "demo_runtime 1" and b = "demo_runtime 2" and n = demo_name and S = demo_shards
          and i = "demo_peer 1" and j = "demo_peer 2"]
    by (auto simp: demo_runtime_def)
qed

text \<open>
  Claim C29. A client that reconnects with its token while a sweep removes its overdue entry can
  stop the registry for good: the client keeps the token's shard read-locked and waits for the
  entry's shard, the sweep keeps the entry's shard locked and waits for the token's shard.
  Neither ever returns, and no later call on a name of that shard gets past its first access to
  the pairing map, whatever else is called.
\<close>

theorem mem_reconnect_sweep_deadlock:
  assumes "mem_backend E" and "mem_ok E reg" and "mem_entry E reg n = Some e"
    and "\<forall>m. mem_entry E reg m \<noteq> None \<longrightarrow> m = n"
    and "pairing_timeout (mem_config reg) < now - created_at e" and "pairing_shard S n < shard_count S"
  shows "\<exists>st. (mem_advance E S)\<^sup>*\<^sup>*
        (calls_on reg [Registering n i (Some (entry_token e)) sp RGet, Sweeping now (SShard 0 0)]) st \<and>
      (\<forall>st'. mem_run E S st st' \<longrightarrow>
         \<not> finished (threads st' ! 0) \<and> \<not> finished (threads st' ! 1) \<and>
         list_all (shut_out S (pairing_shard S n)) (drop 2 (threads st')))"
proof -
  let ?st = "calls_on reg [Registering n i (Some (entry_token e)) sp (RGetMut (entry_token e)),
      Sweeping now (SForget (pairing_shard S n) n e [] 0)]"
  have token: "mem_token E reg (entry_token e) = Some n" using mem_backend.ok_entry [OF assms(1-3)] by blast
  have "pairing_timeout (mem_config reg) < duration_since now (created_at e)"
    using assms(5) by (simp add: duration_since_def)
  note run = mem_backend.inversion [OF assms(1,3) assms(4) [rule_format] token this assms(6)]
  have dead: "deadlocked S (threads ?st) 0 1" by (simp add: deadlocked_def calls_on_def)
  have "\<not> finished (threads st' ! 0) \<and> \<not> finished (threads st' ! 1) \<and>
      list_all (shut_out S (pairing_shard S n)) (drop 2 (threads st'))" if h: "mem_run E S ?st st'" for st'
    using deadlocked_forever [OF h dead] deadlock_shuts_out [OF h dead, of "pairing_shard S n"]
    by (auto simp: calls_on_def list_all_length)
  with run_schedule_run [OF run] show ?thesis by blast
qed

theorem mem_reconnect_sweep_deadlock_witness:
  "\<exists>st. (mem_advance alist_env demo_shards)\<^sup>*\<^sup>*
       (calls_on demo1 [Registering demo_name (demo_peer 1) (Some 1) (demo_runtime 2) RGet,
                        Sweeping (from_secs 61) (SShard 0 0)]) st \<and>
     \<not> finished (threads st ! 0) \<and> \<not> finished (threads st ! 1)"
proof -
  have e: "mem_entry alist_env demo1 demo_name = Some demo_entry" "entry_token demo_entry = 1"
    by (simp_all add: demo1_facts demo_entry_def)
  have only: "\<forall>m. mem_entry alist_env demo1 m \<noteq> None \<longrightarrow> m = demo_name" by (simp add: demo1_facts)
  have late: "pairing_timeout (mem_config demo1) < from_secs 61 - created_at demo_entry"
    by (simp add: demo1_facts demo_config_def demo_entry_def from_secs_def nanos_per_sec_def)
  have "pairing_shard demo_shards demo_name < shard_count demo_shards" by (simp add: demo_shards_def)
  from mem_reconnect_sweep_deadlock [OF alist_mem.mem_backend_axioms demo1_facts(1) e(1) only late this,
      of "demo_peer 1" "demo_runtime 2"]
  show ?thesis using mem_run.start unfolding e(2) by metis
qed

text \<open>
  Claim C13. That is the only way to get stuck. As long as no sweep runs, or no client presents a
  token, any number of calls interleaved in any way come to an end: no run is infinite, and in a
  state in which nothing can run any more every call has returned.
\<close>

theorem mem_calls_return:
  assumes "list_all (Not \<circ> sweeps) (threads st) \<or> list_all tokenless (threads st)"
  shows "wf {(st', st). mem_advance E S st st'} \<and>
    ((mem_advance E S)\<^sup>*\<^sup>* st st' \<longrightarrow> (\<forall>st''. \<not> mem_advance E S st' st'') \<longrightarrow> list_all finished (threads st'))"
proof (intro conjI impI)
  show "wf {(st', st). mem_advance E S st st'}" by (rule advance_terminates)
next
  assume "(mem_advance E S)\<^sup>*\<^sup>* st st'" and "\<forall>st''. \<not> mem_advance E S st' st''"
  with calls_return [OF assms this(1)] show "list_all finished (threads st')" by simp
qed

theorem mem_calls_return_witness:
  "\<exists>st. (mem_advance alist_env demo_shards)\<^sup>*\<^sup>*
     (calls_on demo1 [Registering demo_name (demo_peer 1) (Some 1) (demo_runtime 2) RGet, Unregistering demo_name 1 URemove]) st
     \<and> list_all finished (threads st)"
proof -
  let ?st = "calls_on demo1 [Registering demo_name (demo_peer 1) (Some 1) (demo_runtime 2) RGet, Unregistering demo_name 1 URemove]"
  have "list_all (Not \<circ> sweeps) (threads ?st) \<or> list_all tokenless (threads ?st)" by (simp add: calls_on_def)
  note ret = mem_calls_return [OF this, of alist_env demo_shards]
  obtain z where z: "(mem_advance alist_env demo_shards)\<^sup>*\<^sup>* ?st z"
    and last: "\<And>y. mem_advance alist_env demo_shards z y \<Longrightarrow> \<not> (mem_advance alist_env demo_shards)\<^sup>*\<^sup>* ?st y"
    by (rule wfE_min [OF ret [of ?st, THEN conjunct1], of ?st "{st. (mem_advance alist_env demo_shards)\<^sup>*\<^sup>* ?st st}"]) auto
  have "\<forall>y. \<not> mem_advance alist_env demo_shards z y"
    using last rtranclp.rtrancl_into_rtrancl [OF z] by metis
  with ret [of z] z show ?thesis by metis
qed

end
