(* ===== verification/Mem_Linear.thy ===== *)
theory Mem_Linear
  imports Mem_Concurrent
begin

text \<open>
  When the in-memory backend behaves like the waiting room under concurrency: calls interleaved
  statement by statement, where no two calls under one name and no sweep and other call overlap.
  The proof is in the style of rely and guarantee: a call relies on nobody touching its name and
  its fresh identifier, and guarantees to touch nothing else; under that each call takes effect
  at a single one of its statements. The lemmas show that every such run is linearizable and
  that the two maps stay coherent.
\<close>

subsection \<open>Calls that stay apart\<close>

text \<open>The name a call is about (a sweep is about all of them) and the identifier it may issue.\<close>

fun call_name :: "thread \<Rightarrow> rust_string option" where
  "call_name (Registering n i rtok sp pc) = Some n"
| "call_name (Unregistering n token pc) = Some n"
| "call_name (Sweeping now pc) = None"

fun fresh_id :: "thread \<Rightarrow> uuid option" where
  "fresh_id (Registering n i rtok sp pc) = Some (new_v4 sp)"
| "fresh_id _ = None"

text \<open>The names a call works on until it returns.\<close>

definition covers :: "thread \<Rightarrow> rust_string \<Rightarrow> bool" where
  "covers th n \<longleftrightarrow> \<not> finished th \<and> pred_option ((=) n) (call_name th)"

definition apart :: "thread \<Rightarrow> thread \<Rightarrow> bool" where
  "apart th th' \<longleftrightarrow> finished th \<or> finished th' \<or>
     call_name th \<noteq> None \<and> call_name th' \<noteq> None \<and> call_name th \<noteq> call_name th' \<and>
     (fresh_id th = None \<or> fresh_id th \<noteq> fresh_id th')"

text \<open>The caller of \<open>unregister\<close> is the client that waits under the name, if one does.\<close>

fun owner :: "('p, 't) mem_env \<Rightarrow> ('p, 't) in_memory_registry \<Rightarrow> thread \<Rightarrow> bool" where
  "owner E reg (Unregistering n token pc) \<longleftrightarrow> pred_option (\<lambda>e. entry_token e = token) (mem_entry E reg n)"
| "owner E reg _ \<longleftrightarrow> True"

text \<open>
  Runs in which a call begins only while no unfinished call is about its name; its channel and
  its identifier are fresh. With \<open>own\<close>, clients unregister their own registrations only.
\<close>

inductive apart_run ::
    "bool \<Rightarrow> ('p, 't) mem_env \<Rightarrow> shards \<Rightarrow> ('p, 't) mem_system \<Rightarrow> ('p, 't) mem_system \<Rightarrow> bool" for own E S st where
  start: "apart_run own E S st st"
| step: "apart_run own E S st st' \<Longrightarrow> mem_advance E S st' st'' \<Longrightarrow> apart_run own E S st st''"
| call: "apart_run own E S st st' \<Longrightarrow> begins th \<Longrightarrow> set_mset (thread_chans th) \<inter> set_mset (system_chans E st') = {} \<Longrightarrow>
    pred_option (\<lambda>t. mem_token E (shared st') t = None) (fresh_id th) \<Longrightarrow> list_all (apart th) (threads st') \<Longrightarrow>
    (own \<longrightarrow> owner E (shared st') th) \<Longrightarrow> apart_run own E S st (st'\<lparr>threads := threads st' @ [th]\<rparr>)"

lemma apart_run_mem_run: "apart_run own E S st st' \<Longrightarrow> mem_run E S st st'"
  by (induction rule: apart_run.induct) (rule mem_run.start, erule (1) mem_run.step, erule (2) mem_run.call)

subsection \<open>What a call relies on\<close>

text \<open>
  The tokens of a name. A name nobody works on is settled: its entry can be notified and is known
  by its token; with \<open>own\<close>, that is the only token of the name, and a name without entry has none.
\<close>

definition owned :: "('p, 't) mem_env \<Rightarrow> ('p, 't) in_memory_registry \<Rightarrow> rust_string \<Rightarrow> uuid set" where
  "owned E reg n = {t. mem_token E reg t = Some n}"

definition settled :: "bool \<Rightarrow> pairing_entry option \<Rightarrow> uuid set \<Rightarrow> bool" where
  "settled own x T \<longleftrightarrow>
     (case x of
        None \<Rightarrow> own \<longrightarrow> T = {}
      | Some e \<Rightarrow> notify_tx e \<noteq> None \<and> entry_token e \<in> T \<and> (own \<longrightarrow> T = {entry_token e}))"

lemma settled_None: "settled own None T \<longleftrightarrow> (own \<longrightarrow> T = {})"
  by (simp add: settled_def)

abbreviation name_settled where
  "name_settled own E reg n \<equiv> settled own (mem_entry E reg n) (owned E reg n)"

text \<open>An entry that was taken out of the map and whose token is about to be removed.\<close>

definition leaving :: "bool \<Rightarrow> pairing_entry option \<Rightarrow> uuid set \<Rightarrow> pairing_entry \<Rightarrow> bool" where
  "leaving own x T e \<longleftrightarrow> x = None \<and> notify_tx e \<noteq> None \<and> entry_token e \<in> T \<and> (own \<longrightarrow> T = {entry_token e})"

text \<open>What holds of the maps when a call is at one of its statements.\<close>

fun on_track :: "bool \<Rightarrow> ('p, 't) mem_env \<Rightarrow> ('p, 't) in_memory_registry \<Rightarrow> thread \<Rightarrow> bool" where
  "on_track own E reg (Registering n i rtok sp pc) \<longleftrightarrow>
     (case pc of
        RGet \<Rightarrow> name_settled own E reg n \<and> mem_token E reg (new_v4 sp) = None
      | RGetMut t \<Rightarrow> name_settled own E reg n \<and> mem_token E reg (new_v4 sp) = None \<and> rtok = Some t
      | RRemove \<Rightarrow> name_settled own E reg n \<and> mem_token E reg (new_v4 sp) = None \<and>
          pred_option (\<lambda>e. rtok \<noteq> Some (entry_token e)) (mem_entry E reg n)
      | RNotify e \<Rightarrow> leaving own (mem_entry E reg n) (owned E reg n) e
      | RForget e \<Rightarrow> leaving own (mem_entry E reg n) (owned E reg n) e
      | RInsert \<Rightarrow> mem_entry E reg n = None \<and> (own \<longrightarrow> owned E reg n = {}) \<and> mem_token E reg (new_v4 sp) = None
      | RIssue \<Rightarrow> (\<exists>e. mem_entry E reg n = Some e \<and> notify_tx e \<noteq> None \<and> entry_token e = new_v4 sp) \<and>
          (own \<longrightarrow> owned E reg n = {}) \<and> mem_token E reg (new_v4 sp) = None
      | RDone r \<Rightarrow> True)"
| "on_track own E reg (Unregistering n t pc) \<longleftrightarrow>
     (case pc of
        URemove \<Rightarrow> name_settled own E reg n \<and> (own \<longrightarrow> owner E reg (Unregistering n t pc))
      | UForget e \<Rightarrow> leaving own (mem_entry E reg n) (owned E reg n) e \<and> entry_token e = t
      | UDone \<Rightarrow> True)"
| "on_track own E reg (Sweeping now pc) \<longleftrightarrow>
     (case pc of
        SForget k n e ns c \<Rightarrow> (\<forall>m. name_settled own E reg m) \<and> mem_entry E reg n = Some e
      | SErase k n ns c \<Rightarrow> (\<forall>m. m \<noteq> n \<longrightarrow> name_settled own E reg m) \<and>
          (\<exists>e. mem_entry E reg n = Some e \<and> notify_tx e \<noteq> None) \<and> (own \<longrightarrow> owned E reg n = {})
      | SDone c \<Rightarrow> True
      | _ \<Rightarrow> \<forall>m. name_settled own E reg m)"

text \<open>A step changes nothing but the names its call covers, and issues nothing but its own identifier.\<close>

definition guarantee ::
    "('p, 't) mem_env \<Rightarrow> thread \<Rightarrow> ('p, 't) in_memory_registry \<Rightarrow> ('p, 't) in_memory_registry \<Rightarrow> bool" where
  "guarantee E th reg reg' \<longleftrightarrow>
     (\<forall>m. \<not> covers th m \<longrightarrow> mem_entry E reg' m = mem_entry E reg m \<and> owned E reg' m = owned E reg m) \<and>
     (\<forall>t. mem_token E reg t = None \<longrightarrow> fresh_id th \<noteq> Some t \<longrightarrow> mem_token E reg' t = None)"

lemma on_track_stable:
  assumes "guarantee E th reg reg'" and "apart th' th" and "\<not> finished th" and "on_track own E reg th'"
  shows "on_track own E reg' th'"
proof (cases "finished th'")
  case True
  then show ?thesis
    by (cases th') (auto split: register_pc.splits unregister_pc.splits cleanup_pc.splits)
next
  case False
  then obtain n where n: "call_name th' = Some n" "call_name th \<noteq> Some n" "call_name th \<noteq> None"
    and id: "fresh_id th' = None \<or> fresh_id th \<noteq> fresh_id th'"
    using assms(2,3) by (auto simp: apart_def)
  then have "\<not> covers th n" by (auto simp: covers_def)
  then have same: "mem_entry E reg' n = mem_entry E reg n" "owned E reg' n = owned E reg n"
    using assms(1) unfolding guarantee_def by blast+
  have free: "mem_token E reg' t = None" if "fresh_id th' = Some t" "mem_token E reg t = None" for t
    using assms(1) id that by (auto simp: guarantee_def)
  show ?thesis
    using assms(4) n(1) same free
    by (cases th') (auto split: register_pc.splits unregister_pc.splits)
qed

context mem_backend
begin

lemma maps_apart [simp]:
  "mem_entry E (reg\<lparr>tokens := ts\<rparr>) n = mem_entry E reg n"
  "mem_token E (reg\<lparr>pairings := ps\<rparr>) t = mem_token E reg t"
  "owned E (reg\<lparr>pairings := ps\<rparr>) n = owned E reg n"
  by (simp_all add: mem_entry_def mem_token_def owned_def)

lemma token_removed [simp]:
  "mem_token E (reg\<lparr>tokens := snd (dm_remove (tokens_map E) t (tokens reg))\<rparr>) u = (if u = t then None else mem_token E reg u)"
  by (simp add: map_laws)

lemma token_inserted [simp]:
  "mem_token E (reg\<lparr>tokens := dm_insert (tokens_map E) t n (tokens reg)\<rparr>) u = (if u = t then Some n else mem_token E reg u)"
  by (simp add: map_laws)

lemma entry_inserted [simp]:
  "mem_entry E (reg\<lparr>pairings := dm_insert (pairings_map E) n e (pairings reg)\<rparr>) m = (if m = n then Some e else mem_entry E reg m)"
  by (simp add: map_laws)

lemma entry_altered [simp]:
  "mem_entry E (reg\<lparr>pairings := dm_alter (pairings_map E) n f (pairings reg)\<rparr>) m =
     (if m = n then map_option f (mem_entry E reg n) else mem_entry E reg m)"
  by (simp add: map_laws)

lemma owned_removed:
  "t \<in> owned E reg n \<Longrightarrow> owned E (reg\<lparr>tokens := snd (dm_remove (tokens_map E) t (tokens reg))\<rparr>) m =
     (if m = n then owned E reg n - {t} else owned E reg m)"
  by (auto simp: owned_def)

lemma owned_inserted:
  "mem_token E reg t = None \<Longrightarrow> owned E (reg\<lparr>tokens := dm_insert (tokens_map E) t n (tokens reg)\<rparr>) m =
     (if m = n then insert t (owned E reg n) else owned E reg m)"
  by (auto simp: owned_def)

lemma register_on_track:
  assumes step: "register_step E n i rtok sp pc reg = (pc', reg', ev)" and go: "\<not> finished (Registering n i rtok sp pc)"
    and ok: "on_track own E reg (Registering n i rtok sp pc)"
  shows "on_track own E reg' (Registering n i rtok sp pc') \<and>
    (finished (Registering n i rtok sp pc') \<longrightarrow> name_settled own E reg' n) \<and>
    guarantee E (Registering n i rtok sp pc) reg reg'"
proof (cases pc)
  case RGet
  then show ?thesis
    using step ok
    by (auto simp: guarantee_def settled_def owned_def mem_token_def split: option.splits)
next
  case (RGetMut t)
  then show ?thesis
    using step ok
    by (auto simp: guarantee_def settled_def covers_def mem_entry_def [symmetric] split: option.splits if_splits)
next
  case RRemove
  then show ?thesis
    using step ok by (cases rule: removed_obtain [of n reg], cases "mem_entry E reg n")
      (auto simp: guarantee_def settled_def leaving_def covers_def)
next
  case (RNotify e)
  then show ?thesis using step ok by (auto simp: guarantee_def)
next
  case (RForget e)
  then have "entry_token e \<in> owned E reg n" using ok by (simp add: leaving_def)
  note gone = owned_removed [OF this]
  show ?thesis
    using RForget step ok by (auto simp: guarantee_def settled_def leaving_def covers_def gone)
next
  case RInsert
  then show ?thesis using step ok by (auto simp: guarantee_def covers_def)
next
  case RIssue
  then show ?thesis using step ok by (auto simp: guarantee_def settled_def covers_def owned_inserted)
qed (use go in simp)

lemma unregister_on_track:
  assumes step: "unregister_step E n t pc reg = (pc', reg', ev)" and go: "\<not> finished (Unregistering n t pc)"
    and ok: "on_track own E reg (Unregistering n t pc)"
  shows "on_track own E reg' (Unregistering n t pc') \<and>
    (finished (Unregistering n t pc') \<longrightarrow> name_settled own E reg' n) \<and>
    guarantee E (Unregistering n t pc) reg reg'"
proof (cases pc)
  case URemove
  then show ?thesis
    using step ok by (cases rule: removed_obtain [of n reg], cases "mem_entry E reg n")
      (auto simp: guarantee_def settled_def leaving_def covers_def split: if_splits)
next
  case (UForget e)
  then have t: "t = entry_token e" "entry_token e \<in> owned E reg n" using ok by (auto simp: leaving_def)
  note gone = owned_removed [OF t(2)]
  show ?thesis
    using UForget step ok by (auto simp: guarantee_def settled_def leaving_def covers_def t(1) gone)
qed (use go in simp)

lemma cleanup_on_track:
  assumes step: "cleanup_step E S now pc reg = (pc', reg', ev)" and go: "\<not> finished (Sweeping now pc)"
    and ok: "on_track own E reg (Sweeping now pc)"
  shows "on_track own E reg' (Sweeping now pc') \<and>
    (finished (Sweeping now pc') \<longrightarrow> (\<forall>n. name_settled own E reg' n)) \<and> guarantee E (Sweeping now pc) reg reg'"
proof (cases pc)
  case (SShard k c)
  then show ?thesis using step ok by (auto simp: guarantee_def)
next
  case (SVisit k ns c)
  then show ?thesis
    using step ok by (cases ns) (auto simp: guarantee_def mem_entry_def split: option.splits if_splits)
next
  case (SForget k n e ns c)
  then have ok: "\<forall>m. name_settled own E reg m" "mem_entry E reg n = Some e" using ok by simp_all
  have e: "entry_token e \<in> owned E reg n" "notify_tx e \<noteq> None" "own \<longrightarrow> owned E reg n = {entry_token e}"
    using ok(1) [rule_format, of n] by (auto simp: settled_def ok(2))
  note gone = owned_removed [OF e(1)]
  show ?thesis
    using step SForget ok e by (auto simp: guarantee_def covers_def gone)
next
  case (SErase k n ns c)
  then show ?thesis
    using step ok by (cases rule: removed_obtain [of n reg])
      (auto simp: guarantee_def covers_def settled_None)
qed (use go in simp)

lemma thread_on_track:
  assumes step: "thread_step E S th reg = (th', reg', ev)" and go: "\<not> finished th" and ok: "on_track own E reg th"
  shows "on_track own E reg' th'" and "finished th' \<Longrightarrow> covers th n \<Longrightarrow> name_settled own E reg' n"
    and "guarantee E th reg reg'" and "call_name th' = call_name th" and "fresh_id th' = fresh_id th"
proof -
  show "on_track own E reg' th'" and "finished th' \<Longrightarrow> covers th n \<Longrightarrow> name_settled own E reg' n"
    and "guarantee E th reg reg'"
    using step
    by (cases rule: thread_step_cases; use go ok in \<open>force simp: covers_def
        dest: register_on_track unregister_on_track cleanup_on_track\<close>)+
  show "call_name th' = call_name th" and "fresh_id th' = fresh_id th"
    using step by (cases rule: thread_step_cases; simp)+
qed

end

subsection \<open>Linearization\<close>

text \<open>
  The operations a history has performed for clients, and those a call has performed so far: a
  call takes effect when it takes an entry out, puts one in or rewrites one, and from then on
  its result is decided.
\<close>

definition client_calls :: "reg_step list \<Rightarrow> (reg_op \<times> registration_result option) multiset" where
  "client_calls H = image_mset (\<lambda>(opn, r, ev). (opn, r)) {#(opn, r, ev) \<in># mset H. \<forall>ns. opn \<noteq> OpExpire ns#}"

fun effect :: "thread \<Rightarrow> (reg_op \<times> registration_result option) multiset" where
  "effect (Registering n i rtok sp pc) =
     image_mset (\<lambda>r. (OpRegister n i rtok sp, Some r))
       (case pc of
          RNotify e \<Rightarrow> {#RPaired (new_v4 sp) (connection_info (waiting_client e))#}
        | RForget e \<Rightarrow> {#RPaired (new_v4 sp) (connection_info (waiting_client e))#}
        | RIssue \<Rightarrow> {#RWaiting (new_v4 sp) (new_chan sp)#}
        | RDone r \<Rightarrow> {#r#}
        | _ \<Rightarrow> {#})"
| "effect (Unregistering n t pc) = (case pc of URemove \<Rightarrow> {#} | _ \<Rightarrow> {#(OpUnregister n t, None)#})"
| "effect (Sweeping now pc) = {#}"

text \<open>What a call that has taken effect still has to do to channels.\<close>

fun owed :: "thread \<Rightarrow> reg_event multiset" where
  "owed (Registering n i rtok sp (RNotify e)) = mset (send_tx (notify_tx e) i)"
| "owed (Unregistering n t (UForget e)) = mset (drop_tx (notify_tx e))"
| "owed _ = {#}"

definition linearizes :: "('p, 't) mem_env \<Rightarrow> reg_step list \<Rightarrow> ('p, 't) mem_system \<Rightarrow> bool" where
  "linearizes E H st \<longleftrightarrow>
     room_history H (mem_room E (shared st)) \<and>
     client_calls H = sum_list (map effect (threads st)) \<and>
     mset (history_events H) = mset (chan_log st) + sum_list (map owed (threads st))"

lemma client_calls_simps [simp]:
  "client_calls [] = {#}" "client_calls (H @ H') = client_calls H + client_calls H'"
  "client_calls [(OpRegister n i rtok sp, r, ev)] = {#(OpRegister n i rtok sp, r)#}"
  "client_calls [(OpUnregister n t, r, ev)] = {#(OpUnregister n t, r)#}"
  "client_calls [(OpExpire ns, r, ev)] = {#}"
  by (simp_all add: client_calls_def)

lemma history_events_append [simp]:
  "history_events [] = []" "history_events [(opn, r, ev)] = ev"
  "history_events (H @ H') = history_events H @ history_events H'"
  by (simp_all add: history_events_def)

text \<open>One step of a call is at most one operation of the waiting room.\<close>

definition one_op :: "room \<Rightarrow> room \<Rightarrow> reg_step list \<Rightarrow> bool" where
  "one_op R R' Hs \<longleftrightarrow> Hs = [] \<and> R' = R \<or> (\<exists>opn r ev. Hs = [(opn, r, ev)] \<and> room_op opn R = (r, R', ev))"

lemma one_op_history: "one_op R R' Hs \<Longrightarrow> room_history H R \<Longrightarrow> room_history (H @ Hs) R'"
  by (auto simp: one_op_def intro: room_history.step)

definition simulated :: "thread \<Rightarrow> thread \<Rightarrow> room \<Rightarrow> room \<Rightarrow> reg_event list \<Rightarrow> reg_step list \<Rightarrow> bool" where
  "simulated th th' R R' ev Hs \<longleftrightarrow> one_op R R' Hs \<and> effect th' = effect th + client_calls Hs \<and>
     mset (history_events Hs) + owed th = mset ev + owed th'"

lemma simulated_idle:
  "R' = R \<Longrightarrow> effect th' = effect th \<Longrightarrow> owed th = mset ev + owed th' \<Longrightarrow> \<exists>Hs. simulated th th' R R' ev Hs"
  by (intro exI [of _ "[]"]) (simp add: simulated_def one_op_def)

lemma simulated_op:
  "room_op opn R = (r, R', ev') \<Longrightarrow> effect th' = effect th + client_calls [(opn, r, ev')] \<Longrightarrow>
   mset ev' + owed th = mset ev + owed th' \<Longrightarrow> \<exists>Hs. simulated th th' R R' ev Hs"
  by (intro exI [of _ "[(opn, r, ev')]"]) (simp add: simulated_def one_op_def)

context mem_backend
begin

lemma room_same: "(\<And>m. mem_entry E reg' m = mem_entry E reg m) \<Longrightarrow> mem_room E reg' = mem_room E reg"
  by (simp add: mem_room_def fun_eq_iff)

lemma register_simulated:
  assumes step: "register_step E n i rtok sp pc reg = (pc', reg', ev)" and go: "\<not> finished (Registering n i rtok sp pc)"
    and ok: "on_track own E reg (Registering n i rtok sp pc)"
  shows "\<exists>Hs. simulated (Registering n i rtok sp pc) (Registering n i rtok sp pc') (mem_room E reg) (mem_room E reg') ev Hs"
proof (cases pc)
  case (RGetMut t)
  show ?thesis
  proof (cases "\<exists>e. mem_entry E reg n = Some e \<and> entry_token e = t")
    case True
    then obtain e c where e: "mem_entry E reg n = Some e" "entry_token e = t" "notify_tx e = Some c" "rtok = Some t"
      using ok RGetMut by (auto simp: settled_def)
    show ?thesis
      by (rule simulated_op [of "OpRegister n i rtok sp" _ "Some (RResumed t (new_chan sp))" _ "[ChanDrop c]"])
        (use step RGetMut e in \<open>auto simp: mem_entry_def [symmetric] room_register_def mem_room_def mem_slot_def
          unwrap_or_def drop_tx_def fun_eq_iff\<close>)
  next
    case False
    then show ?thesis
      using step RGetMut by (intro simulated_idle) (auto simp: mem_entry_def split: option.splits if_splits)
  qed
next
  case RRemove
  show ?thesis
  proof (cases "mem_entry E reg n")
    case None
    then show ?thesis
      using step RRemove by (cases rule: removed_obtain [of n reg])
        (intro simulated_idle room_same, auto)
  next
    case (Some e)
    then obtain c where e: "notify_tx e = Some c" "rtok \<noteq> Some (entry_token e)"
      using ok RRemove by (auto simp: settled_def)
    show ?thesis
      by (rule simulated_op [of "OpRegister n i rtok sp" _ "Some (RPaired (new_v4 sp) (connection_info (waiting_client e)))"
            _ "[ChanSend c i]"]; cases rule: removed_obtain [of n reg])
        (use step RRemove Some e in \<open>auto simp: room_register_def mem_room_def mem_slot_def
          unwrap_or_def send_tx_def fun_eq_iff\<close>)
  qed
next
  case RInsert
  then show ?thesis
    using step ok
    by (intro simulated_op [of "OpRegister n i rtok sp" _ "Some (RWaiting (new_v4 sp) (new_chan sp))" _ "[]"])
      (auto simp: mem_entry_def [symmetric] replaced_def room_register_def mem_room_def mem_slot_def unwrap_or_def fun_eq_iff)
qed (use step go in \<open>auto intro!: simulated_idle room_same split: option.splits\<close>)

lemma unregister_simulated:
  assumes step: "unregister_step E n t pc reg = (pc', reg', ev)" and go: "\<not> finished (Unregistering n t pc)"
    and ok: "on_track own E reg (Unregistering n t pc)"
  shows "\<exists>Hs. simulated (Unregistering n t pc) (Unregistering n t pc') (mem_room E reg) (mem_room E reg') ev Hs"
proof (cases pc)
  case URemove
  obtain ps where rm: "dm_remove (pairings_map E) n (pairings reg) = (map_option (Pair n) (mem_entry E reg n), ps)"
    and ps: "snd (dm_remove (pairings_map E) n (pairings reg)) = ps"
    by (rule remove_obtain)
  have entry: "mem_entry E (reg\<lparr>pairings := ps\<rparr>) m = (if m = n then None else mem_entry E reg m)" for m
    unfolding ps [symmetric] by (simp add: map_laws)
  have "reg' = reg\<lparr>pairings := ps\<rparr>"
    using step URemove by (cases "mem_entry E reg n") (auto simp: rm split: if_splits)
  then have room: "room_op (OpUnregister n t) (mem_room E reg) =
      (None, mem_room E reg', case mem_entry E reg n of None \<Rightarrow> [] | Some e \<Rightarrow> drop_tx (notify_tx e))"
    using ok URemove entry
    by (auto simp: room_unregister_def mem_room_def mem_slot_def unwrap_or_def drop_tx_def settled_def fun_eq_iff
        split: option.splits)
  show ?thesis
    by (rule simulated_op [OF room]; use step URemove rm in \<open>cases "mem_entry E reg n"; auto split: if_splits\<close>)
qed (use step go in \<open>auto intro!: simulated_idle room_same\<close>)

lemma cleanup_simulated:
  assumes step: "cleanup_step E S now pc reg = (pc', reg', ev)" and go: "\<not> finished (Sweeping now pc)"
    and ok: "on_track own E reg (Sweeping now pc)"
  shows "\<exists>Hs. simulated (Sweeping now pc) (Sweeping now pc') (mem_room E reg) (mem_room E reg') ev Hs"
proof (cases pc)
  case (SErase k n ns c)
  then obtain e d where e: "mem_entry E reg n = Some e" "notify_tx e = Some d" using ok by auto
  show ?thesis
    by (rule simulated_op [of "OpExpire [n]" _ None _ "[ChanDrop d]"]; cases rule: removed_obtain [of n reg])
      (use step SErase e in \<open>auto simp: room_unregister_def mem_room_def mem_slot_def unwrap_or_def drop_tx_def
        replaced_def fun_eq_iff\<close>)
next
  case (SVisit k ns c)
  then show ?thesis
    using step by (cases ns) (auto intro!: simulated_idle split: option.splits)
qed (use step go in \<open>auto intro!: simulated_idle room_same\<close>)

lemma thread_simulated:
  assumes step: "thread_step E S th reg = (th', reg', ev)" and go: "\<not> finished th" and ok: "on_track own E reg th"
  shows "\<exists>Hs. simulated th th' (mem_room E reg) (mem_room E reg') ev Hs"
  using step
proof (cases rule: thread_step_cases)
  case (Register n i rtok sp pc pc')
  show ?thesis using register_simulated [OF Register(3)] go ok unfolding Register(1,2) by blast
next
  case (Unregister n t pc pc')
  show ?thesis using unregister_simulated [OF Unregister(3)] go ok unfolding Unregister(1,2) by blast
next
  case (Sweep now pc pc')
  show ?thesis using cleanup_simulated [OF Sweep(3)] go ok unfolding Sweep(1,2) by blast
qed

end

subsection \<open>All calls together\<close>

text \<open>Every call is on track, no two get in each other's way, and the other names are settled.\<close>

definition on_course :: "bool \<Rightarrow> ('p, 't) mem_env \<Rightarrow> ('p, 't) mem_system \<Rightarrow> bool" where
  "on_course own E st \<longleftrightarrow>
     (\<forall>th\<in>set (threads st). on_track own E (shared st) th) \<and>
     (\<forall>i j. i < length (threads st) \<longrightarrow> j < length (threads st) \<longrightarrow> i \<noteq> j \<longrightarrow> apart (threads st ! i) (threads st ! j)) \<and>
     (\<forall>n. (\<forall>th\<in>set (threads st). \<not> covers th n) \<longrightarrow> name_settled own E (shared st) n)"

lemma apart_sym: "apart th th' \<Longrightarrow> apart th' th"
  by (auto simp: apart_def)

lemma apart_covers: "apart th th' \<Longrightarrow> covers th n \<Longrightarrow> \<not> covers th' n"
  by (auto simp: apart_def covers_def)

lemma apart_next:
  "call_name th' = call_name th \<Longrightarrow> fresh_id th' = fresh_id th \<Longrightarrow> \<not> finished th \<Longrightarrow> apart th x \<Longrightarrow> apart th' x"
  by (auto simp: apart_def)

lemma sum_map_update:
  fixes f :: "'a \<Rightarrow> 'b multiset"
  assumes "i < length xs"
  shows "sum_list (map f (xs[i := y])) + f (xs ! i) = sum_list (map f xs) + f y"
proof -
  have "sum_list (map f xs) = sum_list (map f (take i xs)) + (f (xs ! i) + sum_list (map f (drop (Suc i) xs)))"
    using assms by (subst id_take_nth_drop [OF assms]) simp
  then show ?thesis using assms by (simp add: upd_conv_take_nth_drop ac_simps)
qed

lemma owed_balance:
  fixes l :: "'b multiset"
  assumes "h = l + q" and "e + p = v + p'" and "q' + p = q + p'"
  shows "h + e = (l + v) + q'"
proof -
  have "h + e + p = l + q + (e + p)" by (simp add: assms(1))
  also have "\<dots> = (q + p') + (l + v)" by (simp only: assms(2)) (simp only: ac_simps)
  also have "\<dots> = (l + v) + q' + p" by (simp only: assms(3) [symmetric]) (simp only: ac_simps)
  finally show ?thesis by (rule add_right_imp_eq)
qed

context mem_backend
begin

lemma step_on_course:
  assumes on: "on_course own E st" and step: "thread_step E S (threads st ! k) (shared st) = (th', reg', ev)"
    and k: "k < length (threads st)" and go: "\<not> finished (threads st ! k)"
  shows "on_course own E \<lparr>shared = reg', threads = (threads st)[k := th'], chan_log = lg\<rparr>"
proof -
  let ?th = "threads st ! k" and ?ts = "(threads st)[k := th']"
  have ok: "on_track own E (shared st) ?th" using on k by (simp add: on_course_def)
  note one = thread_on_track [OF step go ok]
  have old: "apart (threads st ! i) (threads st ! j)" if "i < length (threads st)" "j < length (threads st)" "i \<noteq> j" for i j
    using on that by (simp add: on_course_def)
  note others = old [OF k _ not_sym]
  have track: "on_track own E reg' (?ts ! j)" if j: "j < length (threads st)" for j
  proof (cases "j = k")
    case False
    have "on_track own E (shared st) (threads st ! j)" using on j by (simp add: on_course_def)
    with False show ?thesis using on_track_stable [OF one(3) apart_sym [OF others [OF j False]] go] by simp
  qed (use one(1) k in simp)
  have new: "apart th' (threads st ! j)" if "j < length (threads st)" "j \<noteq> k" for j
    using apart_next [OF one(4,5) go others [OF that]] .
  have pair: "apart (?ts ! i) (?ts ! j)" if "i < length (threads st)" "j < length (threads st)" "i \<noteq> j" for i j
  proof -
    consider "i = k" "j \<noteq> k" | "i \<noteq> k" "j = k" | "i \<noteq> k" "j \<noteq> k" using \<open>i \<noteq> j\<close> by blast
    then show ?thesis
      by cases (use k new [OF that(2)] apart_sym [OF new [OF that(1)]] old [OF that] in simp_all)
  qed
  have "name_settled own E reg' n" if quiet: "\<forall>th\<in>set ?ts. \<not> covers th n" for n
  proof (cases "covers ?th n")
    case True
    have "\<not> covers th' n" using quiet k by (simp add: set_update_memI)
    then have "finished th'" using True by (simp add: covers_def one(4))
    then show ?thesis by (rule one(2)) (rule True)
  next
    case False
    have "\<not> covers th n" if "th \<in> set (threads st)" for th
    proof -
      obtain j where j: "j < length (threads st)" "th = threads st ! j" using \<open>th \<in> set (threads st)\<close> by (auto simp: in_set_conv_nth)
      show ?thesis
        using False quiet j nth_mem [of j ?ts] by (cases "j = k") auto
    qed
    then have "name_settled own E (shared st) n" using on by (simp add: on_course_def)
    with False one(3) show ?thesis by (simp add: guarantee_def)
  qed
  with track pair show ?thesis by (auto simp: on_course_def in_set_conv_nth)
qed

lemma begins_effect: "begins th \<Longrightarrow> effect th = {#} \<and> owed th = {#}"
  by (cases th) auto

lemma call_on_course:
  assumes on: "on_course own E st" and th: "begins th" "pred_option (\<lambda>t. mem_token E (shared st) t = None) (fresh_id th)"
    "list_all (apart th) (threads st)" "own \<longrightarrow> owner E (shared st) th"
  shows "on_course own E (st\<lparr>threads := threads st @ [th]\<rparr>)"
proof -
  have cov: "name_settled own E (shared st) n" if "covers th n" for n
    using on th(3) apart_covers [OF _ that] by (auto simp: on_course_def list_all_iff)
  have "on_track own E (shared st) th"
    using th cov by (cases th) (auto simp: covers_def)
  moreover have "apart (threads st ! i) th" if "i < length (threads st)" for i
    using th(3) that apart_sym by (simp add: list_all_length)
  ultimately show ?thesis
    using on th(3) by (auto simp: on_course_def nth_append list_all_length less_Suc_eq)
qed

lemma simulated_linearizes:
  assumes lin: "linearizes E H st"
    and sim: "simulated (threads st ! k) th (mem_room E (shared st)) (mem_room E reg) ev Hs" and k: "k < length (threads st)"
  shows "linearizes E (H @ Hs) \<lparr>shared = reg, threads = (threads st)[k := th], chan_log = chan_log st @ ev\<rparr>"
proof -
  have hist: "room_history H (mem_room E (shared st))" "client_calls H = sum_list (map effect (threads st))"
    "mset (history_events H) = mset (chan_log st) + sum_list (map owed (threads st))"
    using lin by (simp_all add: linearizes_def)
  have one: "one_op (mem_room E (shared st)) (mem_room E reg) Hs" "effect th = effect (threads st ! k) + client_calls Hs"
    "mset (history_events Hs) + owed (threads st ! k) = mset ev + owed th"
    using sim by (simp_all add: simulated_def)
  have "client_calls H + client_calls Hs = sum_list (map effect ((threads st)[k := th]))"
    using sum_map_update [OF k, of effect th] hist(2) one(2) by (simp add: ac_simps)
  with owed_balance [OF hist(3) one(3) sum_map_update [OF k]] one_op_history [OF one(1) hist(1)] show ?thesis
    by (simp add: linearizes_def)
qed

lemma apart_run_linearizes:
  assumes "apart_run own E S st st'" and "on_course own E st" and "linearizes E H st"
  shows "on_course own E st' \<and> (\<exists>H'. linearizes E (H @ H') st')"
  using assms(1)
proof (induction rule: apart_run.induct)
  case start
  show ?case using assms(2,3) by (metis append_Nil2)
next
  case (step st' st'')
  from step.hyps(2) show ?case
  proof
    fix k
    assume run: "runnable S (threads st') k" and st'': "st'' = advance E S k st'"
    then have k: "k < length (threads st')" "\<not> finished (threads st' ! k)" by (simp_all add: runnable_def)
    obtain th reg ev where one: "thread_step E S (threads st' ! k) (shared st') = (th, reg, ev)"
      by (cases "thread_step E S (threads st' ! k) (shared st')") auto
    have st'': "st'' = \<lparr>shared = reg, threads = (threads st')[k := th], chan_log = chan_log st' @ ev\<rparr>"
      by (simp add: st'' advance_def one)
    obtain H' where on: "on_course own E st'" and lin: "linearizes E (H @ H') st'" using step.IH by blast
    have ok: "on_track own E (shared st') (threads st' ! k)" using on k by (simp add: on_course_def)
    obtain Hs where sim: "simulated (threads st' ! k) th (mem_room E (shared st')) (mem_room E reg) ev Hs"
      using thread_simulated [OF one k(2) ok] by blast
    have "linearizes E ((H @ H') @ Hs) st''"
      unfolding st'' by (rule simulated_linearizes [OF lin sim k(1)])
    with step_on_course [OF on one k] show ?case unfolding st'' append_assoc by blast
  qed
next
  case (call st' th)
  then obtain H' where on: "on_course own E st'" and lin: "linearizes E (H @ H') st'" by blast
  have "linearizes E (H @ H') (st'\<lparr>threads := threads st' @ [th]\<rparr>)"
    using lin begins_effect [OF call.hyps(2)] by (simp add: linearizes_def)
  with call_on_course [OF on call.hyps(2,4,5,6)] show ?case by blast
qed

lemma new_on_course: "on_course own E (mem_system_new E config)"
  by (simp add: on_course_def mem_system_new_def settled_def owned_def mem_new_def map_laws)

lemma new_linearizes: "linearizes E [] (mem_system_new E config)"
  by (simp add: linearizes_def mem_system_new_def new_ok(3) room_history.empty)

lemma effect_step:
  assumes "thread_step E S th reg = (th', reg', ev)"
  shows "effect th \<subseteq># effect th'"
  using assms
proof (cases rule: thread_step_cases)
  case (Register n i rtok sp pc pc')
  then show ?thesis by (cases pc) (auto split: option.splits)
next
  case (Unregister n t pc pc')
  then show ?thesis by (cases pc) auto
qed simp

text \<open>What a call has done stays done.\<close>

lemma effects_stay:
  assumes "apart_run own E S st st'"
  shows "length (threads st) \<le> length (threads st') \<and>
    sum_list (map effect (threads st)) \<subseteq># sum_list (map effect (take (length (threads st)) (threads st')))"
  using assms
proof (induction rule: apart_run.induct)
  case (step st' st'')
  let ?l = "length (threads st)"
  from step.hyps(2) show ?case
  proof
    fix k
    assume "runnable S (threads st') k" and st'': "st'' = advance E S k st'"
    then have k: "k < length (threads st')" by (simp add: runnable_def)
    obtain th reg ev where one: "thread_step E S (threads st' ! k) (shared st') = (th, reg, ev)"
      by (cases "thread_step E S (threads st' ! k) (shared st')") auto
    have "sum_list (map effect (take ?l (threads st'))) \<subseteq># sum_list (map effect ((take ?l (threads st'))[k := th]))"
    proof (cases "k < ?l")
      case True
      then have "sum_list (map effect ((take ?l (threads st'))[k := th])) + effect (threads st' ! k) =
          sum_list (map effect (take ?l (threads st'))) + effect th"
        using sum_map_update [of k "take ?l (threads st')" effect th] k by simp
      moreover obtain x where "effect th = effect (threads st' ! k) + x"
        using effect_step [OF one] by (metis subset_mset.le_iff_add)
      ultimately show ?thesis by (simp add: ac_simps)
    qed (simp add: list_update_beyond)
    then have "sum_list (map effect (threads st)) \<subseteq># sum_list (map effect ((take ?l (threads st'))[k := th]))"
      by (rule subset_mset.order_trans [OF conjunct2 [OF step.IH]])
    moreover have "threads st'' = (threads st')[k := th]" by (simp add: st'' advance_threads one)
    ultimately show ?thesis using step.IH by (simp add: take_update_swap)
  qed
qed simp_all

lemma apart_run_trans: "apart_run own E S st' st'' \<Longrightarrow> apart_run own E S st st' \<Longrightarrow> apart_run own E S st st''"
  by (induction rule: apart_run.induct) (assumption, metis apart_run.step, metis apart_run.call)

lemma apart_schedule:
  assumes "run_schedule E S is st = Some st'"
  shows "apart_run own E S st st'"
  using run_schedule_run [OF assms]
  by (induction rule: rtranclp_induct) (rule apart_run.start, rule apart_run.step)

text \<open>Two first clients under different names, step by step in turn.\<close>

lemma side_by_side:
  assumes "mem_entry E reg n = None" and "mem_entry E reg m = None" and "n \<noteq> m"
  shows "\<exists>reg'. run_schedule E S [0, 1, 0, 1, 0, 1, 0, 1]
        (calls_on reg [Registering n i None a RGet, Registering m j None b RGet])
      = Some (calls_on reg' [Registering n i None a (RDone (RWaiting (new_v4 a) (new_chan a))),
                             Registering m j None b (RDone (RWaiting (new_v4 b) (new_chan b)))])
    \<and> mem_entry E reg' n = Some (fresh_entry reg i a) \<and> (\<forall>x. x \<noteq> n \<longrightarrow> x \<noteq> m \<longrightarrow> mem_entry E reg' x = mem_entry E reg x)
    \<and> (\<forall>t. mem_token E reg' t = (if t = new_v4 b then Some m else if t = new_v4 a then Some n else mem_token E reg t))"
proof -
  obtain ps where rm: "dm_remove (pairings_map E) n (pairings reg) = (None, ps)"
    and get: "\<And>x. dm_get (pairings_map E) x ps = mem_entry E reg x"
    using remove_obtain [of n reg] assms(1) by (metis mem_entry_def option.map_disc_iff p.get_remove)
  obtain qs where rm': "dm_remove (pairings_map E) m ps = (None, qs)"
    and get': "\<And>x. dm_get (pairings_map E) x qs = mem_entry E reg x"
    using p.remove_eq [of m ps] get assms(2) by (metis option.map_disc_iff p.get_remove)
  show ?thesis
    using assms
    by (simp add: calls_on_def runnable_def advance_def upt_rec rm rm' get' replaced_def drop_tx_def fresh_entry_def map_laws)
qed

text \<open>The second client under one of the names, while the others have returned.\<close>

lemma joins:
  assumes "mem_entry E reg n = Some e" and "notify_tx e = Some c"
  shows "\<exists>reg'. run_schedule E S [2, 2, 2, 2]
        (calls_on reg [Registering n' i' t' a' (RDone r'), Registering n'' i'' t'' a'' (RDone r''), Registering n i None a RGet])
      = Some \<lparr>shared = reg', threads = [Registering n' i' t' a' (RDone r'), Registering n'' i'' t'' a'' (RDone r''),
                Registering n i None a (RDone (RPaired (new_v4 a) (connection_info (waiting_client e))))],
              chan_log = [ChanSend c i]\<rparr>"
proof -
  obtain ps where rm: "dm_remove (pairings_map E) n (pairings reg) = (Some (n, e), ps)"
    by (rule remove_obtain [of n reg]) (simp add: assms(1))
  show ?thesis
    using assms by (simp add: calls_on_def runnable_def advance_def upt_rec rm send_tx_def)
qed

lemma advances_chans: "(mem_advance E S)\<^sup>*\<^sup>* st st' \<Longrightarrow> system_chans E st' \<subseteq># system_chans E st"
  by (induction rule: rtranclp_induct) (blast, metis advance_chans subset_mset.order_trans)

lemma apart_two_calls:
  assumes "new_chan a \<noteq> new_chan b" and "new_v4 a \<noteq> new_v4 b" and "n \<noteq> m"
  shows "apart_run own E S (mem_system_new E config)
    (calls_on (mem_new E config) [Registering n i t a RGet, Registering m j u b RGet])"
proof -
  let ?st = "calls_on (mem_new E config) [Registering n i t a RGet]"
  have free: "mem_token E (mem_new E config) x = None" for x by (simp add: mem_new_def map_laws)
  have st: "(mem_system_new E config)\<lparr>threads := threads (mem_system_new E config) @ [Registering n i t a RGet]\<rparr> = ?st"
    by (simp add: mem_system_new_def calls_on_def)
  have one: "apart_run own E S (mem_system_new E config) ?st"
    unfolding st [symmetric]
    by (rule apart_run.call [OF apart_run.start])
      (simp, simp only: system_chans_new, simp, simp_all add: mem_system_new_def free)
  have "system_chans E ?st = {#new_chan a#}"
    using system_chans_new [of config] by (simp add: system_chans_def mem_system_new_def calls_on_def)
  then have "apart_run own E S (mem_system_new E config) (?st\<lparr>threads := threads ?st @ [Registering m j u b RGet]\<rparr>)"
    using assms free by (intro apart_run.call [OF one]) (simp_all add: calls_on_def apart_def)
  then show ?thesis by (simp add: calls_on_def)
qed

text \<open>Two first clients at the same time, then a second client under the first name.\<close>

lemma three_calls:
  assumes fresh: "distinct [new_chan a, new_chan b, new_chan c]" "distinct [new_v4 a, new_v4 b, new_v4 c]" and nm: "n \<noteq> m"
  shows "\<exists>st1 st2. apart_run own E S (mem_system_new E config) st1 \<and> apart_run own E S st1 st2
    \<and> threads st1 = [Registering n i None a (RDone (RWaiting (new_v4 a) (new_chan a))),
                    Registering m j None b (RDone (RWaiting (new_v4 b) (new_chan b)))]
    \<and> threads st2 = threads st1 @ [Registering n k None c (RDone (RPaired (new_v4 c) i))]
    \<and> chan_log st2 = [ChanSend (new_chan a) k]"
proof -
  let ?reg = "mem_new E config" and ?C = "Registering n k None c RGet"
  let ?st0 = "calls_on ?reg [Registering n i None a RGet, Registering m j None b RGet]"
  have none: "mem_entry E ?reg x = None" "mem_token E ?reg t = None" for x t by (simp_all add: mem_new_def map_laws)
  obtain reg1 where sched1: "run_schedule E S [0, 1, 0, 1, 0, 1, 0, 1] ?st0
      = Some (calls_on reg1 [Registering n i None a (RDone (RWaiting (new_v4 a) (new_chan a))),
                             Registering m j None b (RDone (RWaiting (new_v4 b) (new_chan b)))])"
      (is "_ = Some ?st1")
    and e: "mem_entry E reg1 n = Some (fresh_entry ?reg i a)"
    and tok: "\<forall>t. mem_token E reg1 t = (if t = new_v4 b then Some m else if t = new_v4 a then Some n else mem_token E ?reg t)"
    using side_by_side [OF none(1) none(1) nm] by blast
  have run1: "apart_run own E S (mem_system_new E config) ?st1"
    by (rule apart_run_trans [OF apart_schedule [OF sched1] apart_two_calls]) (use fresh nm in simp_all)
  have "system_chans E ?st0 = {#new_chan a, new_chan b#}"
    using system_chans_new [of config] by (simp add: system_chans_def mem_system_new_def calls_on_def)
  then have "system_chans E ?st1 \<subseteq># {#new_chan a, new_chan b#}"
    using advances_chans [OF run_schedule_run [OF sched1]] by simp
  then have "new_chan c \<notin> set_mset (system_chans E ?st1)"
    using fresh(1) by (auto dest: mset_subset_eqD)
  then have "apart_run own E S ?st1 (?st1\<lparr>threads := threads ?st1 @ [?C]\<rparr>)"
    using fresh(2) by (intro apart_run.call apart_run.start) (auto simp: calls_on_def apart_def tok none(2))
  then have call: "apart_run own E S ?st1 (calls_on reg1 (threads ?st1 @ [?C]))" by (simp add: calls_on_def)
  obtain reg2 where sched2: "run_schedule E S [2, 2, 2, 2] (calls_on reg1 (threads ?st1 @ [?C])) =
      Some \<lparr>shared = reg2, threads = threads ?st1 @ [Registering n k None c (RDone (RPaired (new_v4 c) i))],
            chan_log = [ChanSend (new_chan a) k]\<rparr>"
    using joins [OF e] by (fastforce simp: calls_on_def fresh_entry_def)
  show ?thesis
    using run1 apart_run_trans [OF apart_schedule [OF sched2] call]
    by (intro exI conjI) (assumption, assumption, simp_all add: calls_on_def)
qed

text \<open>Every name has at most one token, whatever its call is about to do.\<close>

lemma settled_single: "settled True x T \<Longrightarrow> \<exists>t. T \<subseteq> {t}"
  by (auto simp: settled_def split: option.splits)

lemma on_track_single:
  assumes "on_track True E reg th" and "covers th n"
  shows "\<exists>t. owned E reg n \<subseteq> {t}"
proof (cases "name_settled True E reg n \<or> owned E reg n = {}")
  case True
  then show ?thesis using settled_single by blast
next
  case False
  with assms show ?thesis
    by (cases th) (auto simp: covers_def leaving_def split: register_pc.splits unregister_pc.splits cleanup_pc.splits,
        metis empty_iff)
qed

lemma on_course_single: "on_course True E st \<Longrightarrow> \<exists>t. owned E (shared st) n \<subseteq> {t}"
  using on_track_single settled_single unfolding on_course_def by metis

lemma on_course_quiet:
  assumes "on_course own E st" and "list_all finished (threads st)"
  shows "name_settled own E (shared st) n"
  using assms by (auto simp: on_course_def list_all_iff covers_def)

lemma settled_coherent:
  assumes "\<And>n. name_settled True E reg n"
  shows "mem_ok E reg" and "mem_tight E reg"
  using assms unfolding mem_ok_iff mem_tight_iff settled_def owned_def
  by (force split: option.splits)+

end

subsection \<open>Properties\<close>

text \<open>
  Claim C11. The in-memory registry is linearizable. Take any run of calls, interleaved statement by
  statement, in which no two calls under the same name and no sweep and other call overlap. At
  every moment there is one sequence of whole operations of the waiting room that explains what
  has happened: it leaves exactly the clients that are in the registry, it contains exactly the
  calls that have taken effect, each once and with the result it returns, and what it did to the
  notification channels is what was done to them, up to what an unfinished call is still about
  to do. Later moments only add operations at the end, and a call that began later is among
  those added.
\<close>

theorem mem_linearizable:
  assumes "mem_backend E" and "apart_run False E S (mem_system_new E config) st1" and "apart_run False E S st1 st2"
  shows "\<exists>H1 H2. linearizes E H1 st1 \<and> linearizes E (H1 @ H2) st2 \<and>
    sum_list (map effect (drop (length (threads st1)) (threads st2))) \<subseteq># client_calls H2"
proof -
  have "on_course False E (mem_system_new E config)" "linearizes E [] (mem_system_new E config)"
    by (rule mem_backend.new_on_course [OF assms(1)], rule mem_backend.new_linearizes [OF assms(1)])
  from mem_backend.apart_run_linearizes [OF assms(1,2) this] obtain H1 where
    on1: "on_course False E st1" and lin1: "linearizes E H1 st1" by auto
  from mem_backend.apart_run_linearizes [OF assms(1,3) this] obtain H2 where lin2: "linearizes E (H1 @ H2) st2" by blast
  let ?l = "length (threads st1)" and ?sum = "\<lambda>ts. sum_list (map effect ts)"
  have "client_calls H1 + client_calls H2 = ?sum (take ?l (threads st2) @ drop ?l (threads st2))"
    using lin2 by (simp add: linearizes_def)
  moreover have "client_calls H1 \<subseteq># ?sum (take ?l (threads st2))"
    using mem_backend.effects_stay [OF assms(1,3)] lin1 by (simp add: linearizes_def)
  ultimately have "?sum (drop ?l (threads st2)) \<subseteq># client_calls H2"
    by (metis (no_types, lifting) map_append mset_subset_eq_mono_add_left_cancel subset_mset.add_right_mono sum_list_append)
  with lin1 lin2 show ?thesis by blast
qed

theorem mem_linearizable_witness:
  "\<exists>st1 st2 H1 H2. apart_run False alist_env demo_shards (mem_system_new alist_env demo_config) st1
     \<and> apart_run False alist_env demo_shards st1 st2 \<and> linearizes alist_env H1 st1 \<and> linearizes alist_env (H1 @ H2) st2
     \<and> (OpRegister demo_name (demo_peer 2) None (demo_runtime 2), Some (RPaired 2 (demo_peer 1))) \<in># client_calls H2
     \<and> chan_log st2 = [ChanSend 1 (demo_peer 2)]"
proof -
  let ?a = "demo_runtime 1" and ?b = "demo_runtime 3" and ?c = "demo_runtime 2"
  have "distinct [new_chan ?a, new_chan ?b, new_chan ?c]" "distinct [new_v4 ?a, new_v4 ?b, new_v4 ?c]" "demo_name \<noteq> str ''den''"
    by (simp_all add: demo_runtime_def str_def)
  from alist_mem.three_calls [OF this, of False demo_shards demo_config "demo_peer 1" "demo_peer 3" "demo_peer 2"]
  obtain st1 st2 where run: "apart_run False alist_env demo_shards (mem_system_new alist_env demo_config) st1"
      "apart_run False alist_env demo_shards st1 st2"
    and len: "length (threads st1) = 2"
    and st2: "threads st2 = threads st1 @ [Registering demo_name (demo_peer 2) None ?c (RDone (RPaired (new_v4 ?c) (demo_peer 1)))]"
      "chan_log st2 = [ChanSend (new_chan ?a) (demo_peer 2)]"
    by auto
  from mem_linearizable [OF alist_mem.mem_backend_axioms run] obtain H1 H2 where
    lin: "linearizes alist_env H1 st1" "linearizes alist_env (H1 @ H2) st2"
    and late: "sum_list (map effect (drop (length (threads st1)) (threads st2))) \<subseteq># client_calls H2" by blast
  have "(OpRegister demo_name (demo_peer 2) None ?c, Some (RPaired 2 (demo_peer 1))) \<in># client_calls H2"
    using late st2(1) by (simp add: demo_runtime_def)
  with run lin st2(2) show ?thesis by (auto simp: demo_runtime_def)
qed

text \<open>
  Claim C23. The token map is bounded. As long as no two calls under the same name and no sweep and
  other call overlap, and every client unregisters its own registration only, there is at every
  moment at most one token for a name; and when no call is under way the two maps are coherent
  and hold equally many elements, one token per waiting client. (Clients that race for a free
  name and a client that unregisters a foreign registration do leave tokens behind.)
\<close>

theorem mem_tokens_bounded:
  assumes "mem_backend E" and "apart_run True E S (mem_system_new E config) st"
  shows "(mem_token E (shared st) t = Some n \<longrightarrow> mem_token E (shared st) u = Some n \<longrightarrow> t = u) \<and>
    (list_all finished (threads st) \<longrightarrow> mem_ok E (shared st) \<and> mem_tight E (shared st) \<and>
       dm_len (tokens_map E) (tokens (shared st)) = mem_active_count E (shared st))"
proof -
  have on: "on_course True E st"
    using mem_backend.apart_run_linearizes [OF assms mem_backend.new_on_course [OF assms(1)] mem_backend.new_linearizes [OF assms(1)]]
    by blast
  from mem_backend.on_course_single [OF assms(1) this, of n] obtain x where "owned E (shared st) n \<subseteq> {x}" by blast
  then have "mem_token E (shared st) v = Some n \<Longrightarrow> v = x" for v by (auto simp: owned_def)
  moreover have "mem_ok E (shared st) \<and> mem_tight E (shared st)" if "list_all finished (threads st)"
    using mem_backend.settled_coherent [OF assms(1) mem_backend.on_course_quiet [OF assms(1) on that]] by blast
  ultimately show ?thesis
    using mem_backend.tight_sizes [OF assms(1)] by (auto simp: mem_active_count_def)
qed

theorem mem_tokens_bounded_witness:
  "\<exists>st. apart_run True alist_env demo_shards (mem_system_new alist_env demo_config) st \<and> length (threads st) = 3
     \<and> mem_ok alist_env (shared st)
     \<and> dm_len (tokens_map alist_env) (tokens (shared st)) = mem_active_count alist_env (shared st)"
proof -
  let ?a = "demo_runtime 1" and ?b = "demo_runtime 3" and ?c = "demo_runtime 2"
  have "distinct [new_chan ?a, new_chan ?b, new_chan ?c]" "distinct [new_v4 ?a, new_v4 ?b, new_v4 ?c]" "demo_name \<noteq> str ''den''"
    by (simp_all add: demo_runtime_def str_def)
  from alist_mem.three_calls [OF this, of True demo_shards demo_config "demo_peer 1" "demo_peer 3" "demo_peer 2"]
  obtain st1 st2 where run: "apart_run True alist_env demo_shards (mem_system_new alist_env demo_config) st1"
      "apart_run True alist_env demo_shards st1 st2" and st2: "list_all finished (threads st2)" "length (threads st2) = 3"
    by auto
  from mem_tokens_bounded [OF alist_mem.mem_backend_axioms alist_mem.apart_run_trans [OF run(2,1)]]
    alist_mem.apart_run_trans [OF run(2,1)] st2 show ?thesis by blast
qed

end
