(* ===== verification/Redis_Concurrent.thy ===== *)
theory Redis_Concurrent
  imports Redis_Registry
begin

text \<open>
  The Redis backend under concurrency: several servers, each with any number of calls in
  progress, send their commands to one store in any order; each single command is atomic, and
  keys may expire in between. A call is a program counter with the locals that matter, and one
  function that performs the next command or the next access to the local map. The lemmas show
  that an uninterrupted call is the operation of \<open>Redis_Registry\<close>, that under every interleaving
  a waiting registration is handed to at most one other client, and which interleavings lose
  a client.
\<close>

subsection \<open>Steps of one call\<close>

datatype redis_pc =
    QGet uuid \<comment> \<open>\<open>GET\<close> of the token\<close>
  | QResume uuid rust_string \<comment> \<open>\<open>SETEX\<close> of the updated entry\<close>
  | QResumeLocal uuid \<comment> \<open>\<open>local_waiters.insert\<close>\<close>
  | QGetdel
  | QDel waiting_client \<comment> \<open>\<open>DEL\<close> of the peer's token\<close>
  | QTake waiting_client \<comment> \<open>\<open>local_waiters.remove\<close>, and \<open>tx.send\<close>\<close>
  | QPublish waiting_client rust_string
  | QSetex rust_string \<comment> \<open>\<open>SETEX\<close> of the entry\<close>
  | QSetexToken \<comment> \<open>\<open>SETEX\<close> of the token\<close>
  | QLocal \<comment> \<open>\<open>local_waiters.insert\<close>\<close>
  | QDone "registry_error + registration_result"

datatype redis_unregister_pc =
    UDel
  | UTake
  | UEnd "registry_error + unit"

text \<open>The sweep: the names it has yet to check and \<open>cleaned\<close>.\<close>

datatype redis_cleanup_pc =
    CList
  | CExists "rust_string list" nat
  | CTake rust_string "rust_string list" nat
  | CDone nat

datatype redis_call =
    RedisRegister rust_string peer_connection_data runtime redis_pc
  | RedisUnregister rust_string uuid redis_unregister_pc
  | RedisCleanup redis_cleanup_pc

type_synonym ('w, 'r, 'pc) redis_next = "'pc \<times> ('w, 'r) redis_state \<times> reg_event list"

text \<open>The \<open>?\<close> after a command and after a conversion: the call ends with the error.\<close>

definition answer ::
    "'w redis_registry \<Rightarrow> (rust_string + 'b) \<times> 'r \<Rightarrow> ('b \<Rightarrow> redis_pc) \<Rightarrow> ('w, 'r, redis_pc) redis_next" where
  "answer reg reply k =
     (case reply of
        (Inl e, st) \<Rightarrow> (QDone (Inl (RedisError e)), (reg, st), [])
      | (Inr v, st) \<Rightarrow> (k v, (reg, st), []))"

definition converted :: "rust_string + 'b \<Rightarrow> ('b \<Rightarrow> redis_pc) \<Rightarrow> redis_pc" where
  "converted x k = (case x of Inl e \<Rightarrow> QDone (Inl (Internal e)) | Inr v \<Rightarrow> k v)"

fun redis_register_step ::
    "('w, 'r) redis_env \<Rightarrow> rust_string \<Rightarrow> peer_connection_data \<Rightarrow> runtime \<Rightarrow> redis_pc
     \<Rightarrow> ('w, 'r) redis_state \<Rightarrow> ('w, 'r, redis_pc) redis_next" where
  "redis_register_step E n i sp (QGet token) (reg, st) =
     answer reg (r_get (redis_cmds E) (token_key (uuid_text E) token) st) (\<lambda>stored_name.
       if stored_name = Some n
       then converted (client_to_json (json E) (redis_waiting reg i token sp)) (QResume token)
       else QGetdel)"
| "redis_register_step E n i sp (QResume token js) (reg, st) =
     answer reg (r_setex (redis_cmds E) (pairing_key n) (ttl_secs (redis_config reg)) js st) (\<lambda>_. QResumeLocal token)"
| "redis_register_step E n i sp (QResumeLocal token) (reg, st) =
     (let (reg', ev) = insert_waiter E n (new_chan sp) reg
      in (QDone (Inr (RResumed token (new_chan sp))), (reg', st), ev))"
| "redis_register_step E n i sp QGetdel (reg, st) =
     answer reg (r_getdel (redis_cmds E) (pairing_key n) st) (\<lambda>existing.
       case existing of
         Some js \<Rightarrow> converted (client_from_json (json E) js) QDel
       | None \<Rightarrow> converted (client_to_json (json E) (redis_waiting reg i (new_v4 sp) sp)) QSetex)"
| "redis_register_step E n i sp (QDel w) (reg, st) =
     answer reg (r_del (redis_cmds E) [token_key (uuid_text E) (reconnect_token w)] st) (\<lambda>_. QTake w)"
| "redis_register_step E n i sp (QTake w) (reg, st) =
     (case dm_remove (waiters_map E) n (local_waiters reg) of
        (Some (_, tx), ws) \<Rightarrow>
          (QDone (Inr (RPaired (new_v4 sp) (connection_info w))), (reg\<lparr>local_waiters := ws\<rparr>, st), [ChanSend tx i])
      | (None, ws) \<Rightarrow>
          (if client_server_id w \<noteq> server_id (redis_config reg)
           then converted (peer_to_json (json E) i) (QPublish w)
           else QDone (Inr (RPaired (new_v4 sp) (connection_info w))),
           (reg\<lparr>local_waiters := ws\<rparr>, st), []))"
| "redis_register_step E n i sp (QPublish w data) (reg, st) =
     answer reg (r_publish (redis_cmds E) (notify_channel n) data st)
       (\<lambda>_. QDone (Inr (RPaired (new_v4 sp) (connection_info w))))"
| "redis_register_step E n i sp (QSetex js) (reg, st) =
     answer reg (r_setex (redis_cmds E) (pairing_key n) (ttl_secs (redis_config reg)) js st) (\<lambda>_. QSetexToken)"
| "redis_register_step E n i sp QSetexToken (reg, st) =
     answer reg (r_setex (redis_cmds E) (token_key (uuid_text E) (new_v4 sp)) (ttl_secs (redis_config reg)) n st)
       (\<lambda>_. QLocal)"
| "redis_register_step E n i sp QLocal (reg, st) =
     (let (reg', ev) = insert_waiter E n (new_chan sp) reg
      in (QDone (Inr (RWaiting (new_v4 sp) (new_chan sp))), (reg', st), ev))"
| "redis_register_step E n i sp (QDone r) (reg, st) = (QDone r, (reg, st), [])"

definition redis_register_start :: "uuid option \<Rightarrow> redis_pc" where
  "redis_register_start rtok = (case rtok of None \<Rightarrow> QGetdel | Some token \<Rightarrow> QGet token)"

fun redis_unregister_step ::
    "('w, 'r) redis_env \<Rightarrow> rust_string \<Rightarrow> uuid \<Rightarrow> redis_unregister_pc
     \<Rightarrow> ('w, 'r) redis_state \<Rightarrow> ('w, 'r, redis_unregister_pc) redis_next" where
  "redis_unregister_step E n token UDel (reg, st) =
     (case r_del (redis_cmds E) [pairing_key n, token_key (uuid_text E) token] st of
        (Inl e, st') \<Rightarrow> (UEnd (Inl (RedisError e)), (reg, st'), [])
      | (Inr _, st') \<Rightarrow> (UTake, (reg, st'), []))"
| "redis_unregister_step E n token UTake (reg, st) =
     (UEnd (Inr ()), (reg\<lparr>local_waiters := snd (dm_remove (waiters_map E) n (local_waiters reg))\<rparr>, st),
      drop_tx (dm_get (waiters_map E) n (local_waiters reg)))"
| "redis_unregister_step E n token (UEnd r) (reg, st) = (UEnd r, (reg, st), [])"

fun redis_cleanup_step ::
    "('w, 'r) redis_env \<Rightarrow> redis_cleanup_pc \<Rightarrow> ('w, 'r) redis_state
     \<Rightarrow> ('w, 'r, redis_cleanup_pc) redis_next" where
  "redis_cleanup_step E CList (reg, st) =
     (CExists (map fst (dm_iter (waiters_map E) (local_waiters reg))) 0, (reg, st), [])"
| "redis_cleanup_step E (CExists [] cleaned) (reg, st) = (CDone cleaned, (reg, st), [])"
| "redis_cleanup_step E (CExists (n # ns) cleaned) (reg, st) =
     (case r_exists (redis_cmds E) (pairing_key n) st of
        (reply, st') \<Rightarrow>
          (if (case reply of Inl _ \<Rightarrow> False | Inr b \<Rightarrow> b) then CExists ns cleaned else CTake n ns cleaned,
           (reg, st'), []))"
| "redis_cleanup_step E (CTake n ns cleaned) (reg, st) =
     (CExists ns (cleaned + 1), (reg\<lparr>local_waiters := snd (dm_remove (waiters_map E) n (local_waiters reg))\<rparr>, st),
      drop_tx (dm_get (waiters_map E) n (local_waiters reg)))"
| "redis_cleanup_step E (CDone cleaned) (reg, st) = (CDone cleaned, (reg, st), [])"

fun redis_call_step ::
    "('w, 'r) redis_env \<Rightarrow> redis_call \<Rightarrow> ('w, 'r) redis_state \<Rightarrow> ('w, 'r, redis_call) redis_next" where
  "redis_call_step E (RedisRegister n i sp pc) s =
     map_prod (RedisRegister n i sp) id (redis_register_step E n i sp pc s)"
| "redis_call_step E (RedisUnregister n token pc) s =
     map_prod (RedisUnregister n token) id (redis_unregister_step E n token pc s)"
| "redis_call_step E (RedisCleanup pc) s = map_prod RedisCleanup id (redis_cleanup_step E pc s)"

text \<open>A call that nobody interrupts.\<close>

fun redis_alone ::
    "('w, 'r) redis_env \<Rightarrow> nat \<Rightarrow> redis_call \<Rightarrow> ('w, 'r) redis_state \<Rightarrow> ('w, 'r, redis_call) redis_next" where
  "redis_alone E 0 c s = (c, s, [])"
| "redis_alone E (Suc k) c s =
     (let (c', s', ev) = redis_call_step E c s; (c'', s'', ev') = redis_alone E k c' s'
      in (c'', s'', ev @ ev'))"

subsection \<open>Uninterrupted calls\<close>

fun redis_finished :: "redis_call \<Rightarrow> bool" where
  "redis_finished (RedisRegister n i sp pc) \<longleftrightarrow> (case pc of QDone r \<Rightarrow> True | _ \<Rightarrow> False)"
| "redis_finished (RedisUnregister n t pc) \<longleftrightarrow> (case pc of UEnd r \<Rightarrow> True | _ \<Rightarrow> False)"
| "redis_finished (RedisCleanup pc) \<longleftrightarrow> (case pc of CDone k \<Rightarrow> True | _ \<Rightarrow> False)"

lemma redis_alone_finished: "redis_finished c \<Longrightarrow> redis_alone E k c s = (c, s, [])"
proof (induction k)
  case (Suc k)
  then have "redis_call_step E c s = (c, s, [])"
    by (cases c; cases s) (auto split: redis_pc.splits redis_unregister_pc.splits redis_cleanup_pc.splits)
  with Suc show ?case by simp
qed simp

abbreviation redis_end ::
    "rust_string \<Rightarrow> peer_connection_data \<Rightarrow> runtime \<Rightarrow> ('w, 'r, registration_result) redis_result
     \<Rightarrow> ('w, 'r, redis_call) redis_next" where
  "redis_end n i sp \<equiv> map_prod (\<lambda>r. RedisRegister n i sp (QDone r)) id"

lemmas redis_step_defs = query_def internal_def answer_def converted_def redis_alone_finished Let_def

lemma redis_alone_answer:
  assumes "redis_register_step E n i sp pc (reg, st) = answer reg reply k"
  shows "redis_alone E (Suc j) (RedisRegister n i sp pc) (reg, st) =
    (case reply of
       (Inl e, st') \<Rightarrow> (RedisRegister n i sp (QDone (Inl (RedisError e))), (reg, st'), [])
     | (Inr v, st') \<Rightarrow> redis_alone E j (RedisRegister n i sp (k v)) (reg, st'))"
  using assms by (simp add: answer_def redis_alone_finished split: prod.splits sum.splits)

lemma redis_end_query:
  "redis_end n i sp (query reg reply k) =
    (case reply of
       (Inl e, st') \<Rightarrow> (RedisRegister n i sp (QDone (Inl (RedisError e))), (reg, st'), [])
     | (Inr v, st') \<Rightarrow> redis_end n i sp (k v st'))"
  by (simp add: query_def split: prod.splits sum.splits)

lemma redis_alone_converted:
  assumes "\<And>v. x = Inr v \<Longrightarrow> redis_alone E j (RedisRegister n i sp (k v)) (reg, st) = redis_end n i sp (f v)"
  shows "redis_alone E j (RedisRegister n i sp (converted x k)) (reg, st) = redis_end n i sp (internal reg st x f)"
  using assms by (cases x) (simp_all add: converted_def internal_def redis_alone_finished)

lemma redis_alone_local:
  "redis_alone E (Suc k) (RedisRegister n i sp (QResumeLocal token)) (reg, st) =
     redis_end n i sp (let (reg', ev) = insert_waiter E n (new_chan sp) reg
       in (Inr (RResumed token (new_chan sp)), (reg', st), ev))"
  "redis_alone E (Suc k) (RedisRegister n i sp QLocal) (reg, st) =
     redis_end n i sp (let (reg', ev) = insert_waiter E n (new_chan sp) reg
       in (Inr (RWaiting (new_v4 sp) (new_chan sp)), (reg', st), ev))"
  by (simp_all add: redis_alone_finished insert_waiter_def)

lemma redis_alone_resume:
  "redis_alone E (Suc (Suc k)) (RedisRegister n i sp
       (converted (client_to_json (json E) (redis_waiting reg i token sp)) (QResume token))) (reg, st)
     = redis_end n i sp (redis_resume E n i token sp reg st)"
  unfolding redis_resume_def
  by (rule redis_alone_converted)
    (simp only: redis_alone_answer [OF redis_register_step.simps(2)] redis_end_query redis_alone_local)

lemma redis_alone_wait:
  "redis_alone E (Suc (Suc (Suc k))) (RedisRegister n i sp
       (converted (client_to_json (json E) (redis_waiting reg i (new_v4 sp) sp)) QSetex)) (reg, st)
     = redis_end n i sp (redis_wait E n i sp reg st)"
  unfolding redis_wait_def Let_def [of "new_v4 sp"]
  by (rule redis_alone_converted)
    (simp only: redis_alone_answer [OF redis_register_step.simps(8)] redis_alone_answer [OF redis_register_step.simps(9)]
      redis_end_query redis_alone_local)

lemma redis_alone_take:
  "redis_alone E (Suc (Suc k)) (RedisRegister n i sp (QTake w)) (reg, st) =
     redis_end n i sp
       (case dm_remove (waiters_map E) n (local_waiters reg) of
          (Some (_, tx), ws) \<Rightarrow>
            (Inr (RPaired (new_v4 sp) (connection_info w)), (reg\<lparr>local_waiters := ws\<rparr>, st), [ChanSend tx i])
        | (None, ws) \<Rightarrow>
            if client_server_id w \<noteq> server_id (redis_config reg)
            then internal (reg\<lparr>local_waiters := ws\<rparr>) st (peer_to_json (json E) i) (\<lambda>notify_data.
                 query (reg\<lparr>local_waiters := ws\<rparr>) (r_publish (redis_cmds E) (notify_channel n) notify_data st) (\<lambda>_ st.
                 (Inr (RPaired (new_v4 sp) (connection_info w)), (reg\<lparr>local_waiters := ws\<rparr>, st), [])))
            else (Inr (RPaired (new_v4 sp) (connection_info w)), (reg\<lparr>local_waiters := ws\<rparr>, st), []))"
proof (cases "dm_remove (waiters_map E) n (local_waiters reg)")
  case (Pair old ws)
  show ?thesis
  proof (cases "old = None \<and> client_server_id w \<noteq> server_id (redis_config reg)")
    case True
    let ?reg = "reg\<lparr>local_waiters := ws\<rparr>"
    have "redis_alone E (Suc k) (RedisRegister n i sp (converted (peer_to_json (json E) i) (QPublish w))) (?reg, st) =
      redis_end n i sp (internal ?reg st (peer_to_json (json E) i) (\<lambda>notify_data.
          query ?reg (r_publish (redis_cmds E) (notify_channel n) notify_data st) (\<lambda>_ st.
          (Inr (RPaired (new_v4 sp) (connection_info w)), (?reg, st), []))))"
      by (rule redis_alone_converted)
        (simp add: redis_alone_answer [OF redis_register_step.simps(7)] redis_end_query redis_alone_finished
          split: prod.splits sum.splits del: redis_alone.simps(2))
    with True show ?thesis by (simp add: Pair del: redis_alone.simps(2) add: redis_alone.simps(2) [of E "Suc k"] split: prod.splits)
  next
    case False
    then show ?thesis by (auto simp: Pair redis_alone_finished split: option.splits)
  qed
qed

lemma redis_alone_pair:
  "redis_alone E (Suc (Suc (Suc k))) (RedisRegister n i sp (converted (client_from_json (json E) js) QDel)) (reg, st)
     = redis_end n i sp (redis_pair E n i js sp reg st)"
  unfolding redis_pair_def
  by (rule redis_alone_converted)
    (simp only: redis_alone_answer [OF redis_register_step.simps(5)] redis_end_query redis_alone_take Let_def)

lemma redis_alone_fresh:
  "redis_alone E (Suc (Suc (Suc (Suc k)))) (RedisRegister n i sp QGetdel) (reg, st)
     = redis_end n i sp (redis_fresh E n i sp reg st)"
proof -
  obtain reply st' where r: "r_getdel (redis_cmds E) (pairing_key n) st = (reply, st')"
    by (cases "r_getdel (redis_cmds E) (pairing_key n) st")
  have "redis_alone E (Suc (Suc (Suc k))) (RedisRegister n i sp
        (case existing of
           Some js \<Rightarrow> converted (client_from_json (json E) js) QDel
         | None \<Rightarrow> converted (client_to_json (json E) (redis_waiting reg i (new_v4 sp) sp)) QSetex)) (reg, st')
      = redis_end n i sp (case existing of
           Some js \<Rightarrow> redis_pair E n i js sp reg st' | None \<Rightarrow> redis_wait E n i sp reg st')" for existing
    by (cases existing) (simp_all only: redis_alone_pair redis_alone_wait option.case)
  then show ?thesis
    unfolding redis_fresh_def redis_alone_answer [OF redis_register_step.simps(4)] redis_end_query r
    by (cases reply) simp_all
qed

lemma redis_alone_register:
  "redis_alone E 5 (RedisRegister n i sp (redis_register_start rtok)) (reg, st)
     = redis_end n i sp (redis_register E n i rtok sp (reg, st))"
proof (cases rtok)
  case None
  then show ?thesis
    unfolding redis_register_start_def redis_register_def
    using redis_alone_fresh [of E 1] by (simp add: eval_nat_numeral del: redis_alone.simps)
next
  case (Some token)
  obtain reply st' where r: "r_get (redis_cmds E) (token_key (uuid_text E) token) st = (reply, st')"
    by (cases "r_get (redis_cmds E) (token_key (uuid_text E) token) st")
  have "redis_alone E (Suc (Suc (Suc (Suc 0)))) (RedisRegister n i sp
      (if stored = Some n then converted (client_to_json (json E) (redis_waiting reg i token sp)) (QResume token) else QGetdel)) (reg, st')
      = redis_end n i sp (if stored = Some n then redis_resume E n i token sp reg st' else redis_fresh E n i sp reg st')" for stored
    by (simp only: redis_alone_resume redis_alone_fresh if_distrib split: if_split) simp
  then show ?thesis
    unfolding Some redis_register_start_def redis_register_def
    by (cases reply) (simp_all add: eval_nat_numeral redis_alone_answer [OF redis_register_step.simps(1)] redis_end_query r
        del: redis_alone.simps)
qed

lemma redis_alone_unregister:
  "redis_alone E 2 (RedisUnregister n t UDel) (reg, st)
     = map_prod (\<lambda>r. RedisUnregister n t (UEnd r)) id (redis_unregister E n t (reg, st))"
  by (simp add: eval_nat_numeral redis_unregister_def query_def split: prod.splits sum.splits)

lemma redis_alone_cleanup_loop:
  "redis_alone E (Suc (2 * length ns + k)) (RedisCleanup (CExists ns c)) (reg, st)
     = map_prod (\<lambda>c. RedisCleanup (CDone c)) id (redis_cleanup_loop E ns c (reg, st))"
proof (induction ns arbitrary: c reg st k)
  case (Cons n ns)
  obtain reply st' where r: "r_exists (redis_cmds E) (pairing_key n) st = (reply, st')"
    by (cases "r_exists (redis_cmds E) (pairing_key n) st")
  show ?case
  proof (cases "case reply of Inl _ \<Rightarrow> False | Inr b \<Rightarrow> b")
    case True
    with r show ?thesis using Cons.IH [of "Suc k" c reg st'] by (simp split: prod.splits)
  next
    case False
    let ?reg = "reg\<lparr>local_waiters := snd (dm_remove (waiters_map E) n (local_waiters reg))\<rparr>"
    from False r show ?thesis using Cons.IH [of k "c + 1" ?reg st'] by (simp add: Let_def split: prod.splits)
  qed
qed (simp add: redis_alone_finished)

lemma redis_alone_cleanup:
  "\<exists>k. redis_alone E k (RedisCleanup CList) (reg, st)
     = map_prod (\<lambda>c. RedisCleanup (CDone c)) id (redis_cleanup_expired E (reg, st))"
proof -
  let ?ns = "map fst (dm_iter (waiters_map E) (local_waiters reg))"
  have "redis_alone E (Suc (Suc (2 * length ?ns))) (RedisCleanup CList) (reg, st)
      = redis_alone E (Suc (2 * length ?ns)) (RedisCleanup (CExists ?ns 0)) (reg, st)"
    by (simp split: prod.splits)
  also have "\<dots> = map_prod (\<lambda>c. RedisCleanup (CDone c)) id (redis_cleanup_expired E (reg, st))"
    using redis_alone_cleanup_loop [of E ?ns 0 0] by (simp only: redis_cleanup_expired_def fst_conv add_0_right)
  finally show ?thesis ..
qed

subsection \<open>A cluster of servers\<close>

text \<open>Each call runs on one of the servers; all of them share the store.\<close>

record ('w, 'r) redis_cluster =
  servers :: "'w redis_registry list"
  store :: 'r
  calls :: "(nat \<times> redis_call) list"
  cluster_log :: "reg_event list"

definition cluster_advance :: "('w, 'r) redis_env \<Rightarrow> nat \<Rightarrow> ('w, 'r) redis_cluster \<Rightarrow> ('w, 'r) redis_cluster" where
  "cluster_advance E i cl =
     (case calls cl ! i of (p, c) \<Rightarrow>
      case redis_call_step E c (servers cl ! p, store cl) of (c', (reg, st), ev) \<Rightarrow>
        \<lparr>servers = (servers cl)[p := reg], store = st, calls = (calls cl)[i := (p, c')],
         cluster_log = cluster_log cl @ ev\<rparr>)"

fun redis_begins :: "redis_call \<Rightarrow> bool" where
  "redis_begins (RedisRegister n i sp pc) \<longleftrightarrow> (\<exists>rtok. pc = redis_register_start rtok)"
| "redis_begins (RedisUnregister n t pc) \<longleftrightarrow> pc = UDel"
| "redis_begins (RedisCleanup pc) \<longleftrightarrow> pc = CList"

text \<open>Time passes in the store: some keys are gone, nothing else changes.\<close>

inductive cluster_run ::
    "('w, 'r) redis_env \<Rightarrow> ('r \<Rightarrow> rust_string \<Rightarrow> rust_string option) \<Rightarrow> ('w, 'r) redis_cluster
     \<Rightarrow> ('w, 'r) redis_cluster \<Rightarrow> bool" for E view cl where
  start: "cluster_run E view cl cl"
| advance: "cluster_run E view cl cl' \<Longrightarrow> i < length (calls cl') \<Longrightarrow> cluster_run E view cl (cluster_advance E i cl')"
| expire: "cluster_run E view cl cl' \<Longrightarrow> view st \<subseteq>\<^sub>m view (store cl') \<Longrightarrow> cluster_run E view cl (cl'\<lparr>store := st\<rparr>)"
| call: "cluster_run E view cl cl' \<Longrightarrow> redis_begins c \<Longrightarrow> p < length (servers cl') \<Longrightarrow>
    cluster_run E view cl (cl'\<lparr>calls := calls cl' @ [(p, c)]\<rparr>)"

definition cluster_new :: "'w redis_registry list \<Rightarrow> 'r \<Rightarrow> ('w, 'r) redis_cluster" where
  "cluster_new regs st = \<lparr>servers = regs, store = st, calls = [], cluster_log = []\<rparr>"

subsection \<open>A waiting registration is handed out once\<close>

text \<open>The call holds the registration of this address, to store it or to hand it to its client.\<close>

fun claims :: "rust_string \<Rightarrow> peer_connection_data \<Rightarrow> redis_call \<Rightarrow> nat" where
  "claims n x (RedisRegister m i sp pc) =
     (if m \<noteq> n then 0 else
      case pc of
        QGet token \<Rightarrow> of_bool (i = x)
      | QResume token js \<Rightarrow> of_bool (i = x)
      | QGetdel \<Rightarrow> of_bool (i = x)
      | QSetex js \<Rightarrow> of_bool (i = x)
      | QDel w \<Rightarrow> of_bool (connection_info w = x)
      | QTake w \<Rightarrow> of_bool (connection_info w = x)
      | QPublish w data \<Rightarrow> of_bool (connection_info w = x)
      | QDone (Inr (RPaired token y)) \<Rightarrow> of_bool (y = x)
      | _ \<Rightarrow> 0)"
| "claims n x _ = 0"

text \<open>A registration from this address that has not been given a peer itself.\<close>

fun unpaired :: "rust_string \<Rightarrow> peer_connection_data \<Rightarrow> redis_call \<Rightarrow> bool" where
  "unpaired n x (RedisRegister m i sp pc) \<longleftrightarrow> m = n \<and> i = x \<and>
     (case pc of
        QDel w \<Rightarrow> False | QTake w \<Rightarrow> False | QPublish w data \<Rightarrow> False
      | QDone (Inr (RPaired token y)) \<Rightarrow> False | _ \<Rightarrow> True)"
| "unpaired n x _ \<longleftrightarrow> False"

fun told :: "rust_string \<Rightarrow> peer_connection_data \<Rightarrow> redis_call \<Rightarrow> bool" where
  "told n x (RedisRegister m i sp (QDone (Inr (RPaired token y)))) \<longleftrightarrow> m = n \<and> y = x"
| "told n x _ \<longleftrightarrow> False"

definition store_claims ::
    "json_ops \<Rightarrow> (rust_string \<Rightarrow> rust_string option) \<Rightarrow> rust_string \<Rightarrow> peer_connection_data \<Rightarrow> nat" where
  "store_claims J v n x = of_bool (map_option connection_info (store_client J v n) = Some x)"

fun call_ok :: "json_ops \<Rightarrow> redis_call \<Rightarrow> bool" where
  "call_ok J (RedisRegister n i sp (QResume token js)) \<longleftrightarrow> (\<exists>w. client_to_json J w = Inr js \<and> connection_info w = i)"
| "call_ok J (RedisRegister n i sp (QSetex js)) \<longleftrightarrow> (\<exists>w. client_to_json J w = Inr js \<and> connection_info w = i)"
| "call_ok J _ \<longleftrightarrow> True"

text \<open>
  A command that fails was either executed or not, and nothing appears in the store that was
  neither there nor written by it.
\<close>

locale redis_faults = redis_backend E view clock deadline
  for E :: "('w, 'r) redis_env" and view and clock and deadline +
  assumes get_fail: "r_get (redis_cmds E) k s = (Inl e, s') \<Longrightarrow> view s' \<subseteq>\<^sub>m view s"
    and getdel_fail: "r_getdel (redis_cmds E) k s = (Inl e, s') \<Longrightarrow> view s' \<subseteq>\<^sub>m view s"
    and del_fail: "r_del (redis_cmds E) ks s = (Inl e, s') \<Longrightarrow> view s' \<subseteq>\<^sub>m view s"
    and publish_fail: "r_publish (redis_cmds E) c m s = (Inl e, s') \<Longrightarrow> view s' \<subseteq>\<^sub>m view s"
    and setex_fail: "r_setex (redis_cmds E) k ttl v0 s = (Inl e, s') \<Longrightarrow>
      view s' \<subseteq>\<^sub>m view s \<or> view s' \<subseteq>\<^sub>m (view s)(k \<mapsto> v0)"
begin

lemma store_claims_mono:
  assumes "v' \<subseteq>\<^sub>m v"
  shows "store_claims J v' n x \<le> store_claims J v n x"
proof (cases "v' (pairing_key n)")
  case None
  then show ?thesis by (simp add: store_claims_def store_client_None)
next
  case (Some js)
  with assms have "v (pairing_key n) = Some js" by (auto simp: map_le_def dom_def)
  with Some show ?thesis by (simp add: store_claims_def store_client_def)
qed

lemma store_claims_put:
  assumes "client_to_json (json E) w = Inr js" and "v' \<subseteq>\<^sub>m v(pairing_key m \<mapsto> js)"
  shows "store_claims (json E) v' n x \<le> (if m = n then of_bool (connection_info w = x) else store_claims (json E) v n x)"
proof -
  have "store_client (json E) (v(pairing_key m \<mapsto> js)) n =
      (if m = n then Some (w\<lparr>registered_at := registered_at w div 1000000 * 1000000\<rparr>) else store_client (json E) v n)"
    using stored_client [OF assms(1), of "v(pairing_key m \<mapsto> js)" m]
      store_client_cong [of "v(pairing_key m \<mapsto> js)" n v] by auto
  then show ?thesis
    using store_claims_mono [OF assms(2), of "json E" n x] by (simp add: store_claims_def split: if_splits)
qed

lemma store_claims_cong: "v (pairing_key n) = v' (pairing_key n) \<Longrightarrow> store_claims J v n x = store_claims J v' n x"
  by (simp add: store_claims_def store_client_def)

lemma answer_cases:
  assumes "answer reg reply k = (pc', (reg', st'), ev)"
  obtains e where "reply = (Inl e, st')" and "pc' = QDone (Inl (RedisError e))"
  | v where "reply = (Inr v, st')" and "pc' = k v"
  using assms by (auto simp: answer_def split: prod.splits sum.splits)

text \<open>Commands that only read or remove.\<close>

lemma shrink:
  "r_get (redis_cmds E) k s = (y, s') \<Longrightarrow> view s' \<subseteq>\<^sub>m view s"
  "r_getdel (redis_cmds E) k s = (y, s') \<Longrightarrow> view s' \<subseteq>\<^sub>m view s"
  "r_del (redis_cmds E) ks s = (z, s') \<Longrightarrow> view s' \<subseteq>\<^sub>m view s"
  "r_publish (redis_cmds E) c m s = (z, s') \<Longrightarrow> view s' \<subseteq>\<^sub>m view s"
  "r_exists (redis_cmds E) k s = (b, s') \<Longrightarrow> view s' \<subseteq>\<^sub>m view s"
proof -
  show "r_get (redis_cmds E) k s = (y, s') \<Longrightarrow> view s' \<subseteq>\<^sub>m view s"
    using get_fail r.get_ok by (cases y) (auto simp: map_le_def)
  show "r_getdel (redis_cmds E) k s = (y, s') \<Longrightarrow> view s' \<subseteq>\<^sub>m view s"
    using getdel_fail r.getdel_ok by (cases y) (fastforce simp: map_le_def)+
  show "r_del (redis_cmds E) ks s = (z, s') \<Longrightarrow> view s' \<subseteq>\<^sub>m view s"
    using del_fail r.del_ok [of ks s s'] by (cases z) (auto simp: map_le_def restrict_map_def)
  show "r_publish (redis_cmds E) c m s = (z, s') \<Longrightarrow> view s' \<subseteq>\<^sub>m view s"
    using publish_fail r.publish_ok [of c m s s'] by (cases z) auto
  show "r_exists (redis_cmds E) k s = (b, s') \<Longrightarrow> view s' \<subseteq>\<^sub>m view s"
    using r.exists_view [of k s b s'] by simp
qed

lemma setex_claims:
  assumes "r_setex (redis_cmds E) k ttl js s = (y, s')"
    and "(\<exists>t. k = token_key (uuid_text E) t) \<or> (k = pairing_key m \<and> client_to_json (json E) w = Inr js)"
  shows "store_claims (json E) (view s') n x \<le>
    store_claims (json E) (view s) n x + (if k = pairing_key n then of_bool (connection_info w = x) else 0)"
proof -
  have "view s' \<subseteq>\<^sub>m view s \<or> view s' \<subseteq>\<^sub>m (view s)(k \<mapsto> js)"
    using assms(1) setex_fail r.setex_ok [of k ttl js s s'] by (cases y) auto
  then show ?thesis
  proof
    assume "view s' \<subseteq>\<^sub>m view s"
    from store_claims_mono [OF this] show ?thesis by (simp add: trans_le_add1)
  next
    assume le: "view s' \<subseteq>\<^sub>m (view s)(k \<mapsto> js)"
    from assms(2) show ?thesis
    proof
      assume "\<exists>t. k = token_key (uuid_text E) t"
      then have "store_claims (json E) ((view s)(k \<mapsto> js)) n x = store_claims (json E) (view s) n x"
        by (intro store_claims_cong) auto
      with store_claims_mono [OF le, of "json E" n x] show ?thesis by simp
    next
      assume k: "k = pairing_key m \<and> client_to_json (json E) w = Inr js"
      with store_claims_put [of w js "view s'" "view s" m n x] le show ?thesis by (auto split: if_splits)
    qed
  qed
qed

lemma setex_register_claims:
  assumes step: "redis_register_step E m i sp pc (reg, st) = (pc', (reg', st'), ev)"
    and ok: "call_ok (json E) (RedisRegister m i sp pc)"
    and pc: "(\<exists>t js. pc = QResume t js) \<or> (\<exists>js. pc = QSetex js) \<or> pc = QSetexToken"
  shows "claims n x (RedisRegister m i sp pc') + store_claims (json E) (view st') n x
    \<le> claims n x (RedisRegister m i sp pc) + store_claims (json E) (view st) n x
    \<and> unpaired n x (RedisRegister m i sp pc') = unpaired n x (RedisRegister m i sp pc)
    \<and> call_ok (json E) (RedisRegister m i sp pc')"
proof (cases "pc = QSetexToken")
  case True
  from step obtain y where y: "r_setex (redis_cmds E) (token_key (uuid_text E) (new_v4 sp)) (ttl_secs (redis_config reg)) m st = (y, st')"
    by (auto simp: True elim: answer_cases)
  have "store_claims (json E) (view st') n x \<le> store_claims (json E) (view st) n x"
    using setex_claims [OF y disjI1, where n = n and x = x] by auto
  with step show ?thesis by (auto simp: True elim!: answer_cases)
next
  case False
  with pc ok obtain js w where w: "client_to_json (json E) w = Inr js" "connection_info w = i"
    and pc': "pc = QSetex js \<or> (\<exists>t. pc = QResume t js)" by auto
  from step pc' obtain y where y: "r_setex (redis_cmds E) (pairing_key m) (ttl_secs (redis_config reg)) js st = (y, st')"
    by (auto elim!: answer_cases)
  from setex_claims [OF y disjI2, of m w n x] w step pc' show ?thesis
    by (auto elim!: answer_cases)
qed

lemma register_claims:
  assumes step: "redis_register_step E m i sp pc (reg, st) = (pc', (reg', st'), ev)"
    and ok: "call_ok (json E) (RedisRegister m i sp pc)"
  shows "claims n x (RedisRegister m i sp pc') + store_claims (json E) (view st') n x
      + of_bool (unpaired n x (RedisRegister m i sp pc))
    \<le> claims n x (RedisRegister m i sp pc) + store_claims (json E) (view st) n x
      + of_bool (unpaired n x (RedisRegister m i sp pc'))
    \<and> call_ok (json E) (RedisRegister m i sp pc')"
proof (cases pc)
  case (QGet t)
  have w: "connection_info (redis_waiting reg i t sp) = i" by (simp add: redis_waiting_def)
  from step obtain y where y: "r_get (redis_cmds E) (token_key (uuid_text E) t) st = (y, st')"
    by (auto simp: QGet elim: answer_cases)
  from step w store_claims_mono [OF shrink(1) [OF y], of "json E" n x] show ?thesis
    by (auto simp: QGet converted_def elim!: answer_cases split: sum.splits if_splits)
next
  case (QResume t js)
  with setex_register_claims [OF step ok, of n x] show ?thesis by auto
next
  case (QSetex js)
  with setex_register_claims [OF step ok, of n x] show ?thesis by auto
next
  case QSetexToken
  with setex_register_claims [OF step ok, of n x] show ?thesis by auto
next
  case QGetdel
  have w: "connection_info (redis_waiting reg i (new_v4 sp) sp) = i" by (simp add: redis_waiting_def)
  from step obtain y where y: "r_getdel (redis_cmds E) (pairing_key m) st = (y, st')"
    by (auto simp: QGetdel elim: answer_cases)
  have taken: "store_claims (json E) (view st') m x = 0 \<and> store_claims (json E) (view st) m x = of_bool (connection_info w = x)"
    if h: "y = Inr (Some js)" "client_from_json (json E) js = Inr w" for js w
  proof -
    have "view st (pairing_key m) = Some js" "view st' (pairing_key m) = None"
      using r.getdel_ok [OF y [unfolded h(1)]] by simp_all
    with h(2) show ?thesis by (simp add: store_claims_def store_client_def)
  qed
  from step w y store_claims_mono [OF shrink(2) [OF y], of "json E" n x] taken show ?thesis
    by (auto simp: QGetdel converted_def elim!: answer_cases split: sum.splits option.splits if_splits)
next
  case (QDel w)
  from step obtain y where y: "r_del (redis_cmds E) [token_key (uuid_text E) (reconnect_token w)] st = (y, st')"
    by (auto simp: QDel elim: answer_cases)
  from step store_claims_mono [OF shrink(3) [OF y], of "json E" n x] show ?thesis
    by (auto simp: QDel elim!: answer_cases)
next
  case (QPublish w data)
  from step obtain y where y: "r_publish (redis_cmds E) (notify_channel m) data st = (y, st')"
    by (auto simp: QPublish elim: answer_cases)
  from step store_claims_mono [OF shrink(4) [OF y], of "json E" n x] show ?thesis
    by (auto simp: QPublish elim!: answer_cases)
next
  case (QTake w)
  with step show ?thesis
    by (auto simp: converted_def split: prod.splits option.splits if_splits sum.splits)
qed (use step in \<open>auto simp: insert_waiter_def split: prod.splits sum.splits\<close>)

lemma call_claims:
  assumes "redis_call_step E c (reg, st) = (c', (reg', st'), ev)" and "call_ok (json E) c"
  shows "claims n x c' + store_claims (json E) (view st') n x + of_bool (unpaired n x c)
    \<le> claims n x c + store_claims (json E) (view st) n x + of_bool (unpaired n x c') \<and> call_ok (json E) c'"
proof (cases c)
  case (RedisRegister m i sp pc)
  with assms obtain pc' where st: "redis_register_step E m i sp pc (reg, st) = (pc', (reg', st'), ev)"
    and c': "c' = RedisRegister m i sp pc'"
    by (cases "redis_register_step E m i sp pc (reg, st)") auto
  show ?thesis using register_claims [OF st, of n x] assms(2) unfolding RedisRegister c' by blast
next
  case (RedisUnregister m t pc)
  from assms have "view st' \<subseteq>\<^sub>m view st"
    by (cases pc) (auto simp: RedisUnregister dest!: shrink(3) split: prod.splits sum.splits)
  with store_claims_mono [OF this, of "json E" n x] assms show ?thesis
    by (cases pc) (auto simp: RedisUnregister split: prod.splits sum.splits)
next
  case (RedisCleanup pc)
  from assms have "view st' \<subseteq>\<^sub>m view st"
    by (cases "(E, pc, (reg, st))" rule: redis_cleanup_step.cases)
      (auto simp: RedisCleanup dest!: shrink(5) split: prod.splits)
  with store_claims_mono [OF this, of "json E" n x] assms show ?thesis
    by (cases "(E, pc, (reg, st))" rule: redis_cleanup_step.cases)
      (auto simp: RedisCleanup split: prod.splits)
qed

end

definition cluster_claims ::
    "('w, 'r) redis_env \<Rightarrow> ('r \<Rightarrow> rust_string \<Rightarrow> rust_string option) \<Rightarrow> rust_string \<Rightarrow> peer_connection_data
     \<Rightarrow> ('w, 'r) redis_cluster \<Rightarrow> nat" where
  "cluster_claims E view n x cl =
     (\<Sum>(p, c)\<leftarrow>calls cl. claims n x c) + store_claims (json E) (view (store cl)) n x"

definition cluster_unpaired :: "rust_string \<Rightarrow> peer_connection_data \<Rightarrow> ('w, 'r) redis_cluster \<Rightarrow> nat" where
  "cluster_unpaired n x cl = (\<Sum>(p, c)\<leftarrow>calls cl. of_bool (unpaired n x c))"

lemma sum_list_update_add:
  "i < length xs \<Longrightarrow> sum_list (map f (xs[i := y])) + f (xs ! i) = sum_list (map f xs) + (f y :: nat)"
  by (induction xs arbitrary: i) (auto split: nat.splits)

context redis_faults
begin

lemma cluster_advance_claims:
  assumes i: "i < length (calls cl)" and ok: "list_all (call_ok (json E) \<circ> snd) (calls cl)"
    and le: "cluster_claims E view n x cl \<le> cluster_unpaired n x cl"
  shows "cluster_claims E view n x (cluster_advance E i cl) \<le> cluster_unpaired n x (cluster_advance E i cl)
    \<and> list_all (call_ok (json E) \<circ> snd) (calls (cluster_advance E i cl))"
proof -
  obtain p c where c: "calls cl ! i = (p, c)" by (cases "calls cl ! i")
  obtain c' reg st ev where step: "redis_call_step E c (servers cl ! p, store cl) = (c', (reg, st), ev)"
    by (cases "redis_call_step E c (servers cl ! p, store cl)") auto
  have cl': "calls (cluster_advance E i cl) = (calls cl)[i := (p, c')]" "store (cluster_advance E i cl) = st"
    by (simp_all add: cluster_advance_def c step)
  have "call_ok (json E) c" using ok i c by (auto simp: list_all_length)
  note one = call_claims [OF step this, of n x]
  have "(\<Sum>(p, c)\<leftarrow>(calls cl)[i := (p, c')]. claims n x c) + claims n x c = (\<Sum>(p, c)\<leftarrow>calls cl. claims n x c) + claims n x c'"
    and "(\<Sum>(p, c)\<leftarrow>(calls cl)[i := (p, c')]. of_bool (unpaired n x c)) + of_bool (unpaired n x c)
      = (\<Sum>(p, c)\<leftarrow>calls cl. of_bool (unpaired n x c)) + (of_bool (unpaired n x c') :: nat)"
    using sum_list_update_add [OF i, of "\<lambda>(p, c). claims n x c" "(p, c')"]
      sum_list_update_add [OF i, of "\<lambda>(p, c). of_bool (unpaired n x c)" "(p, c')"] by (simp_all add: c)
  with one le have "cluster_claims E view n x (cluster_advance E i cl) \<le> cluster_unpaired n x (cluster_advance E i cl)"
    unfolding cluster_claims_def cluster_unpaired_def cl' by linarith
  moreover have "list_all (call_ok (json E) \<circ> snd) ((calls cl)[i := (p, c')])"
    using one ok set_update_subset_insert [of "calls cl" i "(p, c')"] by (auto simp: list_all_iff)
  ultimately show ?thesis by (simp add: cl')
qed

lemma cluster_run_claims:
  assumes "cluster_run E view (cluster_new regs st) cl" and "\<And>n. view st (pairing_key n) = None"
  shows "cluster_claims E view n x cl \<le> cluster_unpaired n x cl \<and> list_all (call_ok (json E) \<circ> snd) (calls cl)"
  using assms(1)
proof (induction rule: cluster_run.induct)
  case start
  show ?case using assms(2)
    by (simp add: cluster_new_def cluster_claims_def store_claims_def store_client_None)
next
  case (advance cl' i)
  then show ?case using cluster_advance_claims by blast
next
  case (expire cl' st)
  from store_claims_mono [OF expire.hyps(2), of "json E" n x] expire.IH show ?case
    by (auto simp: cluster_claims_def cluster_unpaired_def)
next
  case (call cl' c p)
  have "claims n x c \<le> of_bool (unpaired n x c)" "call_ok (json E) c"
    using call.hyps(2) by (cases c; auto simp: redis_register_start_def split: option.splits)+
  with call.IH show ?case by (auto simp: cluster_claims_def cluster_unpaired_def)
qed

end

lemma told_claims: "length (filter (told n x \<circ> snd) cs) \<le> (\<Sum>(p, c)\<leftarrow>cs. claims n x c)"
proof (induction cs)
  case (Cons pc cs)
  have "of_bool (told n x c) \<le> claims n x c" for c
    by (cases "(n, x, c)" rule: told.cases) auto
  from this [of "snd pc"] Cons show ?case by (cases pc) (auto split: if_splits)
qed simp

lemma unpaired_length: "(\<Sum>(p, c)\<leftarrow>cs. of_bool (unpaired n x c)) = length (filter (unpaired n x \<circ> snd) cs)"
  by (induction cs) auto

interpretation ref_faults: redis_faults ref_env ref_view now_secs ref_deadline
  by unfold_locales
    (auto simp: ref_env_sel ref_ops_def attempt_def without_def split: list.splits option.splits if_splits)

subsection \<open>Schedules\<close>

lemma cluster_run_schedule:
  assumes "list_all (\<lambda>i. i < length (calls cl)) is"
  shows "cluster_run E view cl (fold (cluster_advance E) is cl)"
proof -
  have len: "length (calls (cluster_advance E i cl')) = length (calls cl')" for i and cl' :: "('a, 'b) redis_cluster"
    by (simp add: cluster_advance_def split: prod.splits)
  have "cluster_run E view cl (fold (cluster_advance E) is cl) \<and> length (calls (fold (cluster_advance E) is cl)) = length (calls cl)"
    using assms by (induction "is" rule: rev_induct) (auto simp: len intro: cluster_run.intros)
  then show ?thesis ..
qed

text \<open>Two calls of \<open>register\<close> without a token, on two servers or on one.\<close>

definition two_firsts ::
    "'w redis_registry list \<Rightarrow> 'r \<Rightarrow> rust_string \<Rightarrow> nat \<times> peer_connection_data \<times> runtime
     \<Rightarrow> nat \<times> peer_connection_data \<times> runtime \<Rightarrow> ('w, 'r) redis_cluster" where
  "two_firsts regs st n a b =
     (case a of (p, i, spa) \<Rightarrow> case b of (q, j, spb) \<Rightarrow>
        \<lparr>servers = regs, store = st,
         calls = [(p, RedisRegister n i spa QGetdel), (q, RedisRegister n j spb QGetdel)], cluster_log = []\<rparr>)"

lemma redis_waiting_sel:
  "connection_info (redis_waiting reg i t sp) = i" "reconnect_token (redis_waiting reg i t sp) = t"
  "client_server_id (redis_waiting reg i t sp) = server_id (redis_config reg)"
  by (simp_all add: redis_waiting_def)

context redis_backend
begin

lemma race:
  assumes "p < length regs" and "q < length regs" and none: "view s0 (pairing_key n) = None"
    and ja: "client_to_json (json E) (redis_waiting (regs ! p) i (new_v4 a) a) = Inr ja"
    and jb: "client_to_json (json E) (redis_waiting (regs ! q) j (new_v4 b) b) = Inr jb"
    and g1: "r_getdel (redis_cmds E) (pairing_key n) s0 = (Inr u, s1)"
    and g2: "r_getdel (redis_cmds E) (pairing_key n) s1 = (Inr v, s2)"
    and a1: "r_setex (redis_cmds E) (pairing_key n) (ttl_secs (redis_config (regs ! p))) ja s2 = (Inr (), s3)"
    and a2: "r_setex (redis_cmds E) (token_key (uuid_text E) (new_v4 a)) (ttl_secs (redis_config (regs ! p))) n s3 = (Inr (), s4)"
    and b1: "r_setex (redis_cmds E) (pairing_key n) (ttl_secs (redis_config (regs ! q))) jb s4 = (Inr (), s5)"
    and b2: "r_setex (redis_cmds E) (token_key (uuid_text E) (new_v4 b)) (ttl_secs (redis_config (regs ! q))) n s5 = (Inr (), s6)"
  shows "\<exists>regs' log. fold (cluster_advance E) [0, 1, 0, 0, 1, 1, 0, 1] (two_firsts regs s0 n (p, i, a) (q, j, b)) =
      \<lparr>servers = regs', store = s6,
       calls = [(p, RedisRegister n i a (QDone (Inr (RWaiting (new_v4 a) (new_chan a))))),
                (q, RedisRegister n j b (QDone (Inr (RWaiting (new_v4 b) (new_chan b)))))],
       cluster_log = log\<rparr> \<and> (\<forall>c x. ChanSend c x \<notin> set log)
    \<and> map_option connection_info (store_client (json E) (view s6) n) = Some j"
proof -
  have u: "u = None" "view s1 (pairing_key n) = None" using r.getdel_ok [OF g1] none by simp_all
  have v: "v = None" using r.getdel_ok [OF g2] u(2) by simp
  have "view s6 (pairing_key n) = Some jb" using r.setex_ok [OF b2] r.setex_ok [OF b1] by simp
  then have "map_option connection_info (store_client (json E) (view s6) n) = Some j"
    using stored_client [OF jb] by (simp add: redis_waiting_def)
  then show ?thesis
    using assms(1,2)
    by (simp add: two_firsts_def cluster_advance_def answer_def converted_def g1 g2 a1 a2 b1 b2 ja jb u v
        insert_waiter_def drop_tx_def split: option.splits)
qed

lemma early:
  assumes p: "p < length regs" and none: "view s0 (pairing_key n) = None"
    and free: "dm_get (waiters_map E) n (local_waiters (regs ! p)) = None"
    and ja: "client_to_json (json E) (redis_waiting (regs ! p) i (new_v4 a) a) = Inr ja"
    and g1: "r_getdel (redis_cmds E) (pairing_key n) s0 = (Inr u, s1)"
    and a1: "r_setex (redis_cmds E) (pairing_key n) (ttl_secs (redis_config (regs ! p))) ja s1 = (Inr (), s2)"
    and g2: "r_getdel (redis_cmds E) (pairing_key n) s2 = (Inr v, s3)"
    and d: "r_del (redis_cmds E) [token_key (uuid_text E) (new_v4 a)] s3 = (Inr (), s4)"
    and a2: "r_setex (redis_cmds E) (token_key (uuid_text E) (new_v4 a)) (ttl_secs (redis_config (regs ! p))) n s4 = (Inr (), s5)"
  shows "\<exists>regs'. fold (cluster_advance E) [0, 0, 1, 1, 1, 0, 0] (two_firsts regs s0 n (p, i, a) (p, j, b)) =
      \<lparr>servers = regs', store = s5,
       calls = [(p, RedisRegister n i a (QDone (Inr (RWaiting (new_v4 a) (new_chan a))))),
                (p, RedisRegister n j b (QDone (Inr (RPaired (new_v4 b) i))))],
       cluster_log = []\<rparr>
    \<and> view s5 (pairing_key n) = None \<and> dm_get (waiters_map E) n (local_waiters (regs' ! p)) = Some (new_chan a)"
proof -
  let ?w = "redis_waiting (regs ! p) i (new_v4 a) a"
  let ?w' = "?w\<lparr>registered_at := registered_at ?w div 1000000 * 1000000\<rparr>"
  have u: "u = None" using r.getdel_ok [OF g1] none by simp
  have v: "v = Some ja" "view s3 (pairing_key n) = None" using r.getdel_ok [OF g2] r.setex_ok [OF a1] by simp_all
  have w: "client_from_json (json E) ja = Inr ?w'" by (rule j.json_roundtrip [OF ja])
  have gone: "view s5 (pairing_key n) = None"
    using r.setex_ok [OF a2] r.del_ok [OF d] v(2) by (simp add: restrict_map_def)
  obtain ws where rm: "dm_remove (waiters_map E) n (local_waiters (regs ! p)) = (None, ws)"
    and ws: "dm_get (waiters_map E) n ws = None"
    using w.remove_eq [of n "local_waiters (regs ! p)"] free by (metis option.map_disc_iff w.get_remove)
  show ?thesis
    using p gone d
    by (simp add: two_firsts_def cluster_advance_def answer_def converted_def g1 g2 a1 a2 ja u v(1) w rm ws
        insert_waiter_def drop_tx_def redis_waiting_sel w.get_insert)
qed

end

lemma cluster_two_firsts:
  assumes "p < length regs" and "q < length regs"
  shows "cluster_run E view (cluster_new regs st) (two_firsts regs st n (p, i, a) (q, j, b))"
proof -
  have begins: "redis_begins (RedisRegister n i a QGetdel)" for i a
    by (auto simp: redis_register_start_def intro: exI [of _ None])
  let ?one = "(cluster_new regs st)\<lparr>calls := calls (cluster_new regs st) @ [(p, RedisRegister n i a QGetdel)]\<rparr>"
  have one: "cluster_run E view (cluster_new regs st) ?one"
    by (rule cluster_run.call [OF cluster_run.start begins]) (simp add: cluster_new_def assms)
  have "cluster_run E view (cluster_new regs st) (?one\<lparr>calls := calls ?one @ [(q, RedisRegister n j b QGetdel)]\<rparr>)"
    by (rule cluster_run.call [OF one begins]) (simp add: cluster_new_def assms)
  then show ?thesis by (simp add: cluster_new_def two_firsts_def)
qed

lemma cluster_run_trans:
  "cluster_run E view cl' cl'' \<Longrightarrow> cluster_run E view cl cl' \<Longrightarrow> cluster_run E view cl cl''"
  by (induction rule: cluster_run.induct) (auto intro: cluster_run.intros)

lemma rdemo_waiting: "redis_waiting (rdemo_reg ''a'') (demo_peer 1) 1 (demo_runtime 1) = rdemo_client ''a''"
  by (simp add: redis_waiting_def rdemo_client_def rdemo_ttl)

text \<open>The replies of the store when the second client comes too early.\<close>

lemma rdemo_early_replies:
  "ref_view (rdemo_store [] []) (pairing_key demo_name) = None"
  "dm_get (waiters_map ref_env) demo_name (local_waiters ([rdemo_reg ''a''] ! 0)) = None"
  "client_to_json (json ref_env) (redis_waiting ([rdemo_reg ''a''] ! 0) (demo_peer 1) (new_v4 (demo_runtime 1)) (demo_runtime 1))
     = Inr (rdemo_js ''a'')"
  "r_getdel (redis_cmds ref_env) (pairing_key demo_name) (rdemo_store [] []) = (Inr None, rdemo_store [] [])"
  "r_setex (redis_cmds ref_env) (pairing_key demo_name) (ttl_secs (redis_config ([rdemo_reg ''a''] ! 0))) (rdemo_js ''a'')
     (rdemo_store [] []) = (Inr (), rdemo_store [(pairing_key demo_name, rdemo_js ''a'', 60)] [])"
  "r_getdel (redis_cmds ref_env) (pairing_key demo_name) (rdemo_store [(pairing_key demo_name, rdemo_js ''a'', 60)] [])
     = (Inr (Some (rdemo_js ''a'')), rdemo_store [] [])"
  "r_del (redis_cmds ref_env) [token_key (uuid_text ref_env) (new_v4 (demo_runtime 1))] (rdemo_store [] [])
     = (Inr (), rdemo_store [] [])"
  "r_setex (redis_cmds ref_env) (token_key (uuid_text ref_env) (new_v4 (demo_runtime 1)))
     (ttl_secs (redis_config ([rdemo_reg ''a''] ! 0))) demo_name (rdemo_store [] [])
     = (Inr (), rdemo_store [(token_key hyphenated_ops 1, demo_name, 60)] [])"
proof -
  show "client_to_json (json ref_env) (redis_waiting ([rdemo_reg ''a''] ! 0) (demo_peer 1) (new_v4 (demo_runtime 1)) (demo_runtime 1))
     = Inr (rdemo_js ''a'')"
    by (simp add: rdemo_waiting rdemo_js_ok del: One_nat_def)
qed (simp_all add: ref_defs rdemo_ttl rdemo_reg_def ref_backend.w.get_new)

lemma rdemo_early:
  obtains cl where "cluster_run ref_env ref_view (cluster_new [rdemo_reg ''a''] (rdemo_store [] [])) cl"
    and "calls cl = [(0, RedisRegister demo_name (demo_peer 1) (demo_runtime 1) (QDone (Inr (RWaiting 1 1)))),
                     (0, RedisRegister demo_name (demo_peer 2) (demo_runtime 2) (QDone (Inr (RPaired 2 (demo_peer 1)))))]"
proof -
  let ?start = "two_firsts [rdemo_reg ''a''] (rdemo_store [] []) demo_name (0, demo_peer 1, demo_runtime 1) (0, demo_peer 2, demo_runtime 2)"
  define cl where "cl = fold (cluster_advance ref_env) [0, 0, 1, 1, 1, 0, 0] ?start"
  have "cluster_run ref_env ref_view ?start cl"
    unfolding cl_def by (rule cluster_run_schedule) (simp add: two_firsts_def)
  then have "cluster_run ref_env ref_view (cluster_new [rdemo_reg ''a''] (rdemo_store [] [])) cl"
    by (rule cluster_run_trans) (rule cluster_two_firsts, simp_all)
  moreover have "calls cl = [(0, RedisRegister demo_name (demo_peer 1) (demo_runtime 1) (QDone (Inr (RWaiting 1 1)))),
                     (0, RedisRegister demo_name (demo_peer 2) (demo_runtime 2) (QDone (Inr (RPaired 2 (demo_peer 1)))))]"
    using ref_backend.early [OF _ rdemo_early_replies, where j = "demo_peer 2" and b = "demo_runtime 2"]
    unfolding cl_def by auto
  ultimately show thesis by (rule that)
qed

subsection \<open>Properties\<close>

text \<open>
  A call on the Redis backend that is not interrupted by another call does what the
  operation on the whole state does: \<open>register\<close> within five commands, \<open>unregister\<close> within two,
  and the sweep after it has checked its names, with the same result, state and events and
  the same errors.
\<close>

theorem redis_calls_alone:
  "redis_alone E 5 (RedisRegister n i sp (redis_register_start rtok)) (reg, st)
     = map_prod (\<lambda>r. RedisRegister n i sp (QDone r)) id (redis_register E n i rtok sp (reg, st))
   \<and> redis_alone E 2 (RedisUnregister n t UDel) (reg, st)
     = map_prod (\<lambda>r. RedisUnregister n t (UEnd r)) id (redis_unregister E n t (reg, st))
   \<and> (\<exists>k. redis_alone E k (RedisCleanup CList) (reg, st)
     = map_prod (\<lambda>c. RedisCleanup (CDone c)) id (redis_cleanup_expired E (reg, st)))"
  by (intro conjI redis_alone_register redis_alone_unregister redis_alone_cleanup)

text \<open>
  Claim C5. However the commands of any number of calls on any number of servers interleave,
  fail or find keys expired, a waiting registration is handed out at most once: under a name,
  the clients told an address are at most as many as the calls of \<open>register\<close> made with that
  address that were not given a peer themselves.
\<close>

theorem redis_exclusive_pairing:
  assumes "redis_faults E view clock deadline" and "\<forall>n. view st (pairing_key n) = None"
    and "cluster_run E view (cluster_new regs st) cl"
  shows "length (filter (told n x \<circ> snd) (calls cl)) \<le> length (filter (unpaired n x \<circ> snd) (calls cl))"
proof -
  have "cluster_claims E view n x cl \<le> cluster_unpaired n x cl"
    using redis_faults.cluster_run_claims [OF assms(1,3)] assms(2) by blast
  then show ?thesis
    using told_claims [of n x "calls cl"] by (simp add: cluster_claims_def cluster_unpaired_def unpaired_length)
qed

theorem redis_exclusive_pairing_witness:
  "\<exists>cl. cluster_run ref_env ref_view (cluster_new [rdemo_reg ''a''] (rdemo_store [] [])) cl
     \<and> length (filter (told demo_name (demo_peer 1) \<circ> snd) (calls cl)) = 1
     \<and> 1 \<le> length (filter (unpaired demo_name (demo_peer 1) \<circ> snd) (calls cl))"
proof -
  have empty: "\<forall>n. ref_view (rdemo_store [] []) (pairing_key n) = None" by (simp add: ref_defs)
  obtain cl where run: "cluster_run ref_env ref_view (cluster_new [rdemo_reg ''a''] (rdemo_store [] [])) cl"
    and calls: "calls cl = [(0, RedisRegister demo_name (demo_peer 1) (demo_runtime 1) (QDone (Inr (RWaiting 1 1)))),
                            (0, RedisRegister demo_name (demo_peer 2) (demo_runtime 2) (QDone (Inr (RPaired 2 (demo_peer 1)))))]"
    by (rule rdemo_early)
  have "told demo_name (demo_peer 1) (snd (calls cl ! 1))" "\<not> told demo_name (demo_peer 1) (snd (calls cl ! 0))"
    by (simp_all add: calls)
  then have "length (filter (told demo_name (demo_peer 1) \<circ> snd) (calls cl)) = 1" by (simp add: calls)
  with redis_exclusive_pairing [OF ref_faults.redis_faults_axioms empty run, of demo_name "demo_peer 1"] run
  show ?thesis by auto
qed

text \<open>
  Claim C30. Two clients that ask for a free name at the same time, on two servers or on one, can
  miss each other although every command is atomic and succeeds: \<open>GETDEL\<close> finds nothing for
  either, both store their entry, the second replaces the first, and both wait. Nobody is
  notified, and only the second can still be found.
\<close>

theorem redis_first_clients_race:
  assumes "redis_backend E view clock deadline"
    and "p < length regs" and "q < length regs" and "view s0 (pairing_key n) = None"
    and "client_to_json (json E) (redis_waiting (regs ! p) i (new_v4 a) a) = Inr ja"
    and "client_to_json (json E) (redis_waiting (regs ! q) j (new_v4 b) b) = Inr jb"
    and "r_getdel (redis_cmds E) (pairing_key n) s0 = (Inr u, s1)"
    and "r_getdel (redis_cmds E) (pairing_key n) s1 = (Inr v, s2)"
    and "r_setex (redis_cmds E) (pairing_key n) (ttl_secs (redis_config (regs ! p))) ja s2 = (Inr (), s3)"
    and "r_setex (redis_cmds E) (token_key (uuid_text E) (new_v4 a)) (ttl_secs (redis_config (regs ! p))) n s3 = (Inr (), s4)"
    and "r_setex (redis_cmds E) (pairing_key n) (ttl_secs (redis_config (regs ! q))) jb s4 = (Inr (), s5)"
    and "r_setex (redis_cmds E) (token_key (uuid_text E) (new_v4 b)) (ttl_secs (redis_config (regs ! q))) n s5 = (Inr (), s6)"
  shows "\<exists>cl. cluster_run E view (cluster_new regs s0) cl
    \<and> calls cl = [(p, RedisRegister n i a (QDone (Inr (RWaiting (new_v4 a) (new_chan a))))),
                  (q, RedisRegister n j b (QDone (Inr (RWaiting (new_v4 b) (new_chan b)))))]
    \<and> (\<forall>c x. ChanSend c x \<notin> set (cluster_log cl))
    \<and> map_option connection_info (store_client (json E) (view (store cl)) n) = Some j"
proof -
  let ?start = "two_firsts regs s0 n (p, i, a) (q, j, b)"
  obtain regs' log where fin: "fold (cluster_advance E) [0, 1, 0, 0, 1, 1, 0, 1] ?start =
      \<lparr>servers = regs', store = s6,
       calls = [(p, RedisRegister n i a (QDone (Inr (RWaiting (new_v4 a) (new_chan a))))),
                (q, RedisRegister n j b (QDone (Inr (RWaiting (new_v4 b) (new_chan b)))))],
       cluster_log = log\<rparr>" "\<forall>c x. ChanSend c x \<notin> set log"
      "map_option connection_info (store_client (json E) (view s6) n) = Some j"
    using redis_backend.race [OF assms] by blast
  define cl where "cl = fold (cluster_advance E) [0, 1, 0, 0, 1, 1, 0, 1] ?start"
  have "cluster_run E view ?start cl"
    unfolding cl_def by (rule cluster_run_schedule) (simp add: two_firsts_def)
  from cluster_run_trans [OF this cluster_two_firsts [OF assms(2,3)]] fin [folded cl_def]
  show ?thesis by (intro exI [of _ cl]) simp
qed

theorem redis_first_clients_race_witness:
  "\<exists>cl. cluster_run ref_env ref_view (cluster_new [rdemo_reg ''a'', rdemo_reg ''b''] (rdemo_store [] [])) cl
     \<and> snd (calls cl ! 0) = RedisRegister demo_name (demo_peer 1) (demo_runtime 1) (QDone (Inr (RWaiting 1 1)))
     \<and> snd (calls cl ! 1) = RedisRegister demo_name (demo_peer 2) (demo_runtime 2) (QDone (Inr (RWaiting 2 2)))"
proof -
  let ?regs = "[rdemo_reg ''a'', rdemo_reg ''b'']"
  obtain jb where jb: "client_to_json (json ref_env) (redis_waiting (?regs ! 1) (demo_peer 2) (new_v4 (demo_runtime 2)) (demo_runtime 2)) = Inr jb"
    by (simp add: ref_json_def ref_client_to_json_def redis_waiting_def)
  have ja: "client_to_json (json ref_env) (redis_waiting (?regs ! 0) (demo_peer 1) (new_v4 (demo_runtime 1)) (demo_runtime 1)) = Inr (rdemo_js ''a'')"
    by (simp add: rdemo_waiting rdemo_js_ok del: One_nat_def)
  let ?t = "\<lambda>k. token_key hyphenated_ops (word_of_nat k)"
  let ?es = "[(?t 1, demo_name, 60), (pairing_key demo_name, rdemo_js ''a'', 60)]"
  have sets:
    "r_setex (redis_cmds ref_env) (pairing_key demo_name) (ttl_secs (redis_config (?regs ! 0))) (rdemo_js ''a'') (rdemo_store [] [])
       = (Inr (), rdemo_store [(pairing_key demo_name, rdemo_js ''a'', 60)] [])"
    "r_setex (redis_cmds ref_env) (token_key (uuid_text ref_env) (new_v4 (demo_runtime 1))) (ttl_secs (redis_config (?regs ! 0))) demo_name
       (rdemo_store [(pairing_key demo_name, rdemo_js ''a'', 60)] []) = (Inr (), rdemo_store ?es [])"
    "r_setex (redis_cmds ref_env) (pairing_key demo_name) (ttl_secs (redis_config (?regs ! 1))) jb (rdemo_store ?es [])
       = (Inr (), rdemo_store ((pairing_key demo_name, jb, 60) # ?es) [])"
    "r_setex (redis_cmds ref_env) (token_key (uuid_text ref_env) (new_v4 (demo_runtime 2))) (ttl_secs (redis_config (?regs ! 1))) demo_name
       (rdemo_store ((pairing_key demo_name, jb, 60) # ?es) [])
       = (Inr (), rdemo_store ((?t 2, demo_name, 60) # (pairing_key demo_name, jb, 60) # ?es) [])"
    by (simp_all add: ref_defs rdemo_ttl)
  have "0 < length ?regs" "1 < length ?regs" by simp_all
  from redis_first_clients_race [OF ref_backend.redis_backend_axioms this rdemo_early_replies(1) ja jb
      rdemo_early_replies(4,4) sets]
  show ?thesis by auto
qed

text \<open>
  Claim C31. On a single server a second client that arrives while the first is still storing
  its entry gets the first client's address, and the first client is never told: its channel is
  put into the local map only after the second has looked there. The first client is sent
  \<open>Waiting\<close>, nothing happens on its channel, and its entry has left the store.
\<close>

theorem redis_early_pairing_silent:
  assumes "redis_backend E view clock deadline"
    and "p < length regs" and "view s0 (pairing_key n) = None"
    and "dm_get (waiters_map E) n (local_waiters (regs ! p)) = None"
    and "client_to_json (json E) (redis_waiting (regs ! p) i (new_v4 a) a) = Inr ja"
    and "r_getdel (redis_cmds E) (pairing_key n) s0 = (Inr u, s1)"
    and "r_setex (redis_cmds E) (pairing_key n) (ttl_secs (redis_config (regs ! p))) ja s1 = (Inr (), s2)"
    and "r_getdel (redis_cmds E) (pairing_key n) s2 = (Inr v, s3)"
    and "r_del (redis_cmds E) [token_key (uuid_text E) (new_v4 a)] s3 = (Inr (), s4)"
    and "r_setex (redis_cmds E) (token_key (uuid_text E) (new_v4 a)) (ttl_secs (redis_config (regs ! p))) n s4 = (Inr (), s5)"
  shows "\<exists>cl. cluster_run E view (cluster_new regs s0) cl
    \<and> calls cl = [(p, RedisRegister n i a (QDone (Inr (RWaiting (new_v4 a) (new_chan a))))),
                  (p, RedisRegister n j b (QDone (Inr (RPaired (new_v4 b) i))))]
    \<and> cluster_log cl = [] \<and> view (store cl) (pairing_key n) = None
    \<and> dm_get (waiters_map E) n (local_waiters (servers cl ! p)) = Some (new_chan a)"
proof -
  let ?start = "two_firsts regs s0 n (p, i, a) (p, j, b)"
  obtain regs' where fin: "fold (cluster_advance E) [0, 0, 1, 1, 1, 0, 0] ?start =
      \<lparr>servers = regs', store = s5,
       calls = [(p, RedisRegister n i a (QDone (Inr (RWaiting (new_v4 a) (new_chan a))))),
                (p, RedisRegister n j b (QDone (Inr (RPaired (new_v4 b) i))))],
       cluster_log = []\<rparr>"
      "view s5 (pairing_key n) = None" "dm_get (waiters_map E) n (local_waiters (regs' ! p)) = Some (new_chan a)"
    using redis_backend.early [OF assms] by blast
  define cl where "cl = fold (cluster_advance E) [0, 0, 1, 1, 1, 0, 0] ?start"
  have "cluster_run E view ?start cl"
    unfolding cl_def by (rule cluster_run_schedule) (simp add: two_firsts_def)
  from cluster_run_trans [OF this cluster_two_firsts [OF assms(2,2)]] fin [folded cl_def]
  show ?thesis by (intro exI [of _ cl]) simp
qed

theorem redis_early_pairing_silent_witness:
  "\<exists>cl. cluster_run ref_env ref_view (cluster_new [rdemo_reg ''a''] (rdemo_store [] [])) cl
     \<and> snd (calls cl ! 0) = RedisRegister demo_name (demo_peer 1) (demo_runtime 1) (QDone (Inr (RWaiting 1 1)))
     \<and> snd (calls cl ! 1) = RedisRegister demo_name (demo_peer 2) (demo_runtime 2) (QDone (Inr (RPaired 2 (demo_peer 1))))
     \<and> cluster_log cl = []"
  using redis_early_pairing_silent [OF ref_backend.redis_backend_axioms _ rdemo_early_replies,
      where j = "demo_peer 2" and b = "demo_runtime 2"] by auto

end
