(* ===== verification/Spec2Isabelle.thy ===== *)
theory Spec2Isabelle
  imports Lifecycle Typing Mem_Linear Redis_Concurrent
begin

text \<open>
  \<^bold>\<open>TCPunch rendezvous server: verification library\<close>

  TCPunch lets two clients behind NATs connect to each other: both contact a rendezvous server
  with the same \<^emph>\<open>pairing name\<close>, and the server tells each of them the public address of the
  other. This library models the Rust server (\<open>server/rust/src/\<close>) and proves what it promises.

  \<^bold>\<open>The program.\<close> A connection sends one request of 141 bytes (\<open>protocol.rs\<close>). The connection's
  handler (\<open>server.rs\<close>) registers the name with the registry (\<open>registry.rs\<close>). The first client
  under a name waits: the registry keeps its address, a reconnect token and the sending half of a
  oneshot channel, and the handler waits on the receiving half. The second client takes the entry
  out, gets the first one's address and sends its own address through the channel. Waiting
  clients are removed by a timeout of their handler or by a background sweep. The registry is
  either in memory or in Redis, shared by several servers. \<open>health.rs\<close> reports counters over
  HTTP, \<open>main.rs\<close> wires everything and drains connections at shutdown.

  \<^bold>\<open>Theories.\<close>

  \<^item> \<open>Prelude\<close>: machine integers, checked buffer access, durations, list lemmas.
  \<^item> \<open>Rust_Std\<close>: UTF-8 validation, big-endian \<open>u16\<close>, socket addresses of the standard library.
  \<^item> \<open>Externals\<close>: the crates \<open>uuid\<close>, \<open>dashmap\<close> and \<open>tokio::sync::oneshot\<close> as records of operations,
    with their documented behaviour as the locales \<open>uuid_codec\<close>, \<open>dashmap\<close> and \<open>oneshot\<close>, each
    interpreted on an executable instance.
  \<^item> \<open>Protocol\<close> (\<open>protocol.rs\<close>): both messages, field by field, with encoders and decoders that
    can panic. Lemmas: byte layout, no panic, round trips and their exact limits.
  \<^item> \<open>Registry_Core\<close> (top of \<open>registry.rs\<close>): the shared data; the abstract \<^emph>\<open>waiting room\<close>, at most
    one waiting client per name; the locale \<open>pairing_registry\<close>, the contract between a backend
    and its clients, with rendezvous, reconnection, introduction and single delivery proved once.
  \<^item> \<open>In_Memory\<close> (\<open>InMemoryRegistry\<close>): the two maps, every operation, the sweep. Lemmas: the maps stay
    coherent, the backend fulfils the contract, what the sweep removes, what \<open>unregister\<close> leaks.
  \<^item> \<open>Mem_Steps\<close>: the same calls cut at their map accesses, one function per statement. Lemmas: an
    uninterrupted call is the operation of \<open>In_Memory\<close>.
  \<^item> \<open>Mem_Concurrent\<close>: any number of these calls interleaved, under the shard locks of the two
    maps. Lemmas: channels are conserved (each is used at most once), who is introduced to whom,
    when calls return, and the two interleavings that go wrong.
  \<^item> \<open>Mem_Linear\<close>: these interleavings when no two calls under one name and no sweep and other call
    overlap. Lemmas: what a call relies on and guarantees, every run is linearizable with respect
    to the waiting room, the token map is bounded.
  \<^item> \<open>Redis_Interface\<close>: the Redis commands and the JSON codec as the locales \<open>redis_store\<close> and
    \<open>json_codec\<close>, with a store that has deadlines, a clock and scripted faults as instance.
  \<^item> \<open>Redis_Registry\<close> (\<open>RedisRegistry\<close>): every operation, with every \<open>?\<close> as a branch. Lemmas: on one
    server and between expirations the backend fulfils the contract; behaviour across servers,
    on faults and when keys expire.
  \<^item> \<open>Redis_Concurrent\<close>: the calls cut at their Redis commands, interleaved on several servers over one
    store, with failing commands (locale \<open>redis_faults\<close>) and expiring keys. Lemmas: an
    uninterrupted call is the operation of \<open>Redis_Registry\<close>, a waiting registration is handed out
    at most once, and the two interleavings that lose a client.
  \<^item> \<open>Registry\<close> (\<open>enum Registry\<close>): the dispatch, which keeps the contract, and the agreement of the
    two backends.
  \<^item> \<open>Server\<close> (\<open>server.rs\<close>): metrics as 64-bit words, \<open>handle_connection\<close> as a request phase and a
    wait phase. Lemmas: no panic, the frame of every branch, the accounting of connections.
  \<^item> \<open>Accept_Loop\<close> (\<open>run_server\<close>): the accept loop and its tasks as a step relation with every
    interleaving. Lemmas: the connection counter, the connection limit, no waiting client is lost.
  \<^item> \<open>Health\<close> (\<open>health.rs\<close>): the endpoints and the text of the metrics page.
  \<^item> \<open>Typing\<close>: the type invariant of the server state, from the decoder to both backends.
  \<^item> \<open>Main_Prog\<close> (\<open>main.rs\<close>): configurations, choice of the backend, the drain loop.
  \<^item> \<open>Lifecycle\<close> (\<open>main.rs\<close>, \<open>run_health_server\<close>): the process from start to exit: both server tasks,
    the signal, the drain, the abort. Lemmas: what the process guarantees until it exits, and that
    the health endpoints report the live state.
  \<^item> this theory: the end-to-end rendezvous over all of them.

  \<^bold>\<open>Correspondence.\<close> A Rust function is one definition of the same name, prefixed where two types
  share a method name (\<open>mem_register\<close>, \<open>redis_register\<close>, \<open>registry_register\<close>). \<open>&self\<close> state is
  passed and returned. \<open>Result\<close> is a sum type and \<open>Option\<close> an option; an operation that may panic
  returns an option whose \<^term>\<open>None\<close> is the panic. What an operation does to the sending halves
  of channels is returned as a list of events (\<^term>\<open>ChanSend c d\<close>, \<^term>\<open>ChanDrop c\<close>). Values
  the runtime supplies (fresh UUIDs, channels, clock readings) and the outcomes of awaited reads,
  writes, waits and Redis commands are arguments, so a theorem holds for all of them.

  \<^bold>\<open>Atomicity.\<close> In \<open>Accept_Loop\<close> and \<open>Lifecycle\<close> the request phase of a handler (the end of the read,
  the registry call, the write of the first response) is one step, although the handler can be
  suspended at each of these \<open>await\<close>s, and so is the wait phase; the timeout of a wait and the
  \<open>unregister\<close> after it are separate steps. In \<open>Lifecycle\<close> a poll of the drain loop that reads zero
  and the return of \<open>main\<close> are one step; a task that begins between the two is not considered.
  What may happen \<^emph>\<open>inside\<close> a registry call is the subject of \<open>Mem_Concurrent\<close> and \<open>Redis_Concurrent\<close>:
  there a step is one access to a map or one Redis command. Every interleaving keeps the
  introductions right and the channels single-use. Calls that overlap under one name can go
  wrong (two first clients can miss each other, a token can be left behind); calls that do not
  are linearizable (\<open>Mem_Linear\<close>), so the rendezvous of this theory, whose registry calls are
  whole, is for calls that do not overlap under one name.

  \<^bold>\<open>Locks.\<close> \<open>DashMap\<close> is modelled as shards behind readers-writer locks; which key is in which shard
  is a parameter. A reader is admitted whenever no writer holds the lock; queueing of waiting
  writers before readers, which some lock implementations do, is not modelled.

  \<^bold>\<open>Termination and bounds.\<close> All definitions are total functions; the endless loops (accept loop,
  sweeps, drain) are step relations or take the list of their turns. The only step counts are
  those of \<open>run_alone\<close> and \<open>redis_alone\<close>, which run one call without interruption: five steps are
  enough for \<open>register\<close> and two for \<open>unregister\<close>, and for a sweep a sufficient number is proved to
  exist. Counters are 64-bit words that wrap; \<open>usize\<close> is 64 bits wide.

  \<^bold>\<open>Not modelled.\<close> TCP and HTTP themselves, logging, command-line parsing, the bodies of third-party
  crates (parameters with stated laws), the re-exports of \<open>lib.rs\<close>; the C++ client and the older
  C++ server, the build files and the documentation, which are not part of the Rust server.
\<close>

subsection \<open>Two clients meet\<close>

text \<open>The frames that were sent on a connection, in order.\<close>

definition frames_to :: "nat \<Rightarrow> ('p, 't, 'w, 'r) system \<Rightarrow> byte list list" where
  "frames_to a s = map snd (filter (\<lambda>(i, f). i = a) (sent s))"

text \<open>
  The second half of a rendezvous as a state: the first client's channel holds the second
  one's address and its handler has not run yet, or it has run and its frame is out, after the
  frames \<open>fs\<close> that were out before.
\<close>

definition met where
  "met recv a n t c infoA infoB fs f s \<longleftrightarrow> a < length (tasks s) \<and>
     (tasks s ! a = Waits n t c infoA \<and> recv (log s) c = RecvOk infoB \<and> frames_to a s = fs \<or>
      tasks s ! a = Ended \<and> frames_to a s = fs @ [f])"

lemma recv_stable: "oneshot recv \<Longrightarrow> recv lg c = RecvOk d \<Longrightarrow> recv (lg @ ev) c = RecvOk d"
proof -
  assume o: "oneshot recv" and r: "recv lg c = RecvOk d"
  have "\<exists>e\<in>set lg. event_chan e = c"
    using oneshot.recv_cases [OF o, of lg c] r by force
  then obtain pre e post where lg: "lg = pre @ e # post" and e: "event_chan e = c"
    and pre: "\<forall>e\<in>set pre. event_chan e \<noteq> c"
    using split_list_first_prop [of lg "\<lambda>e. event_chan e = c"] by blast
  then show ?thesis
    using r oneshot.recv_send [OF o pre] oneshot.recv_drop [OF o pre] by (cases e) auto
qed

lemma met_stays:
  assumes "oneshot recv" and "met recv a n t c infoA infoB fs f s"
    and "a < length (tasks s')" and "tasks s' ! a = tasks s ! a" and "\<exists>ev. log s' = log s @ ev"
    and "frames_to a s' = frames_to a s"
  shows "met recv a n t c infoA infoB fs f s'"
proof -
  obtain ev where "log s' = log s @ ev" using assms(5) by blast
  then have "recv (log s) c = RecvOk infoB \<Longrightarrow> recv (log s') c = RecvOk infoB"
    using recv_stable [OF assms(1), of "log s" c infoB ev] by simp
  with assms(2-4,6) show ?thesis unfolding met_def by auto
qed

lemma frames_to_phase:
  "frames_to a (apply_phase i (h, frames, st', ev) s) = frames_to a s @ (if i = a then frames else [])"
  by (simp add: frames_to_def apply_phase_def comp_def)

lemma met_step:
  assumes U: "uuid_codec U" and o: "oneshot recv"
    and met: "met recv a n t c infoA infoB fs (frame U (response_paired infoA infoB t)) s"
    and step: "server_step recv U B view s s'"
  shows "met recv a n t c infoA infoB fs (frame U (response_paired infoA infoB t)) s'"
proof -
  note stay = met_stays [OF o met]
  have a: "a < length (tasks s)" "tasks s ! a = Waits n t c infoA \<or> tasks s ! a = Ended"
    using met unfolding met_def by blast+
  have other: "met recv a n t c infoA infoB fs (frame U (response_paired infoA infoB t)) (apply_phase i p s0)"
    if i: "i \<noteq> a" and s0: "tasks s0 = tasks s" "log s0 = log s" "sent s0 = sent s" for i p s0
  proof -
    obtain h frames st' ev where p: "p = (h, frames, st', ev)" by (cases p) auto
    have "frames_to a (apply_phase i p s0) = frames_to a s"
      unfolding p frames_to_phase using i s0(3) by (simp add: frames_to_def)
    then show ?thesis using i a(1) by (intro stay) (auto simp: apply_phase_def p s0)
  qed
  show ?thesis
    using step
  proof cases
    case (accept e)
    then show ?thesis
      using a by (intro stay) (auto simp: accept_step_def frames_to_def nth_append split: accept_event.splits)
  next
    case (start i addr)
    then have "i \<noteq> a" using a(2) by auto
    with start a(1) show ?thesis by (intro stay) (auto simp: start_task_def frames_to_def)
  next
    case (request i addr sp reading written p)
    then have "i \<noteq> a" using a(2) by auto
    with request(1) show ?thesis by (simp add: other)
  next
    case (wake i n' t' c' info' d waited written p)
    show ?thesis
    proof (cases "i = a")
      case False
      with wake(1) show ?thesis by (simp add: other)
    next
      case True
      with wake(3) a(2) have w: "n' = n" "t' = t" "c' = c" "info' = infoA" by auto
      with met True wake(3) have "recv (log s) c = RecvOk infoB" "frames_to a s = fs" unfolding met_def by auto
      with wake(4) w have "waited = WaitOk infoB" by auto
      with wake(5) w obtain res st' ev where "p = (Returned res, [frame U (response_paired infoA infoB t)], st', ev)"
        using uuid_codec.wait_total [OF U, of B n t infoA waited written "srv s"] by auto
      with wake(1) True a(1) \<open>frames_to a s = fs\<close> show ?thesis
        by (simp add: met_def frames_to_phase) (simp add: apply_phase_def)
    qed
  next
    case (timer i n' t' c' info')
    then have "i \<noteq> a" using met unfolding met_def by auto
    with timer a(1) show ?thesis by (intro stay) (auto simp: frames_to_def)
  next
    case (expire i n' t' info' written p)
    then have "i \<noteq> a" using a(2) by auto
    with expire(1) show ?thesis by (simp add: other)
  next
    case (sweep now reg' ev)
    with a(1) show ?thesis by (intro stay) (auto simp: frames_to_def)
  qed
qed

text \<open>The request of the second client is handled.\<close>

lemma pairing_request:
  assumes "uuid_codec U" and "mem_backend (mem B)" and "oneshot recv" and "findable B s"
    and "Waits n t c infoA \<in> set (tasks s)" and "recv (log s) c = RecvPending"
    and "from_socket_addr addrB = Some infoB"
    and "client_request_from_bytes U buf = Some (Inr req)" and "pairing_name req = n" and "request_token req \<noteq> Some t"
  shows "\<exists>res st'. handle_request U B addrB (ReadOk buf) written sp (srv s) =
    Some (Returned res, [frame U (response_paired infoB infoA (new_v4 sp))], st', [ChanSend c infoB])"
proof -
  obtain reg e where reg: "registry (srv s) = InMemory reg" and ok: "mem_ok (mem B) reg"
    and e: "mem_entry (mem B) reg (pairing_name req) = Some e" and ent: "connection_info (waiting_client e) = infoA"
      "entry_token e = t" "notify_tx e = Some c"
    using findable_entry [OF assms(2-6)] assms(9) by metis
  have tok: "request_token req \<noteq> Some (entry_token e)" using assms(10) ent(2) by simp
  obtain x reg' ev where m: "mem_register (mem B) (pairing_name req) infoB (request_token req) sp reg = (x, reg', ev)"
    by (cases "mem_register (mem B) (pairing_name req) infoB (request_token req) sp reg") auto
  show ?thesis
    using mem_backend.second_request [OF assms(2,1) refl reg ok e tok m, of written]
    by (cases written) (simp_all add: request_registers [OF assms(7,8)] return_ok_def ent send_tx_def)
qed

lemma pairing_step:
  assumes "oneshot recv" and "recv (log s) c = RecvPending"
    and "b < length (tasks s)" and "tasks s ! b = Reading addrB"
    and "new_chan sp = next_chan s" and "registry_admits B view sp (registry (srv s))"
    and "handle_request U B addrB reading written sp (srv s) = Some (Returned res, [f], st', [ChanSend c infoB])"
  defines "s1 \<equiv> apply_phase b (Returned res, [f], st', [ChanSend c infoB]) (s\<lparr>next_chan := next_chan s + 1\<rparr>)"
  shows "server_step recv U B view s s1" and "tasks s1 = (tasks s)[b := Ended]" and "sent s1 = sent s @ [(b, f)]"
    and "recv (log s1) c = RecvOk infoB"
proof -
  show "server_step recv U B view s s1"
    unfolding s1_def by (rule server_step.request [OF assms(3-7)])
  show "tasks s1 = (tasks s)[b := Ended]" and "sent s1 = sent s @ [(b, f)]" by (simp_all add: s1_def apply_phase_def)
  have "\<forall>e\<in>set (log s). event_chan e \<noteq> c"
    using oneshot.recv_cases [OF assms(1), of "log s" c] assms(2) by auto
  then show "recv (log s1) c = RecvOk infoB"
    using oneshot.recv_send [OF assms(1), of "log s" c infoB "[]"] by (simp add: s1_def apply_phase_def)
qed

lemma met_wakes:
  assumes U: "uuid_codec U" and met: "met recv a n t c infoA infoB fs (frame U (response_paired infoA infoB t)) s"
  shows "tasks s ! a = Ended \<or> (\<exists>s'. server_step recv U B view s s' \<and> tasks s' ! a = Ended)"
proof (cases "tasks s ! a = Waits n t c infoA \<and> recv (log s) c = RecvOk infoB")
  case True
  obtain res st' ev where p: "handle_wait U B n t infoA (WaitOk infoB) (Inr ()) (srv s) =
      Some (Returned res, [frame U (response_paired infoA infoB t)], st', ev)"
    using uuid_codec.wait_total [OF U, of B n t infoA "WaitOk infoB" "Inr ()" "srv s"] by auto
  have "server_step recv U B view s (apply_phase a (Returned res, [frame U (response_paired infoA infoB t)], st', ev) s)"
    by (rule server_step.wake [OF _ _ _ p]) (use met True in \<open>auto simp: met_def\<close>)
  then show ?thesis using met by (intro disjI2 exI conjI) (auto simp: apply_phase_def met_def)
qed (use met in \<open>auto simp: met_def\<close>)

text \<open>
  Claim C1. Two clients meet, from any reachable state of the server with the in-memory registry and
  under any interleaving of its handlers. If client A waits under a name and its channel is
  silent, and the bytes that client B sends decode to a request for that name without A's token,
  then handling exactly these bytes on B's connection is a step of the server that writes one
  frame to B, \<open>Paired\<close> with A's address, and ends B's handler, whether or not the write to B
  succeeds. From then on, whatever else happens, A's handler either still waits and has written
  nothing more, or it has ended after writing one more frame, \<open>Paired\<close> with B's address; it never
  times out, and as long as it waits, ending that way is a step it can take.
\<close>

theorem server_rendezvous:
  assumes "uuid_codec U" and "mem_backend (mem B)" and "oneshot recv"
    and "(server_step recv U B view)\<^sup>*\<^sup>* (system_new cfg (InMemory (mem_new (mem B) rcfg))) s"
    and "a < length (tasks s)" and "tasks s ! a = Waits n t c infoA" and "recv (log s) c = RecvPending"
    and "b < length (tasks s)" and "tasks s ! b = Reading addrB" and "from_socket_addr addrB = Some infoB"
    and "client_request_from_bytes U buf = Some (Inr req)" and "pairing_name req = n" and "request_token req \<noteq> Some t"
    and "new_chan sp = next_chan s" and "registry_admits B view sp (registry (srv s))"
  shows "\<exists>p s1. handle_request U B addrB (ReadOk buf) written sp (srv s) = Some p \<and>
    s1 = apply_phase b p (s\<lparr>next_chan := next_chan s + 1\<rparr>) \<and> server_step recv U B view s s1 \<and>
    tasks s1 ! b = Ended \<and> sent s1 = sent s @ [(b, frame U (response_paired infoB infoA (new_v4 sp)))] \<and>
    (\<forall>s2. (server_step recv U B view)\<^sup>*\<^sup>* s1 s2 \<longrightarrow>
       (tasks s2 ! a = Waits n t c infoA \<and> frames_to a s2 = frames_to a s \<and>
          (\<exists>s3. server_step recv U B view s2 s3 \<and> tasks s3 ! a = Ended) \<or>
        tasks s2 ! a = Ended \<and> frames_to a s2 = frames_to a s @ [frame U (response_paired infoA infoB t)]))"
proof -
  let ?f = "frame U (response_paired infoA infoB t)"
  have ab: "a \<noteq> b" using assms(6,9) by auto
  have "Waits n t c infoA \<in> set (tasks s)" using assms(5,6) by (metis nth_mem)
  then obtain res st' where req: "handle_request U B addrB (ReadOk buf) written sp (srv s) =
      Some (Returned res, [frame U (response_paired infoB infoA (new_v4 sp))], st', [ChanSend c infoB])"
    using pairing_request [OF assms(1-3) steps_findable [OF assms(1,2,4)] _ assms(7,10-13)] by blast
  define s1 where "s1 = apply_phase b (Returned res, [frame U (response_paired infoB infoA (new_v4 sp))], st', [ChanSend c infoB])
      (s\<lparr>next_chan := next_chan s + 1\<rparr>)"
  note one = pairing_step [OF assms(3,7-9,14,15) req, folded s1_def]
  have met1: "met recv a n t c infoA infoB (frames_to a s) ?f s1"
    unfolding met_def using ab assms(5,6) one(2-4) by (simp add: frames_to_def)
  have met: "met recv a n t c infoA infoB (frames_to a s) ?f s2" if "(server_step recv U B view)\<^sup>*\<^sup>* s1 s2" for s2
    using that by (induction rule: rtranclp_induct) (rule met1, rule met_step [OF assms(1,3)])
  have "tasks s2 ! a = Waits n t c infoA \<and> frames_to a s2 = frames_to a s \<and>
        (\<exists>s3. server_step recv U B view s2 s3 \<and> tasks s3 ! a = Ended) \<or>
      tasks s2 ! a = Ended \<and> frames_to a s2 = frames_to a s @ [?f]" if run: "(server_step recv U B view)\<^sup>*\<^sup>* s1 s2" for s2
    using met [OF run] met_wakes [OF assms(1) met [OF run], of B view] unfolding met_def by auto
  with req one assms(8) show ?thesis
    by (intro exI [of _ "(Returned res, [frame U (response_paired infoB infoA (new_v4 sp))], st', [ChanSend c infoB])"]
        exI [of _ s1]) (simp add: s1_def)
qed

theorem server_rendezvous_witness:
  "\<exists>s p s1. demo_step\<^sup>*\<^sup>* demo_start s \<and>
     handle_request hyphenated_ops ref_registry_env (demo_addr 2) (ReadOk demo_buf) (Inr ())
       ((demo_runtime 2)\<lparr>new_chan := 1\<rparr>) (srv s) = Some p \<and>
     s1 = apply_phase 1 p (s\<lparr>next_chan := next_chan s + 1\<rparr>) \<and> demo_step s s1 \<and>
     sent s1 = sent s @ [(1, frame hyphenated_ops (response_paired (demo_peer 2) (demo_peer 1) 2))] \<and>
     (\<exists>s3. demo_step s1 s3 \<and> tasks s3 ! 0 = Ended)"
proof -
  let ?sp = "(demo_runtime 2)\<lparr>new_chan := 1\<rparr>"
  obtain s reg where s: "demo_step\<^sup>*\<^sup>* demo_start s" "tasks s = [Waits demo_name 1 0 (demo_peer 1), Reading (demo_addr 2)]"
    "log s = []" "next_chan s = 1" and reg: "registry (srv s) = InMemory reg" "mem_admits alist_env (demo_runtime 2) reg"
    using demo_run by blast
  have E: "mem_backend (mem ref_registry_env)" by (simp add: alist_mem.mem_backend_axioms)
  have pre: "(0::nat) < length (tasks s)" "tasks s ! 0 = Waits demo_name 1 0 (demo_peer 1)" "first_event (log s) 0 = RecvPending"
    "1 < length (tasks s)" "tasks s ! 1 = Reading (demo_addr 2)" "new_chan ?sp = next_chan s"
    "registry_admits ref_registry_env ref_view ?sp (registry (srv s))"
    using s reg by (simp_all add: registry_admits_def mem_admits_def)
  note ok = server_rendezvous [OF hyphenated.uuid_codec_axioms E first_event.oneshot_axioms s(1) pre(1-5) demo_request _ _ pre(6,7),
      of "Inr ()", simplified]
  from ok obtain p s1 where req: "handle_request hyphenated_ops ref_registry_env (demo_addr 2) (ReadOk demo_buf) (Inr ()) ?sp (srv s) = Some p"
    and s1: "s1 = apply_phase 1 p (s\<lparr>next_chan := next_chan s + 1\<rparr>)" "demo_step s s1"
      "sent s1 = sent s @ [(1, frame hyphenated_ops (response_paired (demo_peer 2) (demo_peer 1) 2))]"
    and rest: "\<forall>s2. demo_step\<^sup>*\<^sup>* s1 s2 \<longrightarrow>
       tasks s2 ! 0 = Waits demo_name 1 0 (demo_peer 1) \<and> frames_to 0 s2 = frames_to 0 s \<and>
          (\<exists>s3. demo_step s2 s3 \<and> tasks s3 ! 0 = Ended) \<or>
        tasks s2 ! 0 = Ended \<and> frames_to 0 s2 = frames_to 0 s @ [frame hyphenated_ops (response_paired (demo_peer 1) (demo_peer 2) 1)]"
    by auto
  have "frames_to 0 s1 = frames_to 0 s" by (simp add: frames_to_def s1(3))
  then have "\<exists>s3. demo_step s1 s3 \<and> tasks s3 ! 0 = Ended" using rest [rule_format, of s1] by auto
  with s(1) req s1 show ?thesis by blast
qed

end
